(* ===== verification/Keystone_Prelude.thy ===== *)
theory Keystone_Prelude
  imports Main "HOL-Library.Word" "HOL-Library.List_Lexorder" "HOL-Library.Multiset"
begin

unbundle bit_operations_syntax

text \<open>
  Shared vocabulary of the KeystoneDB development: byte strings and their order, the
  versioned entry that every component passes around, the \<open>(key ascending, seq descending)\<close>
  order of versions, the abstract lookup in a set of versions, and generic lemmas on lists,
  options and words.
\<close>

named_theorems codec_simps \<open>reading back what an encoder wrote\<close>
named_theorems codec_len \<open>length of an encoding\<close>

section \<open>Bytes, keys, sequence numbers\<close>

text \<open>
  A \<open>std::string\<close> or \<open>std::vector<uint8_t>\<close> is a list of bytes. \<open>std::string::compare\<close>
  compares bytes as unsigned values (\<open>char_traits<char>::lt\<close>), lexicographically and a proper
  prefix first: the order of \<open>List_Lexorder\<close> on \<open>8 word list\<close>.
\<close>

type_synonym byte = "8 word"
type_synonym bytes = "8 word list"
type_synonym key = "8 word list"
type_synonym u32 = "32 word"
type_synonym u64 = "64 word"

abbreviation UINT64_MAX :: u64 where "UINT64_MAX \<equiv> - 1"

text \<open>\<open>static_cast<uint32_t>(n)\<close> and \<open>static_cast<uint64_t>(n)\<close> of a \<open>size_t\<close>.\<close>

abbreviation to_u32 :: "nat \<Rightarrow> u32" where "to_u32 \<equiv> word_of_nat"
abbreviation to_u64 :: "nat \<Rightarrow> u64" where "to_u64 \<equiv> word_of_nat"

lemma unat_to_u32 [simp]: "n < 2 ^ 32 \<Longrightarrow> unat (to_u32 n) = n"
  by (simp add: unat_of_nat take_bit_nat_eq_self)

lemma unat_to_u64 [simp]: "n < 2 ^ 64 \<Longrightarrow> unat (to_u64 n) = n"
  by (simp add: unat_of_nat take_bit_nat_eq_self)

lemma unat_u32_less: "unat (w :: u32) < 2 ^ 32"
  using unsigned_less [of w, where ?'a = nat] by simp

lemma unat_u64_less: "unat (w :: u64) < 2 ^ 64"
  using unsigned_less [of w, where ?'a = nat] by simp

lemma u64_le_max [simp]: "(s :: u64) \<le> UINT64_MAX"
  by (rule word_n1_ge)

section \<open>Versions\<close>

text \<open>
  One version of a key: \<open>Memtable::Entry\<close>, \<open>SSTable::Entry\<close> and \<open>MergeEntry\<close> have the
  same four fields.
\<close>

record entry =
  ekey :: key
  evalue :: bytes
  etomb :: bool
  eseq :: u64

text \<open>\<open>(key ASC, seq DESC)\<close>, the order of the memtable, of a table and of a merge.\<close>

definition ent_less :: "entry \<Rightarrow> entry \<Rightarrow> bool" where
  "ent_less a b \<longleftrightarrow> ekey a < ekey b \<or> ekey a = ekey b \<and> eseq b < eseq a"

definition ent_le :: "entry \<Rightarrow> entry \<Rightarrow> bool" where
  "ent_le a b \<longleftrightarrow> ekey a < ekey b \<or> ekey a = ekey b \<and> eseq b \<le> eseq a"

abbreviation ent_sorted :: "entry list \<Rightarrow> bool" where
  "ent_sorted \<equiv> sorted_wrt ent_le"

lemma ent_le_refl [simp]: "ent_le a a"
  by (simp add: ent_le_def)

lemma ent_le_trans: "ent_le a b \<Longrightarrow> ent_le b c \<Longrightarrow> ent_le a c"
  by (auto simp: ent_le_def)

lemma ent_le_total: "ent_le a b \<or> ent_le b a"
  by (auto simp: ent_le_def)

lemma not_ent_less [simp]: "\<not> ent_less a b \<longleftrightarrow> ent_le b a"
  by (auto simp: ent_le_def ent_less_def)

lemma ent_less_imp_le: "ent_less a b \<Longrightarrow> ent_le a b"
  by (auto simp: ent_le_def ent_less_def)

lemma ent_less_le_trans: "ent_less a b \<Longrightarrow> ent_le b c \<Longrightarrow> ent_less a c"
  by (auto simp: ent_le_def ent_less_def)

lemma ent_le_less_trans: "ent_le a b \<Longrightarrow> ent_less b c \<Longrightarrow> ent_less a c"
  by (auto simp: ent_le_def ent_less_def)

lemma ent_le_key: "ent_le a b \<Longrightarrow> ekey a \<le> ekey b"
  by (auto simp: ent_le_def)

section \<open>Abstract lookup\<close>

text \<open>The outcome of a point lookup: \<open>Memtable::Status\<close> and \<open>SSTable::LookupStatus\<close>.\<close>

datatype status = NotFound | Found bytes | Deleted

definition status_of :: "entry \<Rightarrow> status" where
  "status_of e = (if etomb e then Deleted else Found (evalue e))"

text \<open>
  The specification of a versioned lookup. \<open>visible es k s\<close> are the versions of \<open>k\<close> a
  snapshot at \<open>s\<close> may see; \<open>newest es k s e\<close> says that \<open>e\<close> is one of them with the
  greatest sequence number. It speaks of a set of versions and knows nothing of their order.
\<close>

definition visible :: "entry set \<Rightarrow> key \<Rightarrow> u64 \<Rightarrow> entry set" where
  "visible es k s = {e \<in> es. ekey e = k \<and> eseq e \<le> s}"

definition newest :: "entry set \<Rightarrow> key \<Rightarrow> u64 \<Rightarrow> entry \<Rightarrow> bool" where
  "newest es k s e \<longleftrightarrow> e \<in> visible es k s \<and> (\<forall>e' \<in> visible es k s. eseq e' \<le> eseq e)"

text \<open>The executable lookup in a sorted run of versions.\<close>

definition lookup_run :: "entry list \<Rightarrow> key \<Rightarrow> u64 \<Rightarrow> entry option" where
  "lookup_run es k s = find (\<lambda>e. ekey e = k \<and> eseq e \<le> s) es"

definition run_status :: "entry list \<Rightarrow> key \<Rightarrow> u64 \<Rightarrow> status" where
  "run_status es k s = (case lookup_run es k s of None \<Rightarrow> NotFound | Some e \<Rightarrow> status_of e)"

lemma lookup_run_Nil [simp]: "lookup_run [] k s = None"
  by (simp add: lookup_run_def)

lemma lookup_run_Cons [simp]:
  "lookup_run (e # es) k s = (if ekey e = k \<and> eseq e \<le> s then Some e else lookup_run es k s)"
  by (simp add: lookup_run_def)

lemma lookup_run_None_iff: "lookup_run es k s = None \<longleftrightarrow> visible (set es) k s = {}"
  by (auto simp: lookup_run_def visible_def find_None_iff)

lemma lookup_run_append:
  "lookup_run (xs @ ys) k s = (case lookup_run xs k s of None \<Rightarrow> lookup_run ys k s | Some e \<Rightarrow> Some e)"
  by (induction xs) auto

lemma lookup_run_newest:
  "ent_sorted es \<Longrightarrow> lookup_run es k s = Some e \<Longrightarrow> newest (set es) k s e"
proof (induction es)
  case Nil
  then show ?case by simp
next
  case (Cons x es)
  show ?case
  proof (cases "ekey x = k \<and> eseq x \<le> s")
    case True
    with Cons.prems show ?thesis by (auto simp: newest_def visible_def ent_le_def)
  next
    case False
    with Cons.prems Cons.IH have "newest (set es) k s e" by auto
    with False show ?thesis by (auto simp: newest_def visible_def)
  qed
qed

lemma lookup_run_no_key: "\<forall>e \<in> set es. ekey e \<noteq> k \<Longrightarrow> lookup_run es k s = None"
  by (auto simp: lookup_run_None_iff visible_def)

section \<open>Lists\<close>

lemma take_drop_append_len [simp]:
  "length xs = n \<Longrightarrow> take n (xs @ ys) = xs" "length xs = n \<Longrightarrow> drop n (xs @ ys) = ys"
  by auto

lemma concat_map_append [simp]: "concat (map f (xs @ ys)) = concat (map f xs) @ concat (map f ys)"
  by simp

end
