(* ===== verification/Coding.thy ===== *)
theory Coding
  imports Keystone_Prelude
begin

text \<open>
  \<open>src/coding.h\<close>: the little-endian codecs of namespace \<open>coding\<close> and the I/O loops of
  namespace \<open>io\<close> over a POSIX descriptor.
\<close>

section \<open>Little-endian integers\<close>

text \<open>
  The C++ functions write to and read from a buffer pointer. A writer is the list of bytes it
  stores from the pointer on; a reader takes the bytes from the pointer on (\<open>buf + off\<close> is
  \<open>drop off buf\<close>).
\<close>

definition put_u32_le :: "u32 \<Rightarrow> bytes" where
  "put_u32_le v = [ucast v, ucast (drop_bit 8 v), ucast (drop_bit 16 v), ucast (drop_bit 24 v)]"

definition get_u32_le :: "bytes \<Rightarrow> u32" where
  "get_u32_le buf = ucast (buf ! 0) OR push_bit 8 (ucast (buf ! 1))
     OR push_bit 16 (ucast (buf ! 2)) OR push_bit 24 (ucast (buf ! 3))"

definition put_u64_le :: "u64 \<Rightarrow> bytes" where
  "put_u64_le v = [ucast v, ucast (drop_bit 8 v), ucast (drop_bit 16 v), ucast (drop_bit 24 v),
     ucast (drop_bit 32 v), ucast (drop_bit 40 v), ucast (drop_bit 48 v), ucast (drop_bit 56 v)]"

definition get_u64_le :: "bytes \<Rightarrow> u64" where
  "get_u64_le buf = ucast (buf ! 0) OR push_bit 8 (ucast (buf ! 1))
     OR push_bit 16 (ucast (buf ! 2)) OR push_bit 24 (ucast (buf ! 3))
     OR push_bit 32 (ucast (buf ! 4)) OR push_bit 40 (ucast (buf ! 5))
     OR push_bit 48 (ucast (buf ! 6)) OR push_bit 56 (ucast (buf ! 7))"

lemma put_u32_le_length [simp, codec_len]: "length (put_u32_le v) = 4"
  by (simp add: put_u32_le_def)

lemma put_u64_le_length [simp, codec_len]: "length (put_u64_le v) = 8"
  by (simp add: put_u64_le_def)

lemma get_put_u32_le [simp, codec_simps]: "get_u32_le (put_u32_le v @ rest) = v"
proof (rule bit_word_eqI)
  fix n assume n: "n < LENGTH(32)"
  then consider "n < 8" | "8 \<le> n" "n < 16" | "16 \<le> n" "n < 24" | "24 \<le> n" by linarith
  then show "bit (get_u32_le (put_u32_le v @ rest)) n \<longleftrightarrow> bit v n"
    by cases (use n in \<open>auto simp: put_u32_le_def get_u32_le_def bit_simps\<close>)
qed

lemma get_put_u64_le [simp, codec_simps]: "get_u64_le (put_u64_le v @ rest) = v"
proof (rule bit_word_eqI)
  fix n assume n: "n < LENGTH(64)"
  then consider "n < 8" | "8 \<le> n" "n < 16" | "16 \<le> n" "n < 24" | "24 \<le> n" "n < 32"
    | "32 \<le> n" "n < 40" | "40 \<le> n" "n < 48" | "48 \<le> n" "n < 56" | "56 \<le> n" by linarith
  then show "bit (get_u64_le (put_u64_le v @ rest)) n \<longleftrightarrow> bit v n"
    by cases (use n in \<open>simp_all add: put_u64_le_def get_u64_le_def bit_simps less_diff_conv2\<close>)
qed

lemma list_length_4: "length xs = 4 \<Longrightarrow> \<exists>a b c d. xs = [a, b, c, d]"
  by (simp add: length_Suc_conv numeral_eq_Suc) blast

lemma list_length_8: "length xs = 8 \<Longrightarrow> \<exists>a b c d e f g h. xs = [a, b, c, d, e, f, g, h]"
  by (simp add: length_Suc_conv numeral_eq_Suc) blast

lemma byte_bit_high [simp]: "8 \<le> n \<Longrightarrow> \<not> bit (b :: byte) n"
  by (simp add: bit_word.rep_eq)

lemma put_get_u32_le: "length buf = 4 \<Longrightarrow> put_u32_le (get_u32_le buf) = buf"
  by (drule list_length_4)
    (auto simp: put_u32_le_def get_u32_le_def bit_simps intro!: bit_word_eqI)

lemma put_get_u64_le: "length buf = 8 \<Longrightarrow> put_u64_le (get_u64_le buf) = buf"
  by (drule list_length_8)
    (auto simp: put_u64_le_def get_u64_le_def bit_simps intro!: bit_word_eqI)

lemma get_u32_le_take [simp]: "get_u32_le (take 4 b) = get_u32_le b"
  by (simp add: get_u32_le_def)

lemma get_u64_le_take [simp]: "get_u64_le (take 8 b) = get_u64_le b"
  by (simp add: get_u64_le_def)

lemma put_get_u32_take: "4 \<le> length b \<Longrightarrow> put_u32_le (get_u32_le b) = take 4 b"
  using put_get_u32_le [of "take 4 b"] by simp

lemma put_get_u64_take: "8 \<le> length b \<Longrightarrow> put_u64_le (get_u64_le b) = take 8 b"
  using put_get_u64_le [of "take 8 b"] by simp

section \<open>Descriptors\<close>

text \<open>
  The kernel is not part of the repository. What it answers to the successive calls of a loop
  is a list of replies, an argument of the model: \<open>Xfer n\<close> moves up to \<open>n\<close> bytes, \<open>EINTR\<close>
  and \<open>EFail\<close> are the error returns. When the list is exhausted the kernel moves all it is
  asked for. \<open>read\<close> returns 0 only at the end of the file, so \<open>Xfer\<close> moves at least one
  byte of a read when there is one.
\<close>

datatype sys_ret = Xfer nat | EINTR | EFail

text \<open>\<open>io::write_fully\<close>: the bytes that reached the file, the replies left, and whether it threw.\<close>

datatype io_error = WriteFailed

fun write_fully :: "sys_ret list \<Rightarrow> bytes \<Rightarrow> bytes \<times> sys_ret list \<times> io_error option" where
  "write_fully rs [] = ([], rs, None)"
| "write_fully [] buf = (buf, [], None)"
| "write_fully (EINTR # rs) buf = write_fully rs buf"
| "write_fully (EFail # rs) buf = ([], rs, Some WriteFailed)"
| "write_fully (Xfer n # rs) buf =
     (case write_fully rs (drop n buf) of (w, rs', r) \<Rightarrow> (take n buf @ w, rs', r))"

text \<open>
  \<open>io::read_fully\<close> of \<open>cnt\<close> bytes from a descriptor: the replies to come and the bytes
  between its offset and the end of the file. \<open>None\<close> is the return value \<open>false\<close>.
\<close>

type_synonym rfd = "sys_ret list \<times> bytes"

fun read_fully :: "nat \<Rightarrow> rfd \<Rightarrow> bytes option \<times> rfd" where
  "read_fully cnt ([], u) =
     (if cnt \<le> length u then (Some (take cnt u), ([], drop cnt u)) else (None, ([], [])))"
| "read_fully cnt (EINTR # rs, u) = (if cnt = 0 then (Some [], (EINTR # rs, u)) else (None, (rs, u)))"
| "read_fully cnt (EFail # rs, u) = (if cnt = 0 then (Some [], (EFail # rs, u)) else (None, (rs, u)))"
| "read_fully cnt (Xfer n # rs, u) =
     (if cnt = 0 then (Some [], (Xfer n # rs, u))
      else let k = min (max 1 n) (min cnt (length u)) in
        if k = 0 then (None, (rs, u))
        else case read_fully (cnt - k) (rs, drop k u) of
            (None, fd) \<Rightarrow> (None, fd)
          | (Some b, fd) \<Rightarrow> (Some (take k u @ b), fd))"

definition no_fault :: "sys_ret list \<Rightarrow> bool" where
  "no_fault rs \<longleftrightarrow> EINTR \<notin> set rs \<and> EFail \<notin> set rs"

lemma no_fault_simps [simp]:
  "no_fault []" "no_fault (Xfer n # rs) = no_fault rs"
  "\<not> no_fault (EINTR # rs)" "\<not> no_fault (EFail # rs)"
  by (auto simp: no_fault_def)

text \<open>
  Without an error return the loop reads exactly the next \<open>cnt\<close> bytes, however the kernel
  splits them, and fails only when fewer are left (it has then consumed them).
\<close>

lemma read_fully_Xfer:
  assumes "cnt \<noteq> 0" "u \<noteq> []" "k = min (max 1 n) (min cnt (length u))"
  shows "read_fully cnt (Xfer n # rs, u) = (case read_fully (cnt - k) (rs, drop k u) of
            (None, fd) \<Rightarrow> (None, fd) | (Some b, fd) \<Rightarrow> (Some (take k u @ b), fd))"
    and "0 < k" "k \<le> cnt" "k \<le> length u"
proof -
  have len: "0 < length u" using assms by simp
  show k: "0 < k" "k \<le> cnt" "k \<le> length u" unfolding assms(3) using assms(1) len by linarith+
  then show "read_fully cnt (Xfer n # rs, u) = (case read_fully (cnt - k) (rs, drop k u) of
            (None, fd) \<Rightarrow> (None, fd) | (Some b, fd) \<Rightarrow> (Some (take k u @ b), fd))"
    using assms(1) by (simp only: read_fully.simps Let_def assms(3) [symmetric]) simp
qed

lemma take_split: "k \<le> n \<Longrightarrow> take k u @ take (n - k) (drop k u) = take n u"
  by (metis take_add le_add_diff_inverse)

lemma read_fully_0: "read_fully 0 (rs, u) = (Some [], (rs, u))"
  by (cases rs rule: list.exhaust; cases "hd rs") auto

lemma read_fully_no_fault:
  "no_fault rs \<Longrightarrow> \<exists>rs'. no_fault rs' \<and> read_fully cnt (rs, u) =
     (if cnt \<le> length u then (Some (take cnt u), (rs', drop cnt u)) else (None, (rs', [])))"
proof (induction rs arbitrary: cnt u)
  case Nil
  then show ?case by auto
next
  case (Cons r rs)
  then obtain n where r: "r = Xfer n" and nf: "no_fault rs" by (cases r) auto
  show ?case
  proof (cases "cnt = 0 \<or> u = []")
    case True
    with Cons.prems nf r show ?thesis by (cases "cnt = 0") (auto simp: read_fully_0)
  next
    case False
    define k where "k = min (max 1 n) (min cnt (length u))"
    note step = read_fully_Xfer [OF _ _ k_def]
    from False have k: "0 < k" "k \<le> cnt" "k \<le> length u" using step by blast+
    then have "cnt - k \<le> length (drop k u) \<longleftrightarrow> cnt \<le> length u" "drop (cnt - k) (drop k u) = drop cnt u"
      by auto
    with Cons.IH [OF nf, of "cnt - k" "drop k u"] obtain rs' where "no_fault rs'" and
      "read_fully (cnt - k) (rs, drop k u) =
         (if cnt \<le> length u then (Some (take (cnt - k) (drop k u)), (rs', drop cnt u))
          else (None, (rs', [])))"
      by auto
    then show ?thesis using step(1) False r k take_split [of k cnt u]
      by (intro exI [of _ rs']) (simp split: if_splits)
  qed
qed

lemma read_fully_Some:
  "read_fully cnt (rs, u) = (Some b, (rs', u')) \<Longrightarrow> u = b @ u' \<and> length b = cnt"
proof (induction rs arbitrary: cnt u b)
  case Nil
  then show ?case by (auto split: if_splits)
next
  case (Cons r rs)
  show ?case
  proof (cases "cnt = 0 \<or> u = [] \<or> (\<forall>n. r \<noteq> Xfer n)")
    case True
    with Cons.prems show ?thesis by (cases "cnt = 0"; cases r) (auto simp: read_fully_0)
  next
    case False
    then obtain n where r: "r = Xfer n" by blast
    define k where "k = min (max 1 n) (min cnt (length u))"
    note step = read_fully_Xfer [OF _ _ k_def]
    from False have k: "0 < k" "k \<le> cnt" "k \<le> length u" using step by blast+
    from Cons.prems step(1) False r obtain b' where
      "read_fully (cnt - k) (rs, drop k u) = (Some b', (rs', u'))" and b: "b = take k u @ b'"
      by (auto split: prod.splits option.splits)
    then have "drop k u = b' @ u'" "length b' = cnt - k" using Cons.IH by blast+
    then show ?thesis using b k by (metis append_assoc append_take_drop_id length_append
          length_take min.absorb2 le_add_diff_inverse)
  qed
qed

lemma read_fully_app:
  assumes "no_fault rs" "length b = n"
  obtains rs' where "no_fault rs'" "read_fully n (rs, b @ u) = (Some b, (rs', u))"
  using read_fully_no_fault [OF assms(1), of n "b @ u"] assms(2) by auto

lemma read_fully_short: "length u < n \<Longrightarrow> \<exists>fd. read_fully n (rs, u) = (None, fd)"
proof -
  assume u: "length u < n"
  obtain a rs' u' where r: "read_fully n (rs, u) = (a, (rs', u'))" by (metis prod.exhaust)
  with u show ?thesis by (cases a) (auto dest: read_fully_Some)
qed

text \<open>
  \<open>io::write_fully\<close>: on success all bytes are in the file, in order; when it throws, a prefix is.
\<close>

lemma write_fully_Nil: "write_fully [] buf = (buf, [], None)"
  by (cases buf) simp_all

lemma write_fully_torn:
  assumes "n < length buf"
  shows "write_fully (Xfer n # EFail # rs) buf = (take n buf, rs, Some WriteFailed)"
proof -
  from assms obtain b bs where "drop n buf = b # bs" by (cases "drop n buf") auto
  with assms show ?thesis by (cases buf) auto
qed

lemma write_fully_prefix:
  "write_fully rs buf = (w, rs', r) \<Longrightarrow> \<exists>rest. buf = w @ rest \<and> (r = None \<longrightarrow> rest = [])"
proof (induction rs buf arbitrary: w rule: write_fully.induct)
  case (5 n rs v va)
  then obtain w' where w: "write_fully rs (drop n (v # va)) = (w', rs', r)"
    "w = take n (v # va) @ w'" by (auto split: prod.splits)
  from "5.IH" [OF w(1)] obtain rest where "drop n (v # va) = w' @ rest" "r = None \<longrightarrow> rest = []"
    by blast
  then show ?case using w(2) by (metis append_assoc append_take_drop_id)
qed auto

section \<open>Append-only files\<close>

text \<open>
  A log file as its owner and a crash see it: the bytes written through the descriptor and the
  length of the prefix a completed sync made durable. After a crash the file holds some prefix
  that contains at least the durable one.
\<close>

record afile =
  contents :: bytes
  durable :: nat

definition crash_image :: "afile \<Rightarrow> bytes \<Rightarrow> bool" where
  "crash_image f img \<longleftrightarrow> (\<exists>n. durable f \<le> n \<and> n \<le> length (contents f) \<and> img = take n (contents f))"

definition file_write :: "sys_ret list \<Rightarrow> bytes \<Rightarrow> afile \<Rightarrow> afile \<times> io_error option" where
  "file_write rs buf f =
     (case write_fully rs buf of (w, _, r) \<Rightarrow> (f\<lparr>contents := contents f @ w\<rparr>, r))"

text \<open>
  \<open>io::durable_sync\<close> ignores what \<open>fdatasync\<close> returns; \<open>ok\<close> says whether it succeeded.
\<close>

definition durable_sync :: "bool \<Rightarrow> afile \<Rightarrow> afile" where
  "durable_sync ok f = (if ok then f\<lparr>durable := length (contents f)\<rparr> else f)"

lemma file_write_contents:
  assumes "file_write rs buf f = (f', e)"
  obtains n where "contents f' = contents f @ take n buf" "durable f' = durable f"
    "e = None \<longrightarrow> contents f' = contents f @ buf"
proof -
  obtain w rs' where w: "write_fully rs buf = (w, rs', e)" "f' = f\<lparr>contents := contents f @ w\<rparr>"
    using assms by (auto simp: file_write_def split: prod.splits)
  from write_fully_prefix [OF w(1)] obtain rest where "buf = w @ rest" "e = None \<longrightarrow> rest = []" by blast
  with w(2) show thesis by (intro that [of "length w"]) auto
qed

end
