(* ===== verification/Crc32.thy ===== *)
theory Crc32
  imports Coding
begin

text \<open>
  \<open>src/crc32.cpp\<close>: the table of 256 entries and the byte-wise loop, the bit-wise division it
  stands for, and what the checksum detects.
\<close>

section \<open>The code\<close>

text \<open>One round of the inner loop of the table's constructor.\<close>

definition crc_round :: "u32 \<Rightarrow> u32" where
  "crc_round c = (if bit c 0 then 0xEDB88320 XOR drop_bit 1 c else drop_bit 1 c)"

definition table_entry :: "nat \<Rightarrow> u32" where
  "table_entry i = (crc_round ^^ 8) (word_of_nat i)"

definition kTable :: "u32 list" where
  "kTable = map table_entry [0..<256]"

text \<open>One iteration of the loop of \<open>crc32\<close>, and the function.\<close>

definition crc_step :: "u32 \<Rightarrow> byte \<Rightarrow> u32" where
  "crc_step crc p = kTable ! unat ((crc XOR ucast p) AND 0xFF) XOR drop_bit 8 crc"

definition crc32 :: "bytes \<Rightarrow> u32" where
  "crc32 data = foldl crc_step 0xFFFFFFFF data XOR 0xFFFFFFFF"

section \<open>The bit-wise reference\<close>

definition crc_ref_step :: "u32 \<Rightarrow> byte \<Rightarrow> u32" where
  "crc_ref_step crc p = (crc_round ^^ 8) (crc XOR ucast p)"

definition crc32_ref :: "bytes \<Rightarrow> u32" where
  "crc32_ref data = foldl crc_ref_step 0xFFFFFFFF data XOR 0xFFFFFFFF"

lemma crc_round_xor: "crc_round (a XOR b) = crc_round a XOR crc_round b"
  by (rule bit_word_eqI) (auto simp: crc_round_def bit_simps)

lemma crc_rounds_xor: "(crc_round ^^ n) (a XOR b) = (crc_round ^^ n) a XOR (crc_round ^^ n) b"
  by (induction n) (simp_all add: crc_round_xor)

lemma crc_rounds_high:
  "(\<forall>i < n. \<not> bit c i) \<Longrightarrow> (crc_round ^^ n) c = drop_bit n c"
proof (induction n)
  case 0
  then show ?case by simp
next
  case (Suc n)
  then have "(crc_round ^^ Suc n) c = crc_round (drop_bit n c)" by simp
  also have "\<dots> = drop_bit (Suc n) c"
    using Suc.prems by (auto simp: crc_round_def bit_simps intro!: bit_word_eqI)
  finally show ?case .
qed

lemma low_byte: "unat (c AND 0xFF :: u32) < 256"
proof -
  have "c AND 0xFF \<le> (0xFF :: u32)" by (rule word_and_le1)
  then have "unat (c AND 0xFF) \<le> unat (0xFF :: u32)" by (simp add: word_le_nat_alt)
  then show ?thesis by simp
qed

lemma crc_rounds_split:
  "(crc_round ^^ n) c = (crc_round ^^ n) (c AND mask n) XOR drop_bit n c"
proof -
  have "c = (c AND mask n) XOR (c AND NOT (mask n))"
    by (rule bit_word_eqI) (auto simp: bit_simps)
  then have "(crc_round ^^ n) c = (crc_round ^^ n) (c AND mask n) XOR (crc_round ^^ n) (c AND NOT (mask n))"
    by (metis crc_rounds_xor)
  also have "(crc_round ^^ n) (c AND NOT (mask n)) = drop_bit n (c AND NOT (mask n))"
    by (rule crc_rounds_high) (auto simp: bit_simps)
  also have "\<dots> = drop_bit n c"
    by (rule bit_word_eqI) (auto simp: bit_simps dest: bit_imp_le_length)
  finally show ?thesis .
qed

text \<open>The table lookup does eight rounds at once.\<close>

lemma table_rounds: "kTable ! unat (c AND 0xFF) XOR drop_bit 8 c = (crc_round ^^ 8) c"
proof -
  have "mask 8 = (0xFF :: u32)" by (simp add: mask_eq_exp_minus_1)
  then show ?thesis
    using low_byte [of c] crc_rounds_split [of 8 c]
    by (simp add: kTable_def table_entry_def)
qed

lemma crc_step_eq: "crc_step = crc_ref_step"
proof (intro ext)
  fix crc :: u32 and p :: byte
  have "drop_bit 8 (crc XOR ucast p) = drop_bit 8 crc"
    by (rule bit_word_eqI) (auto simp: bit_simps)
  then show "crc_step crc p = crc_ref_step crc p"
    by (metis crc_step_def crc_ref_step_def table_rounds)
qed

lemma crc32_eq_ref: "crc32 = crc32_ref"
  by (simp add: fun_eq_iff crc32_def crc32_ref_def crc_step_eq)

text \<open>Evaluation of the checksum of concrete bytes.\<close>

lemma funpow_8: "(f ^^ 8) x = f (f (f (f (f (f (f (f x)))))))"
  by (simp add: numeral_eq_Suc)

lemmas crc_eval = crc32_eq_ref crc32_ref_def crc_ref_step_def funpow_8 crc_round_def

text \<open>The published check value of CRC-32: the checksum of \<open>"123456789"\<close>.\<close>

lemma crc32_check_value: "crc32 [0x31, 0x32, 0x33, 0x34, 0x35, 0x36, 0x37, 0x38, 0x39] = 0xCBF43926"
  by (simp add: crc_eval)

text \<open>
  C27. The table-driven loop computes the bit-wise CRC-32 of every byte string.
\<close>

theorem crc32_table_correct: "crc32 data = crc32_ref data"
  by (simp add: crc32_eq_ref)

section \<open>Error detection\<close>

text \<open>
  A round can be undone: the top bit of its result tells the bit it shifted out, since the
  polynomial has its top bit set. So two messages that reach different states stay apart over
  any common continuation, and a single differing byte is always detected.
\<close>

lemma xor_cancel: "a XOR c = b XOR c \<longleftrightarrow> a = (b :: 'a::len word)"
proof
  assume "a XOR c = b XOR c"
  then have "(a XOR c) XOR c = (b XOR c) XOR c" by simp
  then show "a = b" by (simp only: xor.assoc xor_self_eq xor.right_neutral)
qed simp

lemma xor_cancel': "c XOR a = c XOR b \<longleftrightarrow> a = (b :: 'a::len word)"
  using xor_cancel [of a c b] by (simp add: xor.commute)

lemma crc_round_top: "bit (crc_round c) 31 \<longleftrightarrow> bit c 0"
  by (auto simp: crc_round_def bit_simps dest: bit_imp_le_length)

lemma crc_round_inj: "crc_round a = crc_round b \<Longrightarrow> a = b"
proof (rule bit_word_eqI)
  fix n assume n: "n < LENGTH(32)" and eq: "crc_round a = crc_round b"
  have b0: "bit a 0 \<longleftrightarrow> bit b 0" by (metis crc_round_top eq)
  with eq have d: "drop_bit 1 a = drop_bit 1 b"
    by (auto simp: crc_round_def xor_cancel' split: if_splits)
  show "bit a n \<longleftrightarrow> bit b n"
  proof (cases n)
    case 0
    with b0 show ?thesis by simp
  next
    case (Suc m)
    from d have "bit (drop_bit 1 a) m \<longleftrightarrow> bit (drop_bit 1 b) m" by simp
    with Suc show ?thesis by (simp add: bit_simps)
  qed
qed

lemma crc_rounds_inj: "(crc_round ^^ n) a = (crc_round ^^ n) b \<Longrightarrow> a = b"
  by (induction n) (auto dest: crc_round_inj)

lemma crc_ref_step_inj_state: "crc_ref_step c p = crc_ref_step d p \<Longrightarrow> c = d"
  by (auto simp: crc_ref_step_def xor_cancel dest: crc_rounds_inj)

lemma ucast_byte_u32: "ucast (ucast p :: u32) = (p :: byte)"
  by (rule bit_word_eqI) (auto simp: bit_simps)

lemma crc_ref_step_inj_byte: "crc_ref_step c p = crc_ref_step c q \<Longrightarrow> p = q"
proof -
  assume "crc_ref_step c p = crc_ref_step c q"
  then have "c XOR ucast p = c XOR ucast q" by (auto simp: crc_ref_step_def dest: crc_rounds_inj)
  then have "ucast (ucast p :: u32) = (ucast (ucast q :: u32) :: byte)" by (simp add: xor_cancel')
  then show "p = q" by (simp add: ucast_byte_u32)
qed

lemma foldl_crc_inj: "foldl crc_ref_step c xs = foldl crc_ref_step d xs \<longleftrightarrow> c = d"
  by (induction xs arbitrary: c d) (auto dest: crc_ref_step_inj_state)

lemma crc32_suffix_cancel:
  "crc32 (xs @ zs) = crc32 (ys @ zs) \<longleftrightarrow> crc32 xs = crc32 ys"
  by (simp add: crc32_eq_ref crc32_ref_def foldl_crc_inj xor_cancel)

text \<open>
  Up to four consecutive bytes enter the register as one word: the bytes in little-endian order.
\<close>

primrec le_word :: "bytes \<Rightarrow> u32" where
  "le_word [] = 0"
| "le_word (p # ps) = ucast p XOR push_bit 8 (le_word ps)"

lemma le_word_high: "8 * length ps \<le> n \<Longrightarrow> \<not> bit (le_word ps) n"
  by (induction ps arbitrary: n) (auto simp: bit_simps)

lemma foldl_crc_le_word:
  "length ps \<le> 4 \<Longrightarrow> foldl crc_ref_step c ps = (crc_round ^^ (8 * length ps)) (c XOR le_word ps)"
proof (induction ps arbitrary: c)
  case Nil
  then show ?case by simp
next
  case (Cons p ps)
  have hi: "n < 24" if "bit (le_word ps) n" for n
    using that Cons.prems le_word_high [of ps n] by fastforce
  have "(crc_round ^^ 8) (push_bit 8 (le_word ps)) = drop_bit 8 (push_bit 8 (le_word ps))"
    by (rule crc_rounds_high) (auto simp: bit_simps)
  also have "\<dots> = le_word ps"
    by (auto intro!: bit_word_eqI simp: bit_simps dest: hi)
  finally have "crc_ref_step c p XOR le_word ps = (crc_round ^^ 8) (c XOR le_word (p # ps))"
    by (simp only: crc_ref_step_def crc_rounds_xor le_word.simps xor.assoc)
  moreover have "8 * length (p # ps) = 8 * length ps + 8" by simp
  moreover have "foldl crc_ref_step c (p # ps) =
      (crc_round ^^ (8 * length ps)) (crc_ref_step c p XOR le_word ps)"
    using Cons by (simp del: le_word.simps)
  ultimately show ?case by (simp only: funpow_add comp_apply)
qed

lemma le_word_inj: "length ps = length qs \<Longrightarrow> length ps \<le> 4 \<Longrightarrow> le_word ps = le_word qs \<Longrightarrow> ps = qs"
proof (induction ps qs rule: list_induct2)
  case Nil
  then show ?case by simp
next
  case (Cons p ps q qs)
  have bits: "bit (le_word (p # ps)) n \<longleftrightarrow> bit (le_word (q # qs)) n" for n
    using Cons.prems by simp
  have "p = q"
  proof (rule bit_word_eqI)
    fix n assume "n < LENGTH(8)"
    then show "bit p n \<longleftrightarrow> bit q n" using bits [of n] by (simp add: bit_simps)
  qed
  moreover have "le_word ps = le_word qs"
  proof (rule bit_word_eqI)
    fix n assume "n < LENGTH(32)"
    show "bit (le_word ps) n \<longleftrightarrow> bit (le_word qs) n"
    proof (cases "n < 24")
      case True
      then show ?thesis using bits [of "n + 8"] by (simp add: bit_simps)
    next
      case False
      then show ?thesis using Cons le_word_high [of ps n] le_word_high [of qs n] by auto
    qed
  qed
  ultimately show ?case using Cons by simp
qed

lemma crc32_window:
  assumes "length ps = length qs" "length ps \<le> 4" "crc32 (xs @ ps @ zs) = crc32 (xs @ qs @ zs)"
  shows "ps = qs"
proof -
  define c where "c = foldl crc_ref_step 0xFFFFFFFF xs"
  from assms(3) have "foldl crc_ref_step c ps = foldl crc_ref_step c qs"
    by (simp add: crc32_eq_ref crc32_ref_def foldl_crc_inj xor_cancel c_def)
  with assms(1,2) have "c XOR le_word ps = c XOR le_word qs"
    by (auto simp: foldl_crc_le_word dest: crc_rounds_inj)
  then show ?thesis using assms(1,2) by (auto simp: xor_cancel' intro: le_word_inj)
qed

text \<open>
  Burst errors. Two byte strings that differ within a window of at most four consecutive
  bytes have different checksums.
\<close>

lemma crc32_detects_burst:
  assumes "length ps = length qs" "length ps \<le> 4" "ps \<noteq> qs"
  shows "crc32 (xs @ ps @ zs) \<noteq> crc32 (xs @ qs @ zs)"
  using assms crc32_window by blast

end
