(* ===== verification/Framed_Log.thy ===== *)
theory Framed_Log
  imports Coding "HOL-Library.Sublist"
begin

text \<open>
  The contract shared by the write-ahead log and the MANIFEST: a file is a sequence of framed
  records, and a reader runs one iteration after the other until the first that fails. From what
  one iteration promises, the whole loop reads back what was written, stops cleanly in a torn
  tail, and never invents a record.
\<close>

locale framed_log =
  fixes frame :: "'r \<Rightarrow> bytes"
    and ok :: "'r \<Rightarrow> bool"
    and one :: "rfd \<Rightarrow> ('r \<times> rfd) option"
    and loop :: "rfd \<Rightarrow> 'r list"
  assumes one_sound: "one (rs, u) = Some (r, (rs', u')) \<Longrightarrow> u = frame r @ u' \<and> ok r"
    and one_frame: "ok r \<Longrightarrow> no_fault rs \<Longrightarrow>
      \<exists>rs'. no_fault rs' \<and> one (rs, frame r @ u) = Some (r, (rs', u))"
    and frame_nonempty: "frame r \<noteq> []"
    and loop_unfold: "loop fd = (case one fd of None \<Rightarrow> [] | Some (r, fd') \<Rightarrow> r # loop fd')"
begin

definition frames :: "'r list \<Rightarrow> bytes" where
  "frames recs = concat (map frame recs)"

lemma frames_simps [simp]:
  "frames [] = []" "frames (r # recs) = frame r @ frames recs"
  "frames (xs @ ys) = frames xs @ frames ys"
  by (simp_all add: frames_def)

text \<open>
  Accepting a frame and nothing but frames makes the frames prefix-free, so a record cut short is
  never accepted.
\<close>

lemma one_short:
  assumes "ok r" "strict_prefix u (frame r)"
  shows "one (rs, u) = None"
proof (rule ccontr)
  assume "one (rs, u) \<noteq> None"
  then obtain r' rs' u' where "one (rs, u) = Some (r', (rs', u'))" by (metis option.exhaust prod.exhaust)
  then have u: "u = frame r' @ u'" "ok r'" using one_sound by blast+
  from assms(2) obtain x where x: "frame r = u @ x" "x \<noteq> []"
    by (auto simp: strict_prefix_def prefix_def)
  obtain rs1 where "one ([], frame r) = Some (r, (rs1, []))"
    using one_frame [OF assms(1), of "[]" "[]"] by auto
  moreover obtain rs2 where "one ([], frame r' @ u' @ x) = Some (r', (rs2, u' @ x))"
    using one_frame [OF u(2), of "[]" "u' @ x"] by auto
  ultimately show False using x u(1) by simp
qed

lemma loop_stop: "one fd = None \<Longrightarrow> loop fd = []"
  by (subst loop_unfold) simp

lemma loop_frames:
  assumes "\<forall>r \<in> set recs. ok r" "no_fault rs"
  shows "\<exists>rs'. no_fault rs' \<and> loop (rs, frames recs @ tail) = recs @ loop (rs', tail)"
  using assms
proof (induction recs arbitrary: rs)
  case Nil
  then show ?case by auto
next
  case (Cons r recs)
  then obtain rs1 where "no_fault rs1"
    and "one (rs, frame r @ frames recs @ tail) = Some (r, (rs1, frames recs @ tail))"
    using one_frame [of r rs "frames recs @ tail"] by auto
  with Cons show ?case by (subst loop_unfold) auto
qed

lemma one_empty: "one (rs, []) = None"
  using one_sound [of rs "[]"] frame_nonempty by (cases "one (rs, [])") auto

lemma loop_stopped_tail:
  assumes "\<forall>r \<in> set recs. ok r" "no_fault rs" "\<And>rs'. one (rs', tail) = None"
  shows "loop (rs, frames recs @ tail) = recs"
  using loop_frames [OF assms(1,2), of tail] assms(3) by (auto simp: loop_stop)

lemma loop_roundtrip:
  "\<forall>r \<in> set recs. ok r \<Longrightarrow> no_fault rs \<Longrightarrow> loop (rs, frames recs) = recs"
  using loop_stopped_tail [of recs rs "[]"] one_empty by simp

lemma loop_torn:
  assumes "\<forall>r \<in> set recs. ok r" "no_fault rs" "ok r" "strict_prefix tail (frame r)"
  shows "loop (rs, frames recs @ tail) = recs"
  using assms by (intro loop_stopped_tail one_short)

text \<open>Every prefix of a well-formed log reads back as the records that fit in it.\<close>

lemma loop_take:
  assumes "\<forall>r \<in> set recs. ok r" "no_fault rs"
  shows "\<exists>m \<le> length recs. loop (rs, take n (frames recs)) = take m recs
    \<and> (n \<le> length (frames recs) \<longrightarrow> length (frames (take m recs)) \<le> n)
    \<and> (m < length recs \<longrightarrow> n < length (frames (take (Suc m) recs)))"
  using assms
proof (induction recs arbitrary: n rs)
  case Nil
  then show ?case by (auto intro: loop_stop one_empty)
next
  case (Cons r recs)
  show ?case
  proof (cases "length (frame r) \<le> n")
    case True
    from Cons.prems obtain rs1 where rs1: "no_fault rs1" and
      "one (rs, frame r @ take (n - length (frame r)) (frames recs)) =
         Some (r, (rs1, take (n - length (frame r)) (frames recs)))"
      using one_frame [of r rs] by auto
    with True have "loop (rs, take n (frames (r # recs))) =
        r # loop (rs1, take (n - length (frame r)) (frames recs))"
      by (subst loop_unfold) simp
    moreover obtain m where "m \<le> length recs"
      "loop (rs1, take (n - length (frame r)) (frames recs)) = take m recs"
      "n - length (frame r) \<le> length (frames recs) \<longrightarrow> length (frames (take m recs)) \<le> n - length (frame r)"
      "m < length recs \<longrightarrow> n - length (frame r) < length (frames (take (Suc m) recs))"
      using Cons.IH [OF _ rs1, of "n - length (frame r)"] Cons.prems by auto
    ultimately show ?thesis using True by (intro exI [of _ "Suc m"]) auto
  next
    case False
    then have "strict_prefix (take n (frame r)) (frame r)"
      by (metis take_is_prefix length_take min.cobounded2 not_le order.refl prefix_order.le_less min.absorb1 nat_le_linear)
    then have "loop (rs, take n (frame r)) = []"
      using Cons.prems one_short by (auto intro: loop_stop)
    with False show ?thesis by (intro exI [of _ 0]) auto
  qed
qed

lemma length_frames_take_mono: "m \<le> n \<Longrightarrow> length (frames (take m recs)) \<le> length (frames (take n recs))"
  by (metis append_take_drop_id frames_simps(3) le_add1 length_append min.absorb1 take_take)

text \<open>How many records fit does not depend on how the kernel splits the reads.\<close>

lemma loop_take_uniform:
  assumes "\<forall>r \<in> set recs. ok r"
  shows "\<exists>m \<le> length recs. (\<forall>rs. no_fault rs \<longrightarrow> loop (rs, take n (frames recs)) = take m recs)
    \<and> (m < length recs \<longrightarrow> n < length (frames (take (Suc m) recs)))"
proof -
  let ?n = "min n (length (frames recs))"
  have n: "take ?n (frames recs) = take n (frames recs)" by (simp add: min_def)
  have "\<exists>m \<le> length recs. loop (rs, take n (frames recs)) = take m recs \<and> length (frames (take m recs)) \<le> ?n
      \<and> (m < length recs \<longrightarrow> ?n < length (frames (take (Suc m) recs)))" if "no_fault rs" for rs
    using loop_take [OF assms that, of ?n] unfolding n by auto
  then obtain f where f: "f rs \<le> length recs" "loop (rs, take n (frames recs)) = take (f rs) recs" "length (frames (take (f rs) recs)) \<le> ?n"
      "f rs < length recs \<Longrightarrow> ?n < length (frames (take (Suc (f rs)) recs))" if "no_fault rs" for rs by metis
  have le: "f rs \<le> f rs'" if "no_fault rs" "no_fault rs'" for rs rs'
  proof (rule ccontr)
    assume "\<not> f rs \<le> f rs'"
    then have "Suc (f rs') \<le> f rs" "f rs' < length recs" using f(1) [OF that(1)] by auto
    with f(3) [OF that(1)] f(4) [OF that(2)] length_frames_take_mono [of "Suc (f rs')" "f rs" recs] show False by linarith
  qed
  have nil: "no_fault []" by simp
  have "n < length (frames (take (Suc (f [])) recs))" if "f [] < length recs"
    using f(4) [OF nil that] length_frames_take_mono [of "Suc (f [])" "length recs" recs] that by auto
  moreover have "loop (rs, take n (frames recs)) = take (f []) recs" if "no_fault rs" for rs
    using f(2) [OF that] le [OF that nil] le [OF nil that] by simp
  ultimately show ?thesis using f(1) [OF nil] by blast
qed

lemma loop_take_old:
  assumes "\<forall>r \<in> set (old @ new). ok r" "length (frames old) \<le> n"
  shows "\<exists>m \<le> length new. \<forall>rs. no_fault rs \<longrightarrow> loop (rs, take n (frames (old @ new))) = old @ take m new"
proof -
  from loop_take_uniform [OF assms(1), of n] obtain m where m: "m \<le> length (old @ new)"
    "\<forall>rs. no_fault rs \<longrightarrow> loop (rs, take n (frames (old @ new))) = take m (old @ new)"
    "m < length (old @ new) \<longrightarrow> n < length (frames (take (Suc m) (old @ new)))" by blast
  have "length old \<le> m"
  proof (rule ccontr)
    assume less: "\<not> length old \<le> m"
    then have "length (frames (take (Suc m) old)) \<le> length (frames old)"
      using length_frames_take_mono [of "Suc m" "length old" old] by simp
    with less m(3) assms(2) show False by simp
  qed
  with m show ?thesis by (intro exI [of _ "m - length old"]) auto
qed

text \<open>
  On any file, the accepted records are well-formed and their frames are a prefix of it. The
  kernel's replies do not matter.
\<close>

lemma loop_sound:
  "(\<forall>r \<in> set (loop (rs, u)). ok r) \<and> (\<exists>tail. u = frames (loop (rs, u)) @ tail)"
proof (induction "length u" arbitrary: rs u rule: less_induct)
  case less
  show ?case
  proof (cases "one (rs, u)")
    case None
    then show ?thesis by (simp add: loop_stop)
  next
    case (Some x)
    then obtain r rs' u' where x: "one (rs, u) = Some (r, (rs', u'))" by (metis prod.exhaust)
    then have u: "u = frame r @ u'" "ok r" using one_sound by blast+
    then have "length u' < length u" using frame_nonempty [of r] by simp
    from less [OF this, of rs'] x u show ?thesis by (subst (1 2) loop_unfold) auto
  qed
qed

lemma loop_prefix: "take (length (frames (loop (rs, u)))) u = frames (loop (rs, u))"
  using loop_sound [of rs u] by (metis append_eq_conv_conj)

text \<open>
  Cutting the file after the accepted records, as recovery does, changes nothing: a later read
  returns the same records, and records appended then are read too.
\<close>

lemma loop_truncate_append:
  assumes "no_fault rs'" "\<forall>r \<in> set new. ok r"
  shows "loop (rs', take (length (frames (loop (rs, u)))) u @ frames new) = loop (rs, u) @ new"
proof -
  have "\<forall>r \<in> set (loop (rs, u) @ new). ok r" using assms(2) loop_sound [of rs u] by auto
  from loop_roundtrip [OF this assms(1)] show ?thesis by (simp add: loop_prefix)
qed

end

end
