(* ===== verification/Wal.thy ===== *)
theory Wal
  imports Crc32 Framed_Log
begin

text \<open>
  \<open>include/keystone/wal.h\<close>, \<open>src/wal.cpp\<close>: the write-ahead log. A record is framed as
  \<open>[crc32][type][seq][keylen][vallen][key][value]\<close>; \<open>replay\<close> reads records until the first
  short or corrupt one.
\<close>

section \<open>Data\<close>

text \<open>
  \<open>enum class RecType : uint8_t\<close>. Its underlying type is fixed, so a cast from any byte is a
  value of the type; a byte that is neither 1 nor 2 stays itself.
\<close>

datatype RecType = Put | Delete | RecByte byte

definition rectype_byte :: "RecType \<Rightarrow> byte" where
  "rectype_byte t = (case t of Put \<Rightarrow> 1 | Delete \<Rightarrow> 2 | RecByte b \<Rightarrow> b)"

definition rectype_of :: "byte \<Rightarrow> RecType" where
  "rectype_of b = (if b = 1 then Put else if b = 2 then Delete else RecByte b)"

datatype SyncMode = EveryWrite | Batched

record wal_rec =
  rtype :: RecType
  rseq :: u64
  rkey :: key
  rval :: bytes

text \<open>The object: the log file behind \<open>fd_\<close>, \<open>mode_\<close> and \<open>fsync_count_\<close>.\<close>

record wal =
  wlog :: afile
  wmode :: SyncMode
  fsync_count :: u64

definition wal_open :: "afile \<Rightarrow> SyncMode \<Rightarrow> wal" where
  "wal_open f mode = \<lparr>wlog = f, wmode = mode, fsync_count = 0\<rparr>"

section \<open>Writing\<close>

definition wal_body :: "wal_rec \<Rightarrow> bytes" where
  "wal_body r = [rectype_byte (rtype r)] @ put_u64_le (rseq r)
     @ put_u32_le (to_u32 (length (rkey r))) @ put_u32_le (to_u32 (length (rval r)))
     @ rkey r @ rval r"

definition wal_frame :: "wal_rec \<Rightarrow> bytes" where
  "wal_frame r = put_u32_le (crc32 (wal_body r)) @ wal_body r"

text \<open>
  \<open>WAL::append\<close> and \<open>WAL::append_batch\<close>. \<open>rs\<close> are the kernel's replies to the writes and
  \<open>ok\<close> whether the sync succeeds. When the write throws, nothing after it runs.
\<close>

definition wal_write :: "sys_ret list \<Rightarrow> bool \<Rightarrow> bytes \<Rightarrow> wal \<Rightarrow> wal \<times> io_error option" where
  "wal_write rs ok buf w =
     (case file_write rs buf (wlog w) of
        (f, Some e) \<Rightarrow> (w\<lparr>wlog := f\<rparr>, Some e)
      | (f, None) \<Rightarrow>
          (if wmode w = EveryWrite
           then w\<lparr>wlog := durable_sync ok f, fsync_count := fsync_count w + 1\<rparr>
           else w\<lparr>wlog := f\<rparr>, None))"

definition wal_append :: "sys_ret list \<Rightarrow> bool \<Rightarrow> wal_rec \<Rightarrow> wal \<Rightarrow> wal \<times> io_error option" where
  "wal_append rs ok r w = wal_write rs ok (wal_frame r) w"

definition append_batch :: "sys_ret list \<Rightarrow> bool \<Rightarrow> wal_rec list \<Rightarrow> wal \<Rightarrow> wal \<times> io_error option" where
  "append_batch rs ok recs w =
     (if recs = [] then (w, None) else wal_write rs ok (concat (map wal_frame recs)) w)"

definition wal_sync :: "bool \<Rightarrow> wal \<Rightarrow> wal" where
  "wal_sync ok w = w\<lparr>wlog := durable_sync ok (wlog w)\<rparr>"

section \<open>Replay\<close>

definition max_len :: nat where "max_len = 64 * 1024 * 1024"

text \<open>
  One iteration of the loop of \<open>WAL::replay\<close>: the record it appends and the descriptor after
  it, or \<open>None\<close> for \<open>break\<close>.
\<close>

definition read_some :: "nat \<Rightarrow> rfd \<Rightarrow> (bytes \<times> rfd) option" where
  "read_some n fd = (if n > 0 then (case read_fully n fd of (None, _) \<Rightarrow> None | (Some b, fd') \<Rightarrow> Some (b, fd'))
     else Some ([], fd))"

definition replay_one :: "rfd \<Rightarrow> (wal_rec \<times> rfd) option" where
  "replay_one fd =
     (case read_fully 4 fd of (None, _) \<Rightarrow> None | (Some crc_buf, fd1) \<Rightarrow>
      let stored_crc = get_u32_le crc_buf in
      case read_fully 17 fd1 of (None, _) \<Rightarrow> None | (Some header, fd2) \<Rightarrow>
      let seq = get_u64_le (drop 1 header);
          keylen = unat (get_u32_le (drop 9 header));
          vallen = unat (get_u32_le (drop 13 header)) in
      if keylen > max_len \<or> vallen > max_len then None
      else case read_some keylen fd2 of None \<Rightarrow> None | Some (k, fd3) \<Rightarrow>
      case read_some vallen fd3 of None \<Rightarrow> None | Some (v, fd4) \<Rightarrow>
      if crc32 (header @ k @ v) \<noteq> stored_crc then None
      else Some (\<lparr>rtype = rectype_of (header ! 0), rseq = seq, rkey = k, rval = v\<rparr>, fd4))"

lemma read_some_Some: "read_some n (rs, u) = Some (b, (rs', u')) \<Longrightarrow> u = b @ u' \<and> length b = n"
  by (auto simp: read_some_def dest: read_fully_Some split: if_splits prod.splits option.splits)

lemma read_some_app:
  assumes "no_fault rs" "length b = n"
  obtains rs' where "no_fault rs'" "read_some n (rs, b @ u) = Some (b, (rs', u))"
proof (cases "n = 0")
  case True
  then show ?thesis using that [of rs] assms by (simp add: read_some_def)
next
  case False
  from read_fully_app [OF assms] obtain rs' where "no_fault rs'"
    "read_fully n (rs, b @ u) = (Some b, (rs', u))" .
  with False that show ?thesis by (simp add: read_some_def)
qed

lemma read_some_short: "length u < n \<Longrightarrow> read_some n (rs, u) = None"
  using read_fully_short [of u n rs] by (auto simp: read_some_def)

text \<open>A record the reader accepts: within the length limit, its type in canonical form.\<close>

definition rec_ok :: "wal_rec \<Rightarrow> bool" where
  "rec_ok r \<longleftrightarrow> length (rkey r) \<le> max_len \<and> length (rval r) \<le> max_len \<and>
     rectype_of (rectype_byte (rtype r)) = rtype r"

lemma rectype_of_byte [simp]: "rectype_byte (rectype_of b) = b"
  by (simp add: rectype_byte_def rectype_of_def)

lemma header_split:
  "length h = 17 \<Longrightarrow> h = h ! 0 # take 8 (drop 1 h) @ take 4 (drop 9 h) @ take 4 (drop 13 h)"
  by (rule nth_equalityI) (auto simp: nth_append nth_Cons' min_def)

text \<open>What one iteration accepts is the frame of the record it returns, whatever the file holds.\<close>

lemma replay_one_sound:
  assumes "replay_one (rs, u) = Some (r, (rs', u'))"
  shows "u = wal_frame r @ u' \<and> rec_ok r"
proof -
  from assms obtain c h k v rs1 u1 rs2 u2 rs3 u3 where
    c: "read_fully 4 (rs, u) = (Some c, (rs1, u1))" and
    h: "read_fully 17 (rs1, u1) = (Some h, (rs2, u2))" and
    le: "unat (get_u32_le (drop 9 h)) \<le> max_len" "unat (get_u32_le (drop 13 h)) \<le> max_len" and
    k: "read_some (unat (get_u32_le (drop 9 h))) (rs2, u2) = Some (k, (rs3, u3))" and
    v: "read_some (unat (get_u32_le (drop 13 h))) (rs3, u3) = Some (v, (rs', u'))" and
    crc: "crc32 (h @ k @ v) = get_u32_le c" and
    r: "r = \<lparr>rtype = rectype_of (h ! 0), rseq = get_u64_le (drop 1 h), rkey = k, rval = v\<rparr>"
    by (auto simp: replay_one_def Let_def not_less split: prod.splits option.splits if_splits)
  note lens = read_fully_Some [OF c] read_fully_Some [OF h] read_some_Some [OF k] read_some_Some [OF v]
  then have "17 = length h" "length k = unat (get_u32_le (drop 9 h))"
    "length v = unat (get_u32_le (drop 13 h))" by simp_all
  then have "wal_body r = h @ k @ v"
    using header_split [of h] by (simp add: wal_body_def r put_get_u32_take put_get_u64_take)
  with lens crc le show ?thesis
    by (simp add: wal_frame_def r rec_ok_def put_get_u32_le)
qed

lemma wal_body_length: "length (wal_body r) = 17 + length (rkey r) + length (rval r)"
  by (simp add: wal_body_def)

lemma wal_frame_length [codec_len]: "length (wal_frame r) = 21 + length (rkey r) + length (rval r)"
  by (simp add: wal_frame_def wal_body_length)

lemma rec_ok_u32: "rec_ok r \<Longrightarrow> length (rkey r) < 2 ^ 32" "rec_ok r \<Longrightarrow> length (rval r) < 2 ^ 32"
  by (simp_all add: rec_ok_def max_len_def)

text \<open>The fixed part of a body, and what the reader finds in it.\<close>

definition wal_header :: "wal_rec \<Rightarrow> bytes" where
  "wal_header r = [rectype_byte (rtype r)] @ put_u64_le (rseq r)
     @ put_u32_le (to_u32 (length (rkey r))) @ put_u32_le (to_u32 (length (rval r)))"

lemma wal_body_header: "wal_body r = wal_header r @ rkey r @ rval r"
  by (simp add: wal_body_def wal_header_def)

lemma wal_header_simps [simp]:
  "length (wal_header r) = 17"
  "wal_header r ! 0 = rectype_byte (rtype r)"
  "get_u64_le (drop (Suc 0) (wal_header r)) = rseq r"
  "get_u32_le (drop 9 (wal_header r)) = to_u32 (length (rkey r))"
  "get_u32_le (drop 13 (wal_header r)) = to_u32 (length (rval r))"
  using get_put_u32_le [of "to_u32 (length (rval r))" "[]"]
  by (simp_all add: wal_header_def drop_Cons')

text \<open>
  One iteration on a frame whose checksum field holds \<open>c\<close>: it accepts the record exactly when
  \<open>c\<close> is the checksum of the body.
\<close>

lemma replay_one_body:
  assumes "rec_ok r" "no_fault rs"
  shows "\<exists>rs'. no_fault rs' \<and> replay_one (rs, put_u32_le c @ wal_body r @ u) =
    (if crc32 (wal_body r) = c then Some (r, (rs', u)) else None)"
proof -
  have len: "length (rkey r) < 2 ^ 32" "length (rval r) < 2 ^ 32"
    using assms(1) by (rule rec_ok_u32)+
  obtain rs1 where 1: "no_fault rs1"
    "read_fully 4 (rs, put_u32_le c @ wal_body r @ u) = (Some (put_u32_le c), (rs1, wal_body r @ u))"
    using read_fully_app [OF assms(2), of "put_u32_le c" 4] by auto
  obtain rs2 where 2: "no_fault rs2"
    "read_fully 17 (rs1, wal_body r @ u) = (Some (wal_header r), (rs2, rkey r @ rval r @ u))"
    using read_fully_app [OF 1(1), of "wal_header r" 17] by (auto simp: wal_body_header)
  obtain rs3 where 3: "no_fault rs3"
    "read_some (length (rkey r)) (rs2, rkey r @ rval r @ u) = Some (rkey r, (rs3, rval r @ u))"
    using read_some_app [OF 2(1), of "rkey r"] by auto
  obtain rs4 where 4: "no_fault rs4"
    "read_some (length (rval r)) (rs3, rval r @ u) = Some (rval r, (rs4, u))"
    using read_some_app [OF 3(1), of "rval r"] by auto
  have "get_u32_le (put_u32_le c) = c" using get_put_u32_le [of c "[]"] by simp
  with 1 2 3 4 len assms(1) show ?thesis
    by (intro exI [of _ rs4]) (simp add: replay_one_def rec_ok_def wal_body_header)
qed

lemma replay_one_frame:
  "rec_ok r \<Longrightarrow> no_fault rs \<Longrightarrow>
     \<exists>rs'. no_fault rs' \<and> replay_one (rs, wal_frame r @ u) = Some (r, (rs', u))"
  using replay_one_body [of r rs "crc32 (wal_body r)" u] by (simp add: wal_frame_def)

text \<open>The loop, and \<open>WAL::replay\<close> of a path: \<open>None\<close> when the file cannot be opened.\<close>

function replay_loop :: "rfd \<Rightarrow> wal_rec list" where
  "replay_loop fd = (case replay_one fd of None \<Rightarrow> [] | Some (r, fd') \<Rightarrow> r # replay_loop fd')"
  by pat_completeness auto
termination
proof (relation "measure (\<lambda>fd. length (snd fd))")
  fix fd x r fd'
  assume "replay_one fd = Some x" "(r, fd') = x"
  then show "(fd', fd) \<in> measure (\<lambda>fd. length (snd fd))"
    using replay_one_sound [of "fst fd" "snd fd" r "fst fd'" "snd fd'"] wal_frame_length [of r] by auto
qed simp

declare replay_loop.simps [simp del]

definition replay :: "sys_ret list \<Rightarrow> bytes option \<Rightarrow> wal_rec list" where
  "replay rs path = (case path of None \<Rightarrow> [] | Some bs \<Rightarrow> replay_loop (rs, bs))"

interpretation walog: framed_log wal_frame rec_ok replay_one replay_loop
proof
  show "wal_frame r \<noteq> []" for r using wal_frame_length [of r] by auto
  show "replay_loop fd = (case replay_one fd of None \<Rightarrow> [] | Some (r, fd') \<Rightarrow> r # replay_loop fd')" for fd
    by (rule replay_loop.simps)
qed (use replay_one_sound replay_one_frame in blast)+

section \<open>What the log guarantees\<close>

text \<open>What a batch leaves in the file, however it ends, and what is durable of it.\<close>

lemma append_batch_file:
  assumes "append_batch rs ok recs w = (w', e)"
  obtains n where "contents (wlog w') = contents (wlog w) @ take n (concat (map wal_frame recs))"
    "durable (wlog w) \<le> durable (wlog w') \<or> durable (wlog w') = length (contents (wlog w'))"
    "e = None \<longrightarrow> contents (wlog w') = contents (wlog w) @ concat (map wal_frame recs)"
    "e = None \<and> ok \<and> wmode w = EveryWrite \<and> recs \<noteq> [] \<longrightarrow>
       durable (wlog w') = length (contents (wlog w'))"
proof (cases "recs = []")
  case True
  with assms have "w' = w" by (simp add: append_batch_def)
  with True show thesis by (intro that [of 0]) simp_all
next
  case False
  obtain f where f: "file_write rs (concat (map wal_frame recs)) (wlog w) = (f, e)"
    by (cases "file_write rs (concat (map wal_frame recs)) (wlog w)"; cases e)
      (use assms False in \<open>auto simp: append_batch_def wal_write_def split: option.splits\<close>)
  with assms False have w': "wlog w' = (if e = None \<and> wmode w = EveryWrite then durable_sync ok f else f)"
    by (cases e) (auto simp: append_batch_def wal_write_def)
  from file_write_contents [OF f] obtain n where
    "contents f = contents (wlog w) @ take n (concat (map wal_frame recs))"
    "durable f = durable (wlog w)"
    "e = None \<longrightarrow> contents f = contents (wlog w) @ concat (map wal_frame recs)" .
  then show thesis unfolding w' by (intro that [of n]) (simp_all add: w' durable_sync_def)
qed

lemma append_batch_ack:
  assumes "append_batch rs True recs w = (w', None)" "wmode w = EveryWrite" "recs \<noteq> []"
  shows "contents (wlog w') = contents (wlog w) @ concat (map wal_frame recs)"
    and "durable (wlog w') = length (contents (wlog w'))"
  by (rule append_batch_file [OF assms(1)], use assms(2,3) in simp)+

text \<open>
  Durability of acknowledged writes. When a batch was appended in \<open>EveryWrite\<close> mode without
  an exception and the sync took effect, every file a crash can leave replays to all earlier
  records followed by the whole batch, however the kernel splits the reads.
\<close>

lemma wal_acknowledged_survives:
  assumes "wmode w = EveryWrite" "recs \<noteq> []"
    and "contents (wlog w) = concat (map wal_frame old)"
    and "\<forall>r \<in> set (old @ recs). rec_ok r"
    and "append_batch rs True recs w = (w', None)"
    and "crash_image (wlog w') img" "no_fault rs'"
  shows "replay rs' (Some img) = old @ recs"
proof -
  note ack = append_batch_ack [OF assms(5,1,2)]
  with assms(3,6) have "img = walog.frames (old @ recs)"
    by (auto simp: crash_image_def walog.frames_def)
  with walog.loop_roundtrip [OF assms(4,7)] show ?thesis by (simp add: replay_def)
qed

definition ex_rec :: wal_rec where
  "ex_rec = \<lparr>rtype = Put, rseq = 1, rkey = [97], rval = [98]\<rparr>"

definition ex_wal :: wal where
  "ex_wal = wal_open \<lparr>contents = [], durable = 0\<rparr> EveryWrite"

lemma ex_rec_ok: "rec_ok ex_rec"
  by (simp add: ex_rec_def rec_ok_def max_len_def rectype_of_def rectype_byte_def)

text \<open>What replay makes of any file that a crash during a batch can leave.\<close>

lemma append_batch_crash:
  assumes "contents (wlog w) = concat (map wal_frame old)" "durable (wlog w) = length (contents (wlog w))"
    and "\<forall>r \<in> set (old @ recs). rec_ok r" "append_batch rs ok recs w = (w', e)" "crash_image (wlog w') img"
  shows "\<exists>m \<le> length recs. \<forall>rs'. no_fault rs' \<longrightarrow> replay rs' (Some img) = old @ take m recs"
proof -
  obtain n where "contents (wlog w') = contents (wlog w) @ take n (concat (map wal_frame recs))"
    and d: "durable (wlog w) \<le> durable (wlog w') \<or> durable (wlog w') = length (contents (wlog w'))"
    by (rule append_batch_file [OF assms(4)])
  then have c: "contents (wlog w') = walog.frames old @ take n (walog.frames recs)"
    using assms(1) by (simp add: walog.frames_def)
  from assms(5) obtain k where k: "durable (wlog w') \<le> k" "img = take k (contents (wlog w'))"
    by (auto simp: crash_image_def)
  with d c assms(1,2) have "length (walog.frames old) \<le> k"
    by (auto simp: walog.frames_def)
  moreover from c have "contents (wlog w') = take (length (walog.frames old) + n) (walog.frames (old @ recs))"
    by simp
  then have "img = take (min k (length (walog.frames old) + n)) (walog.frames (old @ recs))"
    by (simp only: k(2) take_take)
  ultimately show ?thesis
    using walog.loop_take_old [OF assms(3), of "min k (length (walog.frames old) + n)"]
    by (simp add: replay_def del: walog.frames_simps)
qed

text \<open>
  C22. Torn tails. However a batch ends (an exception after a partial write, a sync that failed,
  no sync at all) and whatever prefix beyond the durable part a crash leaves, replay returns all
  durable records followed by a prefix of the batch.
\<close>

theorem wal_crash_prefix:
  assumes "contents (wlog w) = concat (map wal_frame old)"
    and "durable (wlog w) = length (contents (wlog w))"
    and "\<forall>r \<in> set (old @ recs). rec_ok r"
    and "append_batch rs ok recs w = (w', e)"
    and "crash_image (wlog w') img" "no_fault rs'"
  shows "\<exists>m \<le> length recs. replay rs' (Some img) = old @ take m recs"
  using append_batch_crash [OF assms(1-5)] assms(6) by blast

theorem wal_crash_prefix_witness:
  "\<exists>m \<le> length [ex_rec]. replay [] (Some (take 3 (wal_frame ex_rec))) = [] @ take m [ex_rec]"
proof (rule wal_crash_prefix [where w = ex_wal and rs = "[Xfer 5, EFail]" and ok = True])
  show "append_batch [Xfer 5, EFail] True [ex_rec] ex_wal = (ex_wal\<lparr>wlog := \<lparr>contents = take 5 (wal_frame ex_rec),
      durable = 0\<rparr>\<rparr>, Some WriteFailed)"
    using wal_frame_length [of ex_rec]
    by (simp add: append_batch_def wal_write_def file_write_def write_fully_torn ex_wal_def wal_open_def)
  show "crash_image (wlog (ex_wal\<lparr>wlog := \<lparr>contents = take 5 (wal_frame ex_rec), durable = 0\<rparr>\<rparr>))
      (take 3 (wal_frame ex_rec))"
    by (auto simp: crash_image_def wal_frame_length intro!: exI [of _ 3])
qed (simp_all add: ex_wal_def wal_open_def ex_rec_ok)

text \<open>
  \<open>DB::open\<close> computes how much of the log the accepted records take (\<open>src/db.cpp\<close>) and cuts the
  file there.
\<close>

definition wal_valid_end :: "wal_rec list \<Rightarrow> nat" where
  "wal_valid_end records = foldl (\<lambda>valid_end rec. valid_end + (21 + length (rkey rec) + length (rval rec))) 0 records"

lemma wal_valid_end_frames: "wal_valid_end records = length (walog.frames records)"
proof -
  have "foldl (\<lambda>valid_end rec. valid_end + (21 + length (rkey rec) + length (rval rec))) a records =
      a + length (walog.frames records)" for a
    by (induction records arbitrary: a) (simp_all add: wal_frame_length)
  then show ?thesis by (simp add: wal_valid_end_def)
qed

text \<open>
  C23. Replay is sound on arbitrary bytes, and recovery's cut keeps the log usable: whatever the
  file holds, the accepted records' frames are its first \<open>valid_end\<close> bytes, and after cutting
  it there, records appended later replay behind them.
\<close>

theorem wal_replay_truncate_append:
  assumes "records = replay rs (Some f)" "no_fault rs'" "\<forall>r \<in> set new. rec_ok r"
  shows "wal_valid_end records \<le> length f \<and>
    take (wal_valid_end records) f = concat (map wal_frame records) \<and>
    replay rs' (Some (take (wal_valid_end records) f @ concat (map wal_frame new))) = records @ new"
proof -
  have r: "records = replay_loop (rs, f)" using assms(1) by (simp add: replay_def)
  from walog.loop_sound [of rs f] obtain tail where "f = walog.frames records @ tail" unfolding r by blast
  then have "length (walog.frames records) \<le> length f" by (metis le_add1 length_append)
  with walog.loop_prefix [of rs f] walog.loop_truncate_append [OF assms(2,3), of rs f] show ?thesis
    unfolding r wal_valid_end_frames by (simp add: replay_def walog.frames_def)
qed

lemma ex_torn: "replay [] (Some (wal_frame ex_rec @ [0, 7])) = [ex_rec]"
proof -
  have "replay_one (rs, [0, 7]) = None" for rs
    using read_fully_short [of "[0, 7]" 4 rs] by (auto simp: replay_one_def)
  then show ?thesis using walog.loop_stopped_tail [of "[ex_rec]" "[]" "[0, 7]"] ex_rec_ok
    by (simp add: replay_def)
qed

theorem wal_replay_truncate_append_witness:
  "replay [] (Some (take (wal_valid_end [ex_rec]) (wal_frame ex_rec @ [0, 7]) @ concat (map wal_frame [ex_rec])))
     = [ex_rec] @ [ex_rec]"
  by (rule wal_replay_truncate_append [OF ex_torn [symmetric], THEN conjunct2, THEN conjunct2])
    (simp_all add: ex_rec_ok)



text \<open>
  C29. The reader's length limit is not enforced by the writer: a record whose key or value is
  longer than 64 MiB is appended and acknowledged, and replay then drops it together with every
  record behind it.
\<close>

theorem wal_oversize_lost:
  assumes "\<forall>r \<in> set pre. rec_ok r" "no_fault rs"
    and "max_len < length (rkey big) \<or> max_len < length (rval big)"
    and "length (rkey big) < 2 ^ 32" "length (rval big) < 2 ^ 32"
  shows "replay rs (Some (concat (map wal_frame (pre @ big # post)))) = pre"
proof -
  define u where "u = concat (map wal_frame post)"
  have "replay_loop (rs', wal_frame big @ u) = []" if nf: "no_fault rs'" for rs'
  proof -
    obtain rs1 where 1: "no_fault rs1" "read_fully 4 (rs', wal_frame big @ u) =
        (Some (put_u32_le (crc32 (wal_body big))), (rs1, wal_body big @ u))"
      using read_fully_app [OF nf, of "put_u32_le (crc32 (wal_body big))" 4] by (auto simp: wal_frame_def)
    obtain rs2 where "read_fully 17 (rs1, wal_body big @ u) =
        (Some (wal_header big), (rs2, rkey big @ rval big @ u))"
      using read_fully_app [OF 1(1), of "wal_header big" 17] by (auto simp: wal_body_header)
    with 1 assms(3-5) show ?thesis by (intro walog.loop_stop) (auto simp: replay_one_def Let_def)
  qed
  with walog.loop_frames [OF assms(1,2), of "wal_frame big @ u"] show ?thesis
    by (auto simp: replay_def walog.frames_def u_def)
qed

theorem wal_oversize_lost_witness:
  "replay [] (Some (concat (map wal_frame ([ex_rec] @ ex_rec\<lparr>rval := replicate (max_len + 1) 0\<rparr> # [ex_rec])))) = [ex_rec]"
  by (rule wal_oversize_lost) (simp_all add: ex_rec_ok, simp_all add: ex_rec_def max_len_def)


end
