(* ===== verification/Manifest.thy ===== *)
theory Manifest
  imports Crc32 Framed_Log
begin

text \<open>
  \<open>include/keystone/manifest.h\<close>, \<open>src/manifest.cpp\<close>: the append-only log of full snapshots of
  the live file set, \<open>[crc32][count][number, level, sklen, smallest, lklen, largest]*\<close>, and
  \<open>load_latest\<close>, which returns the last snapshot before the first record it cannot read.
\<close>

section \<open>Data\<close>

text \<open>\<open>struct ManifestEntry\<close>; \<open>int\<close> is 32 bits wide and converted to and from \<open>uint32_t\<close>.\<close>

record manifest_entry =
  mnumber :: int
  mlevel :: int
  smallest_key :: key
  largest_key :: key

text \<open>The object: the file behind \<open>fd_\<close>.\<close>

record manifest =
  mlog :: afile

section \<open>Writing a snapshot\<close>

text \<open>
  One entry as the loop of \<open>append_snapshot\<close> stores it: the \<open>memcpy\<close> copies the truncated
  length.
\<close>

definition entry_bytes :: "manifest_entry \<Rightarrow> bytes" where
  "entry_bytes f =
     (let sk_len = to_u32 (length (smallest_key f)); lk_len = to_u32 (length (largest_key f)) in
      put_u32_le (word_of_int (mnumber f)) @ put_u32_le (word_of_int (mlevel f))
      @ put_u32_le sk_len @ take (unat sk_len) (smallest_key f)
      @ put_u32_le lk_len @ take (unat lk_len) (largest_key f))"

text \<open>The body is a zero-initialised buffer of \<open>body_len\<close> bytes, filled from its start.\<close>

definition snapshot_body :: "manifest_entry list \<Rightarrow> bytes" where
  "snapshot_body files =
     (let body_len = 4 + sum_list (map (\<lambda>f. 4 + 4 + 4 + length (smallest_key f) + 4 + length (largest_key f)) files);
          stored = put_u32_le (to_u32 (length files)) @ concat (map entry_bytes files) in
      stored @ replicate (body_len - length stored) 0)"

definition snapshot_frame :: "manifest_entry list \<Rightarrow> bytes" where
  "snapshot_frame files = put_u32_le (crc32 (snapshot_body files)) @ snapshot_body files"

definition append_snapshot ::
    "sys_ret list \<Rightarrow> bool \<Rightarrow> manifest_entry list \<Rightarrow> manifest \<Rightarrow> manifest \<times> io_error option" where
  "append_snapshot rs ok files m =
     (case file_write rs (snapshot_frame files) (mlog m) of
        (f, Some e) \<Rightarrow> (m\<lparr>mlog := f\<rparr>, Some e)
      | (f, None) \<Rightarrow> (m\<lparr>mlog := durable_sync ok f\<rparr>, None))"

section \<open>Loading\<close>

text \<open>
  The locals of one iteration of \<open>load_latest\<close> that its two lambdas share: the first
  \<open>rest_read\<close> bytes of \<open>rest\<close>, the size of that vector, and the descriptor.
\<close>

record load_state =
  rest :: bytes
  rest_size :: nat
  lfd :: rfd

definition load_u32 :: "load_state \<Rightarrow> (u32 \<times> load_state) option" where
  "load_u32 st =
     (if length (rest st) + 4 > rest_size st then None
      else case read_fully 4 (lfd st) of (None, _) \<Rightarrow> None
        | (Some tmp, fd) \<Rightarrow> Some (get_u32_le tmp, st\<lparr>rest := rest st @ tmp, lfd := fd\<rparr>))"

definition load_bytes :: "nat \<Rightarrow> load_state \<Rightarrow> (bytes \<times> load_state) option" where
  "load_bytes n st =
     (if n = 0 then Some ([], st)
      else let st = (if length (rest st) + n > rest_size st then st\<lparr>rest_size := length (rest st) + n\<rparr> else st) in
        case read_fully n (lfd st) of (None, _) \<Rightarrow> None
        | (Some b, fd) \<Rightarrow> Some (b, st\<lparr>rest := rest st @ b, lfd := fd\<rparr>))"

text \<open>The body of the \<open>for\<close> loop and the loop; \<open>None\<close> is \<open>ok = false\<close>.\<close>

definition load_entry :: "load_state \<Rightarrow> (manifest_entry \<times> load_state) option" where
  "load_entry st0 =
     (case load_u32 st0 of None \<Rightarrow> None | Some (num, st1) \<Rightarrow>
      case load_u32 st1 of None \<Rightarrow> None | Some (level, st2) \<Rightarrow>
      case load_u32 st2 of None \<Rightarrow> None | Some (sk_len, st3) \<Rightarrow>
      case load_bytes (unat sk_len) st3 of None \<Rightarrow> None | Some (sk, st4) \<Rightarrow>
      case load_u32 st4 of None \<Rightarrow> None | Some (lk_len, st5) \<Rightarrow>
      case load_bytes (unat lk_len) st5 of None \<Rightarrow> None | Some (lk, st6) \<Rightarrow>
      Some (\<lparr>mnumber = sint num, mlevel = sint level, smallest_key = sk, largest_key = lk\<rparr>, st6))"

fun load_entries :: "nat \<Rightarrow> load_state \<Rightarrow> (manifest_entry list \<times> load_state) option" where
  "load_entries 0 st = Some ([], st)"
| "load_entries (Suc n) st =
     (case load_entry st of None \<Rightarrow> None | Some (e, st') \<Rightarrow>
      case load_entries n st' of None \<Rightarrow> None | Some (es, st'') \<Rightarrow> Some (e # es, st''))"

definition load_one :: "rfd \<Rightarrow> (manifest_entry list \<times> rfd) option" where
  "load_one fd =
     (case read_fully 4 fd of (None, _) \<Rightarrow> None | (Some crc_buf, fd1) \<Rightarrow>
      let stored_crc = get_u32_le crc_buf in
      case read_fully 4 fd1 of (None, _) \<Rightarrow> None | (Some count_buf, fd2) \<Rightarrow>
      let cnt = unat (get_u32_le count_buf) in
      if cnt > 64 * 1024 then None
      else case load_entries cnt \<lparr>rest = [], rest_size = cnt * 16 + 256 * 1024, lfd = fd2\<rparr> of
          None \<Rightarrow> None
        | Some (snapshot, st) \<Rightarrow>
            if crc32 (count_buf @ rest st) \<noteq> stored_crc then None else Some (snapshot, lfd st))"

section \<open>What one iteration reads\<close>

text \<open>An entry whose integers and lengths fit their fields.\<close>

definition entry_ok :: "manifest_entry \<Rightarrow> bool" where
  "entry_ok e \<longleftrightarrow> - (2 ^ 31) \<le> mnumber e \<and> mnumber e < 2 ^ 31 \<and>
     - (2 ^ 31) \<le> mlevel e \<and> mlevel e < 2 ^ 31 \<and>
     length (smallest_key e) < 2 ^ 32 \<and> length (largest_key e) < 2 ^ 32"

lemma sint_u32: "- (2 ^ 31) \<le> i \<Longrightarrow> i < 2 ^ 31 \<Longrightarrow> sint (word_of_int i :: u32) = i"
  by (simp add: sint_sbintrunc' signed_take_bit_int_eq_self)

lemma u32_sint: "(word_of_int (sint w) :: u32) = w" "- (2 ^ 31) \<le> sint (w :: u32)" "sint (w :: u32) < 2 ^ 31"
  using sint_range_size [of w] by (simp_all add: word_size)

lemma entry_bytes_ok: "entry_ok e \<Longrightarrow> entry_bytes e =
    put_u32_le (word_of_int (mnumber e)) @ put_u32_le (word_of_int (mlevel e))
    @ put_u32_le (to_u32 (length (smallest_key e))) @ smallest_key e
    @ put_u32_le (to_u32 (length (largest_key e))) @ largest_key e"
  by (simp add: entry_bytes_def entry_ok_def Let_def)

lemma entry_bytes_length: "entry_ok e \<Longrightarrow>
    length (entry_bytes e) = 16 + length (smallest_key e) + length (largest_key e)"
  by (simp add: entry_bytes_ok)

lemma snapshot_body_ok:
  assumes "\<forall>e \<in> set files. entry_ok e"
  shows "snapshot_body files = put_u32_le (to_u32 (length files)) @ concat (map entry_bytes files)"
proof -
  have "length (concat (map entry_bytes files)) =
      sum_list (map (\<lambda>f. 4 + 4 + 4 + length (smallest_key f) + 4 + length (largest_key f)) files)"
    using assms by (induction files) (auto simp: entry_bytes_length)
  then show ?thesis by (simp add: snapshot_body_def Let_def)
qed

text \<open>\<open>ate st b st'\<close>: between the two states the iteration read exactly the bytes \<open>b\<close>.\<close>

definition ate :: "load_state \<Rightarrow> bytes \<Rightarrow> load_state \<Rightarrow> bool" where
  "ate st b st' \<longleftrightarrow> snd (lfd st) = b @ snd (lfd st') \<and> rest st' = rest st @ b"

lemma ate_trans: "ate st a st' \<Longrightarrow> ate st' b st'' \<Longrightarrow> ate st (a @ b) st''"
  by (simp add: ate_def)

lemma read_fully_Some': "read_fully n fd = (Some b, fd') \<Longrightarrow> snd fd = b @ snd fd' \<and> length b = n"
  using read_fully_Some [of n "fst fd" "snd fd" b "fst fd'" "snd fd'"] by simp

lemma load_u32_sound:
  "load_u32 st = Some (v, st') \<Longrightarrow>
     ate st (put_u32_le v) st' \<and> length (rest st) + 4 \<le> rest_size st \<and> rest_size st' = rest_size st"
  by (auto simp: load_u32_def ate_def put_get_u32_le dest!: read_fully_Some'
      split: if_splits prod.splits option.splits)

lemma load_bytes_sound:
  "load_bytes n st = Some (b, st') \<Longrightarrow> length (rest st) \<le> rest_size st \<Longrightarrow>
     ate st b st' \<and> length b = n \<and> rest_size st' = max (rest_size st) (length (rest st'))"
  by (auto simp: load_bytes_def ate_def Let_def dest!: read_fully_Some'
      split: if_splits prod.splits option.splits)

lemma load_entry_sound:
  assumes "load_entry st = Some (e, st')" "length (rest st) \<le> rest_size st"
  shows "ate st (entry_bytes e) st' \<and> entry_ok e \<and>
     length (rest st) + 16 + length (smallest_key e) \<le> rest_size st \<and>
     rest_size st' = max (rest_size st) (length (rest st'))"
proof -
  from assms(1) obtain num st1 level st2 skl st3 sk st4 lkl st5 lk where
    1: "load_u32 st = Some (num, st1)" "load_u32 st1 = Some (level, st2)" "load_u32 st2 = Some (skl, st3)" and
    2: "load_bytes (unat skl) st3 = Some (sk, st4)" and 3: "load_u32 st4 = Some (lkl, st5)" and
    4: "load_bytes (unat lkl) st5 = Some (lk, st')" and
    e: "e = \<lparr>mnumber = sint num, mlevel = sint level, smallest_key = sk, largest_key = lk\<rparr>"
    by (auto simp: load_entry_def split: option.splits prod.splits)
  note s1 = 1 [THEN load_u32_sound]
  then have r3: "length (rest st3) = length (rest st) + 12" "rest_size st3 = rest_size st"
    "length (rest st3) \<le> rest_size st3" by (auto simp: ate_def)
  note s2 = load_bytes_sound [OF 2 r3(3)] and s3 = load_u32_sound [OF 3]
  from s2 s3 r3 have r5: "length (rest st5) = length (rest st) + 16 + length sk" "rest_size st5 = rest_size st4"
    "length (rest st5) \<le> rest_size st5" by (auto simp: ate_def)
  note s4 = load_bytes_sound [OF 4 r5(3)]
  have bound: "length (rest st) + 16 + length sk \<le> rest_size st" "rest_size st5 = rest_size st"
    using r5 s2 r3 by (auto simp: ate_def max_def split: if_splits)
  have ok: "entry_ok e"
    using s2 s4 u32_sint unsigned_less [of skl] unsigned_less [of lkl] by (simp add: entry_ok_def e)
  have "ate st (put_u32_le num @ put_u32_le level @ put_u32_le skl @ sk @ put_u32_le lkl @ lk) st'"
    using s1 s2 s3 s4 by (auto simp: ate_def)
  moreover have "entry_bytes e = put_u32_le num @ put_u32_le level @ put_u32_le skl @ sk @ put_u32_le lkl @ lk"
    using ok s2 s4 by (simp add: entry_bytes_ok) (simp add: e u32_sint)
  ultimately show ?thesis using ok bound s4 by (simp add: e)
qed

lemma load_u32_complete:
  assumes "lfd st = (rs, put_u32_le v @ u)" "no_fault rs" "length (rest st) + 4 \<le> rest_size st"
  obtains rs' where "no_fault rs'" "load_u32 st = Some (v, st\<lparr>rest := rest st @ put_u32_le v, lfd := (rs', u)\<rparr>)"
proof -
  obtain rs' where "no_fault rs'" "read_fully 4 (rs, put_u32_le v @ u) = (Some (put_u32_le v), (rs', u))"
    by (rule read_fully_app [OF assms(2), of "put_u32_le v" 4]) simp_all
  with assms get_put_u32_le [of v "[]"] show thesis by (intro that [of rs']) (simp_all add: load_u32_def)
qed

lemma load_bytes_complete:
  assumes "lfd st = (rs, b @ u)" "no_fault rs" "length (rest st) \<le> rest_size st"
  obtains rs' where "no_fault rs'" "load_bytes (length b) st = Some (b, st\<lparr>rest := rest st @ b,
      rest_size := max (rest_size st) (length (rest st) + length b), lfd := (rs', u)\<rparr>)"
proof (cases "b = []")
  case True
  with assms that [of rs] show thesis by (simp add: load_bytes_def)
next
  case False
  obtain rs' where "no_fault rs'" "read_fully (length b) (rs, b @ u) = (Some b, (rs', u))"
    by (rule read_fully_app [OF assms(2) refl])
  with False assms show thesis by (intro that [of rs']) (simp_all add: load_bytes_def Let_def max_def)
qed

lemma load_entry_complete:
  assumes "entry_ok e" "lfd st = (rs, entry_bytes e @ u)" "no_fault rs"
    and "length (rest st) + 16 + length (smallest_key e) \<le> rest_size st"
  obtains rs' where "no_fault rs'" "load_entry st = Some (e, st\<lparr>rest := rest st @ entry_bytes e,
      rest_size := max (rest_size st) (length (rest st) + length (entry_bytes e)), lfd := (rs', u)\<rparr>)"
proof -
  let ?n = "put_u32_le (word_of_int (mnumber e))" and ?l = "put_u32_le (word_of_int (mlevel e))"
    and ?s = "put_u32_le (to_u32 (length (smallest_key e)))"
    and ?t = "put_u32_le (to_u32 (length (largest_key e)))"
  note eb = entry_bytes_ok [OF assms(1)]
  define st1 where "st1 rs' = st\<lparr>rest := rest st @ ?n, lfd := (rs', ?l @ ?s @ smallest_key e @ ?t @ largest_key e @ u)\<rparr>" for rs'
  define st2 where "st2 rs' = st\<lparr>rest := rest st @ ?n @ ?l, lfd := (rs', ?s @ smallest_key e @ ?t @ largest_key e @ u)\<rparr>" for rs'
  define st3 where "st3 rs' = st\<lparr>rest := rest st @ ?n @ ?l @ ?s, lfd := (rs', smallest_key e @ ?t @ largest_key e @ u)\<rparr>" for rs'
  define st4 where "st4 rs' = st\<lparr>rest := rest st @ ?n @ ?l @ ?s @ smallest_key e, lfd := (rs', ?t @ largest_key e @ u)\<rparr>" for rs'
  define st5 where "st5 rs' = st\<lparr>rest := rest st @ ?n @ ?l @ ?s @ smallest_key e @ ?t, lfd := (rs', largest_key e @ u)\<rparr>" for rs'
  obtain rs1 where 1: "no_fault rs1" "load_u32 st = Some (word_of_int (mnumber e), st1 rs1)"
    by (rule load_u32_complete [of st rs]) (use assms eb in \<open>auto simp: st1_def\<close>)
  obtain rs2 where 2: "no_fault rs2" "load_u32 (st1 rs1) = Some (word_of_int (mlevel e), st2 rs2)"
    by (rule load_u32_complete [of "st1 rs1" rs1]) (use assms 1 in \<open>auto simp: st1_def st2_def\<close>)
  obtain rs3 where 3: "no_fault rs3" "load_u32 (st2 rs2) = Some (to_u32 (length (smallest_key e)), st3 rs3)"
    by (rule load_u32_complete [of "st2 rs2" rs2]) (use assms 2 in \<open>auto simp: st2_def st3_def\<close>)
  obtain rs4 where 4: "no_fault rs4" "load_bytes (length (smallest_key e)) (st3 rs3) = Some (smallest_key e, st4 rs4)"
    by (rule load_bytes_complete [of "st3 rs3" rs3]) (use assms 3 in \<open>auto simp: st3_def st4_def max_def\<close>)
  obtain rs5 where 5: "no_fault rs5" "load_u32 (st4 rs4) = Some (to_u32 (length (largest_key e)), st5 rs5)"
    by (rule load_u32_complete [of "st4 rs4" rs4]) (use assms 4 in \<open>auto simp: st4_def st5_def\<close>)
  obtain rs6 where 6: "no_fault rs6" "load_bytes (length (largest_key e)) (st5 rs5) =
      Some (largest_key e, st\<lparr>rest := rest st @ entry_bytes e,
        rest_size := max (rest_size st) (length (rest st) + length (entry_bytes e)), lfd := (rs6, u)\<rparr>)"
    by (rule load_bytes_complete [of "st5 rs5" rs5]) (use assms 5 eb in \<open>auto simp: st5_def add.assoc\<close>)
  have "sint (word_of_int (mnumber e) :: u32) = mnumber e" "sint (word_of_int (mlevel e) :: u32) = mlevel e"
    "unat (to_u32 (length (smallest_key e))) = length (smallest_key e)"
    "unat (to_u32 (length (largest_key e))) = length (largest_key e)"
    using assms(1) by (simp_all add: entry_ok_def sint_u32)
  with 1 2 3 4 5 6 show thesis by (intro that [of rs6]) (simp_all add: load_entry_def)
qed

text \<open>
  The vector \<open>rest\<close> starts with \<open>16 * count + 256 KiB\<close> bytes. \<open>read_bytes\<close> grows it on
  demand, \<open>read_u32\<close> refuses to read past its end: every length field has to lie within the
  bytes allocated so far.
\<close>

fun rest_fits :: "nat \<Rightarrow> nat \<Rightarrow> manifest_entry list \<Rightarrow> bool" where
  "rest_fits pos sz [] = True"
| "rest_fits pos sz (e # es) =
     (pos + 16 + length (smallest_key e) \<le> sz \<and>
      rest_fits (pos + 16 + length (smallest_key e) + length (largest_key e))
        (max sz (pos + 16 + length (smallest_key e) + length (largest_key e))) es)"

definition snapshot_ok :: "manifest_entry list \<Rightarrow> bool" where
  "snapshot_ok es \<longleftrightarrow> length es \<le> 64 * 1024 \<and> (\<forall>e \<in> set es. entry_ok e) \<and>
     rest_fits 0 (length es * 16 + 256 * 1024) es"

lemma load_entries_sound:
  "load_entries n st = Some (es, st') \<Longrightarrow> length (rest st) \<le> rest_size st \<Longrightarrow>
     ate st (concat (map entry_bytes es)) st' \<and> length es = n \<and> (\<forall>e \<in> set es. entry_ok e) \<and>
     rest_fits (length (rest st)) (rest_size st) es"
proof (induction n arbitrary: st es)
  case 0
  then show ?case by (simp add: ate_def)
next
  case (Suc n)
  then obtain e st1 es1 where 1: "load_entry st = Some (e, st1)"
    and 2: "load_entries n st1 = Some (es1, st')" and es: "es = e # es1"
    by (auto split: option.splits prod.splits)
  note s1 = load_entry_sound [OF 1 Suc.prems(2)]
  then have len: "length (rest st1) = length (rest st) + 16 + length (smallest_key e) + length (largest_key e)"
    by (simp add: ate_def entry_bytes_length)
  from s1 have "length (rest st1) \<le> rest_size st1" by simp
  from Suc.IH [OF 2 this] s1 len show ?case by (auto simp: es intro: ate_trans)
qed

lemma load_entries_complete:
  assumes "\<forall>e \<in> set es. entry_ok e" "lfd st = (rs, concat (map entry_bytes es) @ u)" "no_fault rs"
    and "rest_fits (length (rest st)) (rest_size st) es"
  shows "\<exists>rs' st'. no_fault rs' \<and> load_entries (length es) st = Some (es, st') \<and> lfd st' = (rs', u)"
  using assms
proof (induction es arbitrary: st rs)
  case Nil
  then show ?case by simp
next
  case (Cons e es)
  then have "entry_ok e" "lfd st = (rs, entry_bytes e @ concat (map entry_bytes es) @ u)"
    "length (rest st) + 16 + length (smallest_key e) \<le> rest_size st" by simp_all
  from load_entry_complete [OF this(1,2) Cons.prems(3) this(3)] obtain rs1 where
    rs1: "no_fault rs1" "load_entry st = Some (e, st\<lparr>rest := rest st @ entry_bytes e,
      rest_size := max (rest_size st) (length (rest st) + length (entry_bytes e)),
      lfd := (rs1, concat (map entry_bytes es) @ u)\<rparr>)" (is "_ = Some (e, ?st1)") .
  have "\<exists>rs' st'. no_fault rs' \<and> load_entries (length es) ?st1 = Some (es, st') \<and> lfd st' = (rs', u)"
    using Cons.prems rs1(1) by (intro Cons.IH [where rs = rs1]) (auto simp: entry_bytes_length add.assoc)
  with rs1(2) show ?case by auto
qed

lemma to_u32_inj: "m < 2 ^ 32 \<Longrightarrow> n < 2 ^ 32 \<Longrightarrow> to_u32 m = to_u32 n \<Longrightarrow> m = n"
  by (metis unat_to_u32)

lemma entry_bytes_smallest:
  assumes "entry_ok e" "entry_ok f" "entry_bytes e @ x = entry_bytes f @ y"
  shows "length (smallest_key e) = length (smallest_key f)"
proof -
  have "get_u32_le (drop 8 (entry_bytes g @ z)) = to_u32 (length (smallest_key g))" if "entry_ok g" for g z
    using that by (simp add: entry_bytes_ok)
  with assms have "to_u32 (length (smallest_key e)) = to_u32 (length (smallest_key f))" by metis
  with assms(1,2) show ?thesis by (intro to_u32_inj) (simp_all add: entry_ok_def)
qed

lemma load_entries_unfit:
  assumes "\<forall>e \<in> set es. entry_ok e" "lfd st = (rs, concat (map entry_bytes es) @ u)" "no_fault rs"
    and "\<not> rest_fits (length (rest st)) (rest_size st) es" "length (rest st) \<le> rest_size st"
  shows "load_entries (length es) st = None"
  using assms
proof (induction es arbitrary: st rs)
  case Nil
  then show ?case by simp
next
  case (Cons e es)
  then have e: "entry_ok e" "lfd st = (rs, entry_bytes e @ concat (map entry_bytes es) @ u)" by simp_all
  show ?case
  proof (cases "length (rest st) + 16 + length (smallest_key e) \<le> rest_size st")
    case True
    from load_entry_complete [OF e Cons.prems(3) True] obtain rs1 where
      rs1: "no_fault rs1" "load_entry st = Some (e, st\<lparr>rest := rest st @ entry_bytes e,
        rest_size := max (rest_size st) (length (rest st) + length (entry_bytes e)),
        lfd := (rs1, concat (map entry_bytes es) @ u)\<rparr>)" (is "_ = Some (e, ?st1)") .
    have "load_entries (length es) ?st1 = None"
      using Cons.prems rs1(1) e(1) True by (intro Cons.IH [where rs = rs1]) (auto simp: entry_bytes_length add.assoc)
    with rs1(2) show ?thesis by simp
  next
    case False
    have "load_entry st = None"
    proof (rule ccontr)
      assume "load_entry st \<noteq> None"
      then obtain f st' where f: "load_entry st = Some (f, st')" by force
      from load_entry_sound [OF f Cons.prems(5)] have f: "entry_ok f"
        "entry_bytes f @ snd (lfd st') = entry_bytes e @ concat (map entry_bytes es) @ u"
        "length (rest st) + 16 + length (smallest_key f) \<le> rest_size st"
        using e(2) by (auto simp: ate_def)
      with entry_bytes_smallest [OF f(1) e(1) f(2)] False show False by simp
    qed
    then show ?thesis by simp
  qed
qed

lemma load_one_sound:
  assumes "load_one (rs, u) = Some (es, (rs', u'))"
  shows "u = snapshot_frame es @ u' \<and> snapshot_ok es"
proof -
  from assms obtain c n fd1 fd2 st where
    c: "read_fully 4 (rs, u) = (Some c, fd1)" and n: "read_fully 4 fd1 = (Some n, fd2)" and
    le: "unat (get_u32_le n) \<le> 64 * 1024" and
    es: "load_entries (unat (get_u32_le n))
      \<lparr>rest = [], rest_size = unat (get_u32_le n) * 16 + 256 * 1024, lfd = fd2\<rparr> = Some (es, st)" and
    crc: "crc32 (n @ rest st) = get_u32_le c" and st: "lfd st = (rs', u')"
    by (auto simp: load_one_def Let_def not_less split: prod.splits option.splits if_splits)
  note s = read_fully_Some' [OF c] read_fully_Some' [OF n] load_entries_sound [OF es]
  then have ok: "length es = unat (get_u32_le n)" "\<forall>e \<in> set es. entry_ok e"
    "rest_fits 0 (length es * 16 + 256 * 1024) es" by simp_all
  then have body: "snapshot_body es = n @ concat (map entry_bytes es)"
    using s(2) by (simp add: snapshot_body_ok put_get_u32_le)
  with s ok le crc st show ?thesis
    by (simp add: snapshot_ok_def snapshot_frame_def ate_def put_get_u32_le)
qed

text \<open>The two leading reads on a frame, for any readable number of entries.\<close>

lemma load_one_frame_reads:
  assumes "length es \<le> 64 * 1024" "\<forall>e \<in> set es. entry_ok e" "no_fault rs"
  obtains rs' where "no_fault rs'" "load_one (rs, snapshot_frame es @ u) =
    (case load_entries (length es) \<lparr>rest = [], rest_size = length es * 16 + 256 * 1024,
        lfd = (rs', concat (map entry_bytes es) @ u)\<rparr> of
       None \<Rightarrow> None
     | Some (snapshot, st) \<Rightarrow>
         if crc32 (put_u32_le (to_u32 (length es)) @ rest st) \<noteq> crc32 (snapshot_body es) then None
         else Some (snapshot, lfd st))"
proof -
  have frame: "snapshot_frame es = put_u32_le (crc32 (snapshot_body es)) @
      put_u32_le (to_u32 (length es)) @ concat (map entry_bytes es)"
    using assms(2) by (simp add: snapshot_frame_def snapshot_body_ok)
  obtain rs1 where 1: "no_fault rs1" "read_fully 4 (rs, snapshot_frame es @ u) =
      (Some (put_u32_le (crc32 (snapshot_body es))),
       (rs1, put_u32_le (to_u32 (length es)) @ concat (map entry_bytes es) @ u))"
    unfolding frame append_assoc
    by (rule read_fully_app [OF assms(3), of "put_u32_le (crc32 (snapshot_body es))" 4]) simp_all
  obtain rs2 where 2: "no_fault rs2" "read_fully 4 (rs1, put_u32_le (to_u32 (length es)) @ concat (map entry_bytes es) @ u)
      = (Some (put_u32_le (to_u32 (length es))), (rs2, concat (map entry_bytes es) @ u))"
    by (rule read_fully_app [OF 1(1), of "put_u32_le (to_u32 (length es))" 4]) simp_all
  have "get_u32_le (put_u32_le v) = v" for v using get_put_u32_le [of v "[]"] by simp
  moreover have "unat (to_u32 (length es)) = length es" using assms(1) by (intro unat_to_u32) simp
  ultimately show thesis using 1 2 assms(1) by (intro that [of rs2]) (simp_all add: load_one_def Let_def)
qed

lemma load_one_complete:
  assumes "snapshot_ok es" "no_fault rs"
  shows "\<exists>rs'. no_fault rs' \<and> load_one (rs, snapshot_frame es @ u) = Some (es, (rs', u))"
proof -
  have ok: "length es \<le> 64 * 1024" "\<forall>e \<in> set es. entry_ok e" "rest_fits 0 (length es * 16 + 256 * 1024) es"
    using assms(1) by (simp_all add: snapshot_ok_def)
  from load_one_frame_reads [OF ok(1,2) assms(2), of u] obtain rs1 where
    rs1: "no_fault rs1" and one: "load_one (rs, snapshot_frame es @ u) =
      (case load_entries (length es) \<lparr>rest = [], rest_size = length es * 16 + 256 * 1024,
        lfd = (rs1, concat (map entry_bytes es) @ u)\<rparr> of
       None \<Rightarrow> None
     | Some (snapshot, st) \<Rightarrow>
         if crc32 (put_u32_le (to_u32 (length es)) @ rest st) \<noteq> crc32 (snapshot_body es) then None
         else Some (snapshot, lfd st))" (is "_ = (case load_entries _ ?st of None \<Rightarrow> _ | Some x \<Rightarrow> _ x)") .
  from load_entries_complete [of es ?st rs1 u] ok rs1 obtain rs' st' where
    st': "no_fault rs'" "load_entries (length es) ?st = Some (es, st')" "lfd st' = (rs', u)" by auto
  from load_entries_sound [OF st'(2)] have "rest st' = concat (map entry_bytes es)"
    by (simp add: ate_def)
  with one st' ok(2) show ?thesis by (simp add: snapshot_body_ok)
qed

lemma load_one_unfit:
  assumes "length es \<le> 64 * 1024" "\<forall>e \<in> set es. entry_ok e" "no_fault rs"
    and "\<not> rest_fits 0 (length es * 16 + 256 * 1024) es"
  shows "load_one (rs, snapshot_frame es @ u) = None"
proof -
  from load_one_frame_reads [OF assms(1-3), of u] obtain rs1 where
    rs1: "no_fault rs1" and one: "load_one (rs, snapshot_frame es @ u) =
      (case load_entries (length es) \<lparr>rest = [], rest_size = length es * 16 + 256 * 1024,
        lfd = (rs1, concat (map entry_bytes es) @ u)\<rparr> of
       None \<Rightarrow> None
     | Some (snapshot, st) \<Rightarrow>
         if crc32 (put_u32_le (to_u32 (length es)) @ rest st) \<noteq> crc32 (snapshot_body es) then None
         else Some (snapshot, lfd st))" (is "_ = (case load_entries _ ?st of None \<Rightarrow> _ | Some x \<Rightarrow> _ x)") .
  from load_entries_unfit [of es ?st rs1 u] assms rs1 have "load_entries (length es) ?st = None" by simp
  with one show ?thesis by simp
qed

lemma snapshot_frame_length: "8 \<le> length (snapshot_frame es)"
  by (simp add: snapshot_frame_def snapshot_body_def Let_def)

text \<open>The loop of \<open>load_latest\<close> with its variable \<open>latest\<close>, and the function on a path.\<close>

function load_loop :: "rfd \<Rightarrow> manifest_entry list \<Rightarrow> manifest_entry list" where
  "load_loop fd latest =
     (case load_one fd of None \<Rightarrow> latest | Some (snapshot, fd') \<Rightarrow> load_loop fd' snapshot)"
  by pat_completeness auto
termination
proof (relation "measure (\<lambda>(fd, _). length (snd fd))")
  fix fd latest x snapshot fd'
  assume "load_one fd = Some x" "(snapshot, fd') = x"
  then show "((fd', snapshot), (fd, latest)) \<in> measure (\<lambda>(fd, _). length (snd fd))"
    using load_one_sound [of "fst fd" "snd fd" snapshot "fst fd'" "snd fd'"] snapshot_frame_length [of snapshot]
    by auto
qed simp

declare load_loop.simps [simp del]

definition load_latest :: "sys_ret list \<Rightarrow> bytes option \<Rightarrow> manifest_entry list" where
  "load_latest rs path = (case path of None \<Rightarrow> [] | Some bs \<Rightarrow> load_loop (rs, bs) [])"

text \<open>All snapshots the loop passes over, for the contract of a framed log.\<close>

function load_all :: "rfd \<Rightarrow> manifest_entry list list" where
  "load_all fd = (case load_one fd of None \<Rightarrow> [] | Some (s, fd') \<Rightarrow> s # load_all fd')"
  by pat_completeness auto
termination
proof (relation "measure (\<lambda>fd. length (snd fd))")
  fix fd x s fd'
  assume "load_one fd = Some x" "(s, fd') = x"
  then show "(fd', fd) \<in> measure (\<lambda>fd. length (snd fd))"
    using load_one_sound [of "fst fd" "snd fd" s "fst fd'" "snd fd'"] snapshot_frame_length [of s] by auto
qed simp

declare load_all.simps [simp del]

interpretation manlog: framed_log snapshot_frame snapshot_ok load_one load_all
proof
  show "snapshot_frame r \<noteq> []" for r using snapshot_frame_length [of r] by auto
  show "load_all fd = (case load_one fd of None \<Rightarrow> [] | Some (r, fd') \<Rightarrow> r # load_all fd')" for fd
    by (rule load_all.simps)
qed (use load_one_sound load_one_complete in blast)+

lemma load_loop_last: "load_loop fd latest = last (latest # load_all fd)"
proof (induction fd latest rule: load_loop.induct)
  case (1 fd latest)
  show ?case
  proof (cases "load_one fd")
    case None
    then show ?thesis by (simp add: load_loop.simps [of fd] load_all.simps [of fd])
  next
    case (Some x)
    with 1 show ?thesis by (cases x) (simp add: load_loop.simps [of fd] load_all.simps [of fd])
  qed
qed

lemma load_latest_frames:
  assumes "\<forall>s \<in> set olds. snapshot_ok s" "no_fault rs" "\<And>rs'. no_fault rs' \<Longrightarrow> load_one (rs', tail) = None"
  shows "load_latest rs (Some (concat (map snapshot_frame olds) @ tail)) = last ([] # olds)"
proof -
  obtain rs' where "no_fault rs'" "load_all (rs, manlog.frames olds @ tail) = olds @ load_all (rs', tail)"
    using manlog.loop_frames [OF assms(1,2), of tail] by blast
  with assms(3) show ?thesis by (simp add: load_latest_def load_loop_last manlog.loop_stop manlog.frames_def)
qed

text \<open>A bound on the keys that guarantees that the reader's buffer suffices.\<close>

lemma rest_fits_sum:
  "pos + sum_list (map (\<lambda>e. 16 + length (smallest_key e) + length (largest_key e)) es) \<le> sz \<Longrightarrow>
     rest_fits pos sz es"
  by (induction es arbitrary: pos sz) (auto simp: max.absorb1 algebra_simps)

lemma snapshot_ok_small:
  assumes "length es \<le> 64 * 1024" "\<forall>e \<in> set es. entry_ok e"
    and "sum_list (map (\<lambda>e. length (smallest_key e) + length (largest_key e)) es) \<le> 256 * 1024"
  shows "snapshot_ok es"
proof -
  have "sum_list (map (\<lambda>e. 16 + length (smallest_key e) + length (largest_key e)) es) =
      length es * 16 + sum_list (map (\<lambda>e. length (smallest_key e) + length (largest_key e)) es)"
    by (induction es) auto
  with assms show ?thesis by (auto simp: snapshot_ok_def intro!: rest_fits_sum)
qed

section \<open>What the manifest guarantees\<close>

lemma append_snapshot_file:
  assumes "append_snapshot rs ok files m = (m', e)"
  obtains n where "contents (mlog m') = contents (mlog m) @ take n (snapshot_frame files)"
    "durable (mlog m) \<le> durable (mlog m') \<or> durable (mlog m') = length (contents (mlog m'))"
    "e = None \<longrightarrow> contents (mlog m') = contents (mlog m) @ snapshot_frame files"
    "e = None \<and> ok \<longrightarrow> durable (mlog m') = length (contents (mlog m'))"
proof -
  obtain f where f: "file_write rs (snapshot_frame files) (mlog m) = (f, e)"
    by (cases "file_write rs (snapshot_frame files) (mlog m)"; cases e)
      (use assms in \<open>auto simp: append_snapshot_def split: option.splits\<close>)
  with assms have m': "mlog m' = (if e = None then durable_sync ok f else f)"
    by (cases e) (auto simp: append_snapshot_def)
  from file_write_contents [OF f] obtain n where
    "contents f = contents (mlog m) @ take n (snapshot_frame files)" "durable f = durable (mlog m)"
    "e = None \<longrightarrow> contents f = contents (mlog m) @ snapshot_frame files" .
  then show thesis unfolding m' by (intro that [of n]) (simp_all add: m' durable_sync_def)
qed

lemma load_latest_roundtrip:
  assumes "\<forall>s \<in> set ss. snapshot_ok s" "no_fault rs"
  shows "load_latest rs (Some (concat (map snapshot_frame ss))) = last ([] # ss)"
  using load_latest_frames [OF assms, of "[]"] manlog.one_empty by simp

text \<open>What loading makes of any file that a crash during an append can leave.\<close>

lemma append_snapshot_crash:
  assumes "contents (mlog m) = concat (map snapshot_frame olds)" "durable (mlog m) = length (contents (mlog m))"
    and "\<forall>s \<in> set (olds @ [files]). snapshot_ok s" "append_snapshot rs ok files m = (m', e)" "crash_image (mlog m') img"
  shows "\<exists>s \<in> {last ([] # olds), files}. (e = None \<and> ok \<longrightarrow> s = files) \<and> (\<forall>rs'. no_fault rs' \<longrightarrow> load_latest rs' (Some img) = s)"
proof -
  obtain n where "contents (mlog m') = contents (mlog m) @ take n (snapshot_frame files)"
    and d: "durable (mlog m) \<le> durable (mlog m') \<or> durable (mlog m') = length (contents (mlog m'))"
    and ack: "e = None \<longrightarrow> contents (mlog m') = contents (mlog m) @ snapshot_frame files"
      "e = None \<and> ok \<longrightarrow> durable (mlog m') = length (contents (mlog m'))"
    by (rule append_snapshot_file [OF assms(4)])
  then have c: "contents (mlog m') = manlog.frames olds @ take n (snapshot_frame files)"
    using assms(1) by (simp add: manlog.frames_def)
  from assms(5) obtain k where k: "durable (mlog m') \<le> k" "k \<le> length (contents (mlog m'))"
    "img = take k (contents (mlog m'))" by (auto simp: crash_image_def)
  with d c assms(1,2) have "length (manlog.frames olds) \<le> k" by (auto simp: manlog.frames_def)
  moreover from c have "contents (mlog m') = take (length (manlog.frames olds) + n) (manlog.frames (olds @ [files]))"
    by simp
  then have "img = take (min k (length (manlog.frames olds) + n)) (manlog.frames (olds @ [files]))"
    by (simp only: k(3) take_take)
  ultimately obtain i where i: "i \<le> 1" "\<forall>rs'. no_fault rs' \<longrightarrow> load_all (rs', img) = olds @ take i [files]"
    using manlog.loop_take_old [OF assms(3), of "min k (length (manlog.frames olds) + n)"] by (auto simp del: manlog.frames_simps)
  let ?s = "last ([] # olds @ take i [files])"
  have all: "load_latest rs' (Some img) = ?s" if "no_fault rs'" for rs' using i(2) that by (simp add: load_latest_def load_loop_last)
  have "?s \<in> {last ([] # olds), files}" using i(1) by (cases i) auto
  moreover have "?s = files" if "e = None \<and> ok"
    using that ack k assms(1) load_latest_roundtrip [OF assms(3), of "[]"] all [of "[]"] by simp
  ultimately show ?thesis using all by blast
qed

text \<open>
  C25. The MANIFEST commit is atomic. However \<open>append_snapshot\<close> ends and whatever a crash leaves
  beyond the durable part, loading returns the new snapshot or the one before it; and when the
  append was acknowledged and its sync took effect, it returns the new one.
\<close>

theorem manifest_commit_atomic:
  assumes "contents (mlog m) = concat (map snapshot_frame olds)"
    and "durable (mlog m) = length (contents (mlog m))"
    and "\<forall>s \<in> set (olds @ [files]). snapshot_ok s"
    and "append_snapshot rs ok files m = (m', e)"
    and "crash_image (mlog m') img" "no_fault rs'"
  shows "load_latest rs' (Some img) \<in> {last ([] # olds), files} \<and>
    (e = None \<and> ok \<longrightarrow> load_latest rs' (Some img) = files)"
  using append_snapshot_crash [OF assms(1-5)] assms(6) by blast

definition ex_entry :: manifest_entry where
  "ex_entry = \<lparr>mnumber = 1, mlevel = 0, smallest_key = [97], largest_key = [98]\<rparr>"

lemma ex_entry_ok: "entry_ok ex_entry"
  by (simp add: entry_ok_def ex_entry_def)

lemma ex_snapshot_ok: "snapshot_ok []" "snapshot_ok [ex_entry]"
  by (rule snapshot_ok_small; simp add: ex_entry_ok; simp add: ex_entry_def)+

theorem manifest_commit_atomic_witness:
  "load_latest [Xfer 1] (Some (snapshot_frame [ex_entry])) = [ex_entry]"
proof -
  let ?m = "\<lparr>mlog = \<lparr>contents = [], durable = 0\<rparr>\<rparr>"
  have "append_snapshot [] True [ex_entry] ?m =
      (\<lparr>mlog = \<lparr>contents = snapshot_frame [ex_entry], durable = length (snapshot_frame [ex_entry])\<rparr>\<rparr>, None)"
    by (simp add: append_snapshot_def file_write_def write_fully_Nil durable_sync_def)
  moreover have "crash_image \<lparr>contents = snapshot_frame [ex_entry], durable = length (snapshot_frame [ex_entry])\<rparr>
      (snapshot_frame [ex_entry])" by (auto simp: crash_image_def)
  ultimately show ?thesis
    using manifest_commit_atomic [of ?m "[]" "[ex_entry]" "[]" True _ None "snapshot_frame [ex_entry]" "[Xfer 1]"]
      ex_snapshot_ok by auto
qed

text \<open>
  C31. The reader's buffer limits the keys it can read. A snapshot whose length fields do not all
  lie within the first \<open>16 * count + 256 KiB\<close> bytes (for instance one file with a smallest key of
  more than 256 KiB) is written and acknowledged as any other, but loading ignores it and
  everything appended after it.
\<close>

theorem manifest_long_keys_lost:
  assumes "\<forall>s \<in> set olds. snapshot_ok s" "no_fault rs"
    and "length big \<le> 64 * 1024" "\<forall>e \<in> set big. entry_ok e"
    and "\<not> rest_fits 0 (length big * 16 + 256 * 1024) big"
  shows "load_latest rs (Some (concat (map snapshot_frame olds) @ snapshot_frame big @ later)) = last ([] # olds)"
  using load_one_unfit [OF assms(3,4) _ assms(5)] by (intro load_latest_frames [OF assms(1,2)])

theorem manifest_long_keys_lost_witness:
  "load_latest [] (Some (concat (map snapshot_frame [[ex_entry]]) @
     snapshot_frame [ex_entry\<lparr>smallest_key := replicate (256 * 1024 + 1) 97\<rparr>] @ [])) = [ex_entry]"
  using manifest_long_keys_lost [of "[[ex_entry]]" "[]"
      "[ex_entry\<lparr>smallest_key := replicate (256 * 1024 + 1) 97\<rparr>]" "[]"] ex_snapshot_ok
  by (simp add: ex_entry_def entry_ok_def)




end
