(* ===== verification/Versions.thy ===== *)
theory Versions
  imports Keystone_Prelude
begin

text \<open>
  Sorted runs of versions, without any component: the run after one more version, the newest
  version of every key of a run.
\<close>

text \<open>A deletion stores no value, in a memtable as in a table.\<close>

definition stored :: "entry \<Rightarrow> entry" where
  "stored e = (if etomb e then e\<lparr>evalue := []\<rparr> else e)"

lemma stored_fields [simp]: "ekey (stored e) = ekey e" "etomb (stored e) = etomb e" "eseq (stored e) = eseq e"
  "stored (stored e) = stored e"
  by (simp_all add: stored_def)

lemma status_of_stored [simp]: "status_of (stored e) = status_of e"
  by (simp add: status_of_def stored_def)

lemma lookup_run_stored: "lookup_run (map stored es) k s = map_option stored (lookup_run es k s)"
  by (induction es) auto

lemma run_status_stored [simp]: "run_status (map stored es) k s = run_status es k s"
  by (simp add: run_status_def lookup_run_stored split: option.splits)

section \<open>Insertion\<close>

text \<open>The insertion as it looks from outside: the version is put where the order wants it.\<close>

definition ins_version :: "entry \<Rightarrow> entry list \<Rightarrow> entry list" where
  "ins_version e es = takeWhile (\<lambda>x. ent_less x e) es @ e # dropWhile (\<lambda>x. ent_less x e) es"

lemma ins_version_sorted:
  assumes "ent_sorted es"
  shows "ent_sorted (ins_version e es)"
proof -
  have less: "\<forall>x \<in> set (takeWhile (\<lambda>x. ent_less x e) es). ent_less x e" by (auto dest: set_takeWhileD)
  have geq: "\<forall>x \<in> set (dropWhile (\<lambda>x. ent_less x e) es). ent_le e x"
    using assms
  proof (induction es)
    case (Cons y es)
    then show ?case by (cases "ent_less y e") (auto intro: ent_le_trans)
  qed simp
  have "ent_sorted (takeWhile (\<lambda>x. ent_less x e) es @ dropWhile (\<lambda>x. ent_less x e) es)" using assms by simp
  then show ?thesis using less geq unfolding ins_version_def
    by (simp add: sorted_wrt_append del: takeWhile_dropWhile_id) (blast intro: ent_less_imp_le)
qed

lemma set_ins_version: "set (ins_version e es) = insert e (set es)"
  unfolding ins_version_def using set_append [of "takeWhile (\<lambda>x. ent_less x e) es" "dropWhile (\<lambda>x. ent_less x e) es"]
  by simp

lemma mset_ins_version: "mset (ins_version e es) = add_mset e (mset es)"
  unfolding ins_version_def using mset_append [of "takeWhile (\<lambda>x. ent_less x e) es" "dropWhile (\<lambda>x. ent_less x e) es"]
  by simp

lemma lookup_ins_version_other:
  assumes "ekey e \<noteq> k \<or> s < eseq e"
  shows "lookup_run (ins_version e es) k s = lookup_run es k s"
proof -
  have "lookup_run (ins_version e es) k s =
      lookup_run (takeWhile (\<lambda>x. ent_less x e) es @ dropWhile (\<lambda>x. ent_less x e) es) k s"
    using assms unfolding ins_version_def lookup_run_append by (auto split: option.splits)
  then show ?thesis by simp
qed

text \<open>A version newer than those of its key is found by every snapshot that may see it.\<close>

lemma lookup_ins_version_new:
  assumes "\<forall>x \<in> set es. ekey x = ekey e \<longrightarrow> eseq x \<le> eseq e" "eseq e \<le> s"
  shows "lookup_run (ins_version e es) (ekey e) s = Some e"
proof -
  have "\<forall>x \<in> set (takeWhile (\<lambda>x. ent_less x e) es). ekey x \<noteq> ekey e"
    using assms(1) by (auto simp: ent_less_def dest!: set_takeWhileD)
  then have "lookup_run (takeWhile (\<lambda>x. ent_less x e) es) (ekey e) s = None" by (rule lookup_run_no_key)
  with assms(2) show ?thesis by (simp add: ins_version_def lookup_run_append)
qed

text \<open>The lookup in a sorted run is the lookup in its set of versions.\<close>

lemma run_status_newest:
  assumes "ent_sorted es"
  shows "if visible (set es) k s = {} then run_status es k s = NotFound
    else \<exists>e. newest (set es) k s e \<and> run_status es k s = status_of e"
proof (cases "lookup_run es k s")
  case None
  then show ?thesis using lookup_run_None_iff [of es k s] by (simp add: run_status_def)
next
  case (Some e)
  with lookup_run_newest [OF assms Some] show ?thesis
    by (auto simp: run_status_def newest_def)
qed

lemma run_status_NotFound: "run_status es k s = NotFound \<longleftrightarrow> visible (set es) k s = {}"
  by (cases "lookup_run es k s") (auto simp: run_status_def status_of_def simp flip: lookup_run_None_iff)

section \<open>The newest version of each key\<close>

text \<open>The default iterator: of each key, the first version in the order, which is the newest.\<close>

function first_versions :: "entry list \<Rightarrow> entry list" where
  "first_versions [] = []"
| "first_versions (e # es) = e # first_versions (dropWhile (\<lambda>x. ekey x = ekey e) es)"
  by pat_completeness auto
termination
  by (relation "measure length") (auto simp: le_imp_less_Suc length_dropWhile_le)

text \<open>What the deduplicated list is, of a sorted one: strictly ascending keys, the newest versions.\<close>

lemma first_versions_sub: "set (first_versions es) \<subseteq> set es"
  by (induction es rule: first_versions.induct) (auto dest: set_dropWhileD)

lemma sorted_dropWhile_key:
  assumes "ent_sorted (e # es)" "x \<in> set (dropWhile (\<lambda>x. ekey x = ekey e) es)"
  shows "ekey e < ekey x"
  using assms
proof (induction es)
  case (Cons y es)
  show ?case
  proof (cases "ekey y = ekey e")
    case True
    with Cons show ?thesis by auto
  next
    case False
    with Cons.prems show ?thesis by (auto simp: ent_le_def)
  qed
qed simp

lemma first_versions_spec:
  assumes "ent_sorted es"
  shows "sorted_wrt (\<lambda>a b. ekey a < ekey b) (first_versions es) \<and>
    (\<forall>k. (\<exists>e \<in> set (first_versions es). ekey e = k) \<longleftrightarrow> (\<exists>e \<in> set es. ekey e = k)) \<and>
    (\<forall>e \<in> set (first_versions es). newest (set es) (ekey e) UINT64_MAX e)"
  using assms
proof (induction es rule: first_versions.induct)
  case (2 e es)
  let ?ds = "dropWhile (\<lambda>x. ekey x = ekey e) es"
  have sorted: "ent_sorted ?ds" using 2(2) by (simp add: sorted_wrt_dropWhile)
  note IH = 2(1) [OF sorted]
  have later: "\<forall>x \<in> set ?ds. ekey e < ekey x" using sorted_dropWhile_key [OF 2(2)] by blast
  then have firsts: "\<forall>x \<in> set (first_versions ?ds). ekey e < ekey x" using first_versions_sub [of ?ds] by blast
  have mem: "y \<in> set es \<longleftrightarrow> y \<in> set ?ds" if "ekey y \<noteq> ekey e" for y
    using that set_append [of "takeWhile (\<lambda>x. ekey x = ekey e) es" ?ds]
    by (auto dest: set_takeWhileD)
  have "newest (set (e # es)) (ekey e) UINT64_MAX e"
    using 2(2) by (auto simp: newest_def visible_def ent_le_def)
  moreover have "newest (set (e # es)) (ekey x) UINT64_MAX x" if x: "x \<in> set (first_versions ?ds)" for x
  proof -
    have "ekey x \<noteq> ekey e" using x firsts by auto
    then have "visible (set (e # es)) (ekey x) UINT64_MAX = visible (set ?ds) (ekey x) UINT64_MAX"
      using mem by (auto simp: visible_def)
    with IH x show ?thesis by (simp add: newest_def)
  qed
  moreover have "sorted_wrt (\<lambda>a b. ekey a < ekey b) (first_versions (e # es))"
    using IH firsts by simp
  moreover have "(\<exists>x \<in> set (first_versions (e # es)). ekey x = k) \<longleftrightarrow> (\<exists>x \<in> set (e # es). ekey x = k)" for k
    using IH mem by (cases "k = ekey e") auto
  ultimately show ?case by simp
qed simp

section \<open>What a snapshot sees\<close>

text \<open>
  Of each key of a sorted run, the newest version a snapshot may see, without deletions unless
  they are kept.
\<close>

function newest_visible :: "bool \<Rightarrow> u64 \<Rightarrow> entry list \<Rightarrow> entry list" where
  "newest_visible keep snap [] = []"
| "newest_visible keep snap (e # es) =
     (let rest = newest_visible keep snap (dropWhile (\<lambda>x. ekey x = ekey e) es) in
      case find (\<lambda>x. eseq x \<le> snap) (takeWhile (\<lambda>x. ekey x = ekey e) (e # es)) of
        Some b \<Rightarrow> if keep \<or> \<not> etomb b then b # rest else rest
      | None \<Rightarrow> rest)"
  by pat_completeness auto
termination
  by (relation "measure (\<lambda>(_, _, es). length es)") (auto simp: le_imp_less_Suc length_dropWhile_le)

lemma lookup_run_SomeD: "lookup_run es k s = Some e \<Longrightarrow> e \<in> set es \<and> ekey e = k \<and> eseq e \<le> s"
  by (induction es) (auto split: if_splits)

lemma lookup_run_group:
  assumes "ent_sorted (e # es)"
  shows "find (\<lambda>x. eseq x \<le> s) (takeWhile (\<lambda>x. ekey x = ekey e) (e # es)) = lookup_run (e # es) (ekey e) s"
proof -
  let ?t = "takeWhile (\<lambda>x. ekey x = ekey e) (e # es)" and ?d = "dropWhile (\<lambda>x. ekey x = ekey e) (e # es)"
  have "\<forall>x \<in> set ?d. ekey x \<noteq> ekey e" using sorted_dropWhile_key [OF assms] by fastforce
  then have "lookup_run ?d (ekey e) s = None" by (rule lookup_run_no_key)
  then have "lookup_run (?t @ ?d) (ekey e) s = lookup_run ?t (ekey e) s"
    unfolding lookup_run_append by (simp split: option.splits)
  moreover have "lookup_run ?t (ekey e) s = find (\<lambda>x. eseq x \<le> s) ?t"
    unfolding lookup_run_def by (rule find_cong) (auto dest: set_takeWhileD)
  ultimately show ?thesis by simp
qed

lemma lookup_run_other_group:
  assumes "k \<noteq> ekey e"
  shows "lookup_run (e # es) k s = lookup_run (dropWhile (\<lambda>x. ekey x = ekey e) es) k s"
proof -
  let ?t = "takeWhile (\<lambda>x. ekey x = ekey e) es" and ?d = "dropWhile (\<lambda>x. ekey x = ekey e) es"
  have "lookup_run ?t k s = None" using assms by (intro lookup_run_no_key) (auto dest: set_takeWhileD)
  then have "lookup_run (?t @ ?d) k s = lookup_run ?d k s" unfolding lookup_run_append by simp
  then show ?thesis using assms by simp
qed

text \<open>It is the lookup of every key, in ascending order of the keys.\<close>

lemma newest_visible_spec:
  assumes "ent_sorted es"
  shows "sorted_wrt (\<lambda>a b. ekey a < ekey b) (newest_visible keep s es)"
    and "e \<in> set (newest_visible keep s es) \<longleftrightarrow> lookup_run es (ekey e) s = Some e \<and> (keep \<or> \<not> etomb e)"
proof -
  have "sorted_wrt (\<lambda>a b. ekey a < ekey b) (newest_visible keep s es) \<and>
    (\<forall>e. e \<in> set (newest_visible keep s es) \<longleftrightarrow> lookup_run es (ekey e) s = Some e \<and> (keep \<or> \<not> etomb e))"
    using assms
  proof (induction keep s es rule: newest_visible.induct)
    case (2 keep s x es)
    let ?d = "dropWhile (\<lambda>y. ekey y = ekey x) es"
    have sorted: "ent_sorted ?d" using 2(2) by (simp add: sorted_wrt_dropWhile)
    note IH = 2(1) [OF sorted]
    have later: "\<forall>y \<in> set ?d. ekey x < ekey y" using sorted_dropWhile_key [OF 2(2)] by blast
    have rest: "ekey x < ekey y" if "y \<in> set (newest_visible keep s ?d)" for y
    proof -
      have "lookup_run ?d (ekey y) s = Some y" using IH that by blast
      then show ?thesis using later lookup_run_SomeD by blast
    qed
    define B where "B = lookup_run (x # es) (ekey x) s"
    have nv: "newest_visible keep s (x # es) = (case B of
        Some b \<Rightarrow> if keep \<or> \<not> etomb b then b # newest_visible keep s ?d else newest_visible keep s ?d
      | None \<Rightarrow> newest_visible keep s ?d)"
      unfolding newest_visible.simps lookup_run_group [OF 2(2)] Let_def B_def ..
    have key: "B = Some b \<Longrightarrow> ekey b = ekey x" for b
      using lookup_run_SomeD [of "x # es" "ekey x" s b] by (simp only: B_def)
    have "e \<in> set (newest_visible keep s (x # es)) \<longleftrightarrow> lookup_run (x # es) (ekey e) s = Some e \<and> (keep \<or> \<not> etomb e)" for e
    proof (cases "ekey e = ekey x")
      case True
      then have "lookup_run (x # es) (ekey e) s = B" by (simp only: B_def)
      then show ?thesis using rest [of e] True unfolding nv by (cases B) (auto simp del: lookup_run_Cons)
    next
      case False
      then have "e \<in> set (newest_visible keep s (x # es)) \<longleftrightarrow> e \<in> set (newest_visible keep s ?d)"
      proof (cases B)
        case (Some b)
        with False key have "b \<noteq> e" by metis
        with Some show ?thesis unfolding nv by simp
      qed (unfold nv, simp)
      then show ?thesis using IH lookup_run_other_group [OF False, of es s] by (simp del: lookup_run_Cons newest_visible.simps)
    qed
    moreover have "sorted_wrt (\<lambda>a b. ekey a < ekey b) (newest_visible keep s (x # es))"
    proof (cases B)
      case (Some b)
      have "sorted_wrt (\<lambda>a b. ekey a < ekey b) (newest_visible keep s ?d)" using IH by blast
      moreover have "\<forall>y \<in> set (newest_visible keep s ?d). ekey b < ekey y"
        unfolding key [OF Some] using rest by blast
      ultimately show ?thesis unfolding nv Some option.case by (simp only: sorted_wrt.simps split: if_split) blast
    qed (use IH in \<open>unfold nv, simp\<close>)
    ultimately show ?case by blast
  qed simp
  then show "sorted_wrt (\<lambda>a b. ekey a < ekey b) (newest_visible keep s es)"
    "e \<in> set (newest_visible keep s es) \<longleftrightarrow> lookup_run es (ekey e) s = Some e \<and> (keep \<or> \<not> etomb e)" by auto
qed

end
