(* ===== verification/Memtable.thy ===== *)
theory Memtable
  imports Versions
begin

text \<open>
  \<open>include/keystone/memtable.h\<close>, \<open>src/memtable.cpp\<close>: the skiplist. Nodes live in a heap, a list
  whose indices are their addresses; \<open>head_\<close> is address 0. A node's \<open>forward\<close> vector holds one
  pointer per level it takes part in. The operations follow the pointers as the code does; a
  vector access out of range or a loop that does not end has no result (\<open>None\<close>). The second half
  shows that this never happens and that the structure is the sorted list of its versions.
\<close>

section \<open>The code\<close>

record node =
  nkey :: key
  nvalue :: bytes
  ntomb :: bool
  nseq :: u64
  forward :: "nat option list"

record memtable =
  heap :: "node list"
  max_height :: nat
  current_height :: nat
  approx_bytes :: nat

definition mk_node :: "key \<Rightarrow> bytes \<Rightarrow> bool \<Rightarrow> u64 \<Rightarrow> nat \<Rightarrow> node" where
  "mk_node k v tomb s height =
     \<lparr>nkey = k, nvalue = v, ntomb = tomb, nseq = s, forward = replicate height None\<rparr>"

definition memtable_new :: "nat \<Rightarrow> memtable" where
  "memtable_new mh =
     \<lparr>heap = [mk_node [] [] False 0 mh], max_height = mh, current_height = 1, approx_bytes = 0\<rparr>"

definition key_less :: "node \<Rightarrow> key \<Rightarrow> u64 \<Rightarrow> bool" where
  "key_less n k s = (if nkey n \<noteq> k then nkey n < k else nseq n > s)"

text \<open>
  \<open>random_level\<close>: the generator's coin flips are an argument; a list that runs out is a tail.
\<close>

fun random_level :: "nat \<Rightarrow> nat \<Rightarrow> bool list \<Rightarrow> nat" where
  "random_level mh lvl [] = lvl"
| "random_level mh lvl (coin # coins) =
     (if lvl < mh \<and> coin then random_level mh (Suc lvl) coins else lvl)"

text \<open>\<open>x->forward[i]\<close>; \<open>None\<close> when the access is out of range.\<close>

definition load_fwd :: "node list \<Rightarrow> nat \<Rightarrow> nat \<Rightarrow> nat option option" where
  "load_fwd h x i = (if x < length h \<and> i < length (forward (h ! x)) then Some (forward (h ! x) ! i) else None)"

text \<open>\<open>while (x->forward[i] && key_less(x->forward[i], key, seq)) x = x->forward[i];\<close>\<close>

partial_function (option) walk :: "node list \<Rightarrow> nat \<Rightarrow> key \<Rightarrow> u64 \<Rightarrow> nat \<Rightarrow> nat option" where
  "walk h i k s x =
     (case load_fwd h x i of
        None \<Rightarrow> None
      | Some None \<Rightarrow> Some x
      | Some (Some y) \<Rightarrow>
          if y < length h then (if key_less (h ! y) k s then walk h i k s y else Some x) else None)"

text \<open>The search of \<open>put\<close> and \<open>del\<close>, which records the predecessors, and that of the readers.\<close>

fun descend :: "node list \<Rightarrow> key \<Rightarrow> u64 \<Rightarrow> nat \<Rightarrow> nat \<Rightarrow> nat list \<Rightarrow> (nat \<times> nat list) option" where
  "descend h k s 0 x update = Some (x, update)"
| "descend h k s (Suc i) x update =
     (case walk h i k s x of None \<Rightarrow> None | Some x' \<Rightarrow> descend h k s i x' (update[i := x']))"

fun search :: "node list \<Rightarrow> key \<Rightarrow> u64 \<Rightarrow> nat \<Rightarrow> nat \<Rightarrow> nat option" where
  "search h k s 0 x = Some x"
| "search h k s (Suc i) x = (case walk h i k s x of None \<Rightarrow> None | Some x' \<Rightarrow> search h k s i x')"

text \<open>The loop that splices the node \<open>n\<close> into the levels.\<close>

fun splice :: "node list \<Rightarrow> nat list \<Rightarrow> nat \<Rightarrow> nat list \<Rightarrow> node list" where
  "splice h update n [] = h"
| "splice h update n (i # is) =
     (let h1 = h[n := (h ! n)\<lparr>forward := (forward (h ! n))[i := forward (h ! (update ! i)) ! i]\<rparr>];
          h2 = h1[update ! i := (h1 ! (update ! i))\<lparr>forward := (forward (h1 ! (update ! i)))[i := Some n]\<rparr>]
      in splice h2 update n is)"

definition kNodeOverhead :: nat where "kNodeOverhead = 64"

text \<open>What \<open>put\<close> and \<open>del\<close> have in common: all but the node's fields and the bytes counted.\<close>

definition insert_node :: "bool list \<Rightarrow> key \<Rightarrow> bytes \<Rightarrow> bool \<Rightarrow> u64 \<Rightarrow> nat \<Rightarrow> memtable \<Rightarrow> memtable option" where
  "insert_node coins k v tomb s sz m =
     (case descend (heap m) k s (current_height m) 0 (replicate (max_height m) 0) of
        None \<Rightarrow> None
      | Some (x, update) \<Rightarrow>
          let lvl = random_level (max_height m) 1 coins;
              ch = (if lvl > current_height m then lvl else current_height m);
              n = length (heap m);
              h = splice (heap m @ [mk_node k v tomb s lvl]) update n [0..<lvl]
          in Some (m\<lparr>heap := h, current_height := ch, approx_bytes := approx_bytes m + sz\<rparr>))"

definition mt_put :: "bool list \<Rightarrow> key \<Rightarrow> bytes \<Rightarrow> u64 \<Rightarrow> memtable \<Rightarrow> memtable option" where
  "mt_put coins k v s m = insert_node coins k v False s (length k + length v + kNodeOverhead) m"

definition mt_del :: "bool list \<Rightarrow> key \<Rightarrow> u64 \<Rightarrow> memtable \<Rightarrow> memtable option" where
  "mt_del coins k s m = insert_node coins k [] True s (length k + kNodeOverhead) m"

definition mt_lookup :: "key \<Rightarrow> u64 \<Rightarrow> memtable \<Rightarrow> status option" where
  "mt_lookup k snapshot_seq m =
     (case search (heap m) k snapshot_seq (current_height m) 0 of
        None \<Rightarrow> None
      | Some x \<Rightarrow>
          (case load_fwd (heap m) x 0 of
             None \<Rightarrow> None
           | Some None \<Rightarrow> Some NotFound
           | Some (Some y) \<Rightarrow>
               if y < length (heap m) then
                 let n = heap m ! y in
                 if nkey n \<noteq> k then Some NotFound
                 else if ntomb n then Some Deleted
                 else Some (Found (nvalue n))
               else None))"

text \<open>The raw iterator: every version from a pointer on, following \<open>forward[0]\<close>.\<close>

definition node_entry :: "node \<Rightarrow> entry" where
  "node_entry n = \<lparr>ekey = nkey n, evalue = nvalue n, etomb = ntomb n, eseq = nseq n\<rparr>"

partial_function (option) raw_from :: "node list \<Rightarrow> nat option \<Rightarrow> entry list option" where
  "raw_from h p =
     (case p of None \<Rightarrow> Some []
      | Some y \<Rightarrow> (case load_fwd h y 0 of None \<Rightarrow> None
          | Some q \<Rightarrow> Option.bind (raw_from h q) (\<lambda>es. Some (node_entry (h ! y) # es))))"

definition raw_begin :: "memtable \<Rightarrow> nat option option" where
  "raw_begin m = load_fwd (heap m) 0 0"

definition raw_lower_bound :: "key \<Rightarrow> memtable \<Rightarrow> nat option option" where
  "raw_lower_bound k m =
     (case search (heap m) k UINT64_MAX (current_height m) 0 of None \<Rightarrow> None
      | Some x \<Rightarrow> load_fwd (heap m) x 0)"

definition raw_entries :: "memtable \<Rightarrow> entry list option" where
  "raw_entries m = Option.bind (raw_begin m) (raw_from (heap m))"

definition raw_entries_from :: "key \<Rightarrow> memtable \<Rightarrow> entry list option" where
  "raw_entries_from k m = Option.bind (raw_lower_bound k m) (raw_from (heap m))"

text \<open>The default iterator's \<open>operator++\<close>: skip the other versions of the current key.\<close>

partial_function (option) skip_key :: "node list \<Rightarrow> key \<Rightarrow> nat \<Rightarrow> nat option option" where
  "skip_key h cur x =
     (case load_fwd h x 0 of None \<Rightarrow> None
      | Some None \<Rightarrow> Some None
      | Some (Some y) \<Rightarrow>
          if y < length h then (if nkey (h ! y) = cur then skip_key h cur y else Some (Some y)) else None)"

partial_function (option) iter_from :: "node list \<Rightarrow> nat option \<Rightarrow> entry list option" where
  "iter_from h p =
     (case p of None \<Rightarrow> Some []
      | Some y \<Rightarrow> if y < length h then
           Option.bind (skip_key h (nkey (h ! y)) y)
             (\<lambda>q. Option.bind (iter_from h q) (\<lambda>es. Some (node_entry (h ! y) # es)))
         else None)"

definition iter_entries :: "memtable \<Rightarrow> entry list option" where
  "iter_entries m = Option.bind (raw_begin m) (iter_from (heap m))"

section \<open>Level lists\<close>

text \<open>
  \<open>path h i x as\<close>: at level \<open>i\<close> the pointers lead from \<open>x\<close> through the addresses \<open>as\<close>;
  \<open>chain\<close> adds that the last of them is null.
\<close>

abbreviation fwd :: "node list \<Rightarrow> nat \<Rightarrow> nat \<Rightarrow> nat option" where
  "fwd h x i \<equiv> forward (h ! x) ! i"

abbreviation height :: "node list \<Rightarrow> nat \<Rightarrow> nat" where
  "height h x \<equiv> length (forward (h ! x))"

fun path :: "node list \<Rightarrow> nat \<Rightarrow> nat \<Rightarrow> nat list \<Rightarrow> bool" where
  "path h i x [] = True"
| "path h i x (a # as) = (fwd h x i = Some a \<and> a < length h \<and> i < height h a \<and> path h i a as)"

definition chain :: "node list \<Rightarrow> nat \<Rightarrow> nat \<Rightarrow> nat list \<Rightarrow> bool" where
  "chain h i x as \<longleftrightarrow> path h i x as \<and> fwd h (last (x # as)) i = None"

lemma path_append: "path h i x (as @ bs) \<longleftrightarrow> path h i x as \<and> path h i (last (x # as)) bs"
  by (induction as arbitrary: x) auto

lemma chain_append: "chain h i x (as @ bs) \<longleftrightarrow> path h i x as \<and> chain h i (last (x # as)) bs"
  by (auto simp: chain_def path_append)

lemma chain_Cons: "chain h i x (a # as) \<longleftrightarrow>
    fwd h x i = Some a \<and> a < length h \<and> i < height h a \<and> chain h i a as"
  by (auto simp: chain_def)

lemma chain_Nil: "chain h i x [] \<longleftrightarrow> fwd h x i = None"
  by (simp add: chain_def)

text \<open>The walk along one level stops at the last node that is less.\<close>

lemma walk_chain:
  assumes "chain h i x (C @ G)" "x < length h" "i < height h x"
    and "\<forall>a \<in> set C. key_less (h ! a) k s" "\<forall>a \<in> set G. \<not> key_less (h ! a) k s"
  shows "walk h i k s x = Some (last (x # C))"
  using assms
proof (induction C arbitrary: x)
  case Nil
  then show ?case
    by (cases G) (auto simp: walk.simps [of h i k s x] load_fwd_def chain_Cons chain_Nil)
next
  case (Cons a C)
  then have "walk h i k s a = Some (last (a # C))" by (auto simp: chain_Cons)
  with Cons.prems show ?case
    by (auto simp: walk.simps [of h i k s x] load_fwd_def chain_Cons)
qed

section \<open>The invariant\<close>

text \<open>
  \<open>ord\<close> lists the addresses of all nodes but the head in the order of level 0. Level \<open>i\<close> links
  those of them that are higher than \<open>i\<close>, in the same order.
\<close>

definition lev :: "node list \<Rightarrow> nat \<Rightarrow> nat list \<Rightarrow> nat list" where
  "lev h i ord = filter (\<lambda>a. i < height h a) ord"

definition mt_inv :: "memtable \<Rightarrow> nat list \<Rightarrow> bool" where
  "mt_inv m ord \<longleftrightarrow>
     heap m \<noteq> [] \<and> height (heap m) 0 = max_height m \<and>
     1 \<le> current_height m \<and> current_height m \<le> max_height m \<and>
     distinct ord \<and> set ord = {1..<length (heap m)} \<and>
     (\<forall>a \<in> set ord. 1 \<le> height (heap m) a \<and> height (heap m) a \<le> current_height m) \<and>
     ent_sorted (map (\<lambda>a. node_entry (heap m ! a)) ord) \<and>
     (\<forall>i < max_height m. chain (heap m) i 0 (lev (heap m) i ord))"

text \<open>A target of the search as an entry.\<close>

definition target :: "key \<Rightarrow> u64 \<Rightarrow> entry" where
  "target k s = \<lparr>ekey = k, evalue = [], etomb = False, eseq = s\<rparr>"

lemma key_less_entry: "key_less n k s \<longleftrightarrow> ent_less (node_entry n) (target k s)"
  by (auto simp: key_less_def ent_less_def node_entry_def target_def)

text \<open>In a sorted order the nodes less than a target are a prefix.\<close>

definition before :: "node list \<Rightarrow> key \<Rightarrow> u64 \<Rightarrow> nat list \<Rightarrow> nat list" where
  "before h k s ord = takeWhile (\<lambda>a. key_less (h ! a) k s) ord"

definition behind :: "node list \<Rightarrow> key \<Rightarrow> u64 \<Rightarrow> nat list \<Rightarrow> nat list" where
  "behind h k s ord = dropWhile (\<lambda>a. key_less (h ! a) k s) ord"

lemma before_behind: "before h k s ord @ behind h k s ord = ord"
  by (simp add: before_def behind_def)

lemma before_less: "a \<in> set (before h k s ord) \<Longrightarrow> key_less (h ! a) k s"
  by (auto simp: before_def dest: set_takeWhileD)

lemma behind_not_less:
  assumes "ent_sorted (map (\<lambda>a. node_entry (h ! a)) ord)" "a \<in> set (behind h k s ord)"
  shows "\<not> key_less (h ! a) k s"
  using assms
proof (induction ord)
  case Nil
  then show ?case by (simp add: behind_def)
next
  case (Cons b ord)
  show ?case
  proof (cases "key_less (h ! b) k s")
    case True
    with Cons show ?thesis by (simp add: behind_def)
  next
    case False
    then have "behind h k s (b # ord) = b # ord" by (simp add: behind_def)
    with Cons.prems have "ent_le (node_entry (h ! b)) (node_entry (h ! a))" by auto
    with False show ?thesis by (simp add: key_less_entry) (blast intro: ent_le_trans)
  qed
qed

lemma lev_Cons: "lev h i (a # as) = (if i < height h a then a # lev h i as else lev h i as)"
  by (simp add: lev_def)

lemma lev_append: "lev h i (xs @ ys) = lev h i xs @ lev h i ys"
  by (simp add: lev_def)

text \<open>
  The predecessor of a target at level \<open>i\<close>. Going down one level, the search starts at a node of
  that level and walks to its predecessor there.
\<close>

definition pred :: "node list \<Rightarrow> nat \<Rightarrow> nat list \<Rightarrow> nat" where
  "pred h i L = last (0 # lev h i L)"

lemma pred_split:
  "\<exists>B C. 0 # lev h i L = B @ pred h (Suc i) L # C"
proof (cases "lev h (Suc i) L = []")
  case True
  then show ?thesis by (auto simp: pred_def intro: exI [of _ "[]"])
next
  case False
  then have "last (lev h (Suc i) L) \<in> set (lev h (Suc i) L)" by simp
  then have "pred h (Suc i) L \<in> set (0 # lev h i L)"
    using False by (auto simp: pred_def lev_def)
  then show ?thesis by (metis split_list)
qed

lemma pred_step:
  assumes chain: "chain h i 0 (lev h i L @ lev h i G)" and h0: "0 < length h" "i < height h 0"
    and less: "\<forall>a \<in> set L. key_less (h ! a) k s" "\<forall>a \<in> set G. \<not> key_less (h ! a) k s"
  shows "walk h i k s (pred h (Suc i) L) = Some (pred h i L)"
proof -
  obtain B C where BC: "0 # lev h i L = B @ pred h (Suc i) L # C" using pred_split by blast
  have "chain h i (pred h (Suc i) L) (C @ lev h i G) \<and> pred h (Suc i) L < length h \<and>
      i < height h (pred h (Suc i) L)"
  proof (cases B)
    case Nil
    with BC chain h0 show ?thesis by simp
  next
    case (Cons b B')
    with BC have "lev h i L = B' @ pred h (Suc i) L # C" by simp
    with chain show ?thesis by (simp add: chain_append chain_Cons)
  qed
  moreover have "\<forall>a \<in> set C. key_less (h ! a) k s"
  proof -
    have "set C \<subseteq> set (lev h i L)" using BC by (cases B) auto
    with less(1) show ?thesis by (auto simp: lev_def)
  qed
  moreover have "\<forall>a \<in> set (lev h i G). \<not> key_less (h ! a) k s" using less(2) by (simp add: lev_def)
  moreover have "last (pred h (Suc i) L # C) = pred h i L"
    unfolding pred_def [of h i] BC by simp
  ultimately show ?thesis using walk_chain by metis
qed

lemma search_descend: "search h k s n x = map_option fst (descend h k s n x upd)"
  by (induction n arbitrary: x upd) (auto split: option.splits)

lemma descend_spec:
  assumes chains: "\<forall>i < n. chain h i 0 (lev h i L @ lev h i G)" and h0: "0 < length h" "n \<le> height h 0"
    and less: "\<forall>a \<in> set L. key_less (h ! a) k s" "\<forall>a \<in> set G. \<not> key_less (h ! a) k s"
    and upd: "n \<le> length upd"
  shows "\<exists>upd'. descend h k s n (pred h n L) upd = Some (pred h 0 L, upd') \<and> length upd' = length upd \<and>
    (\<forall>i < length upd. upd' ! i = (if i < n then pred h i L else upd ! i))"
  using chains h0(2) upd
proof (induction n arbitrary: upd)
  case 0
  then show ?case by simp
next
  case (Suc n)
  have "walk h n k s (pred h (Suc n) L) = Some (pred h n L)"
    using Suc.prems h0(1) less by (intro pred_step) auto
  moreover obtain upd' where
    "descend h k s n (pred h n L) (upd[n := pred h n L]) = Some (pred h 0 L, upd')" "length upd' = length upd"
    "\<forall>i < length upd. upd' ! i = (if i < n then pred h i L else upd[n := pred h n L] ! i)"
    using Suc.IH [of "upd[n := pred h n L]"] Suc.prems by auto
  ultimately show ?case using Suc.prems by (auto simp: nth_list_update less_Suc_eq)
qed

text \<open>The same from the head and with the invariant: the search from the current height.\<close>

lemma mt_inv_descend:
  assumes inv: "mt_inv m ord" and "length upd = max_height m" "\<forall>i < max_height m. upd ! i = 0"
    and L_def: "L = before (heap m) k s ord"
  shows "\<exists>upd'. descend (heap m) k s (current_height m) 0 upd = Some (pred (heap m) 0 L, upd') \<and>
    length upd' = max_height m \<and> (\<forall>i < max_height m. upd' ! i = pred (heap m) i L)"
proof -
  let ?h = "heap m" and ?n = "current_height m"
  define G where "G = behind ?h k s ord"
  have ord: "L @ G = ord" by (simp add: L_def G_def before_behind)
  have top: "pred ?h i L = 0" if "?n \<le> i" for i
  proof -
    have "\<forall>a \<in> set L. height ?h a \<le> ?n" using inv ord by (auto simp: mt_inv_def)
    with that have "lev ?h i L = []" by (force simp: lev_def filter_empty_conv)
    then show ?thesis by (simp add: pred_def)
  qed
  have "\<exists>upd'. descend ?h k s ?n (pred ?h ?n L) upd = Some (pred ?h 0 L, upd') \<and> length upd' = length upd \<and>
    (\<forall>i < length upd. upd' ! i = (if i < ?n then pred ?h i L else upd ! i))"
  proof (rule descend_spec)
    show "\<forall>i < ?n. chain ?h i 0 (lev ?h i L @ lev ?h i G)"
      using inv by (auto simp: mt_inv_def ord simp flip: lev_append)
    show "\<forall>a \<in> set L. key_less (?h ! a) k s" by (simp add: L_def before_less)
    show "\<forall>a \<in> set G. \<not> key_less (?h ! a) k s"
      unfolding G_def using inv behind_not_less unfolding mt_inv_def by blast
  qed (use inv assms(2) in \<open>auto simp: mt_inv_def\<close>)
  with top [of ?n] top assms(2,3) show ?thesis by (auto simp: not_less)
qed

section \<open>Insertion\<close>

text \<open>What the splice loop changes: one pointer of each recorded predecessor, and the new node's.\<close>

lemma splice_spec:
  assumes "distinct is" "n < length h"
    and "\<forall>i \<in> set is. update ! i < length h \<and> update ! i \<noteq> n \<and> i < height h (update ! i) \<and> i < height h n"
  shows "length (splice h update n is) = length h \<and>
    (\<forall>a < length h. splice h update n is ! a = (h ! a)\<lparr>forward := forward (splice h update n is ! a)\<rparr> \<and>
       height (splice h update n is) a = height h a \<and>
       (\<forall>i < height h a. fwd (splice h update n is) a i =
          (if i \<in> set is \<and> a = n then fwd h (update ! i) i
           else if i \<in> set is \<and> a = update ! i then Some n else fwd h a i)))"
  using assms
proof (induction "is" arbitrary: h)
  case Nil
  then show ?case by simp
next
  case (Cons j "is")
  let ?p = "update ! j"
  define h2 where "h2 = (h[n := (h ! n)\<lparr>forward := (forward (h ! n))[j := fwd h ?p j]\<rparr>])
      [?p := (h ! ?p)\<lparr>forward := (forward (h ! ?p))[j := Some n]\<rparr>]"
  have p: "?p < length h" "?p \<noteq> n" "j < height h ?p" "j < height h n" using Cons.prems by auto
  have sp: "splice h update n (j # is) = splice h2 update n is"
    using p by (simp add: h2_def Let_def)
  have len: "length h2 = length h" by (simp add: h2_def)
  have nth: "h2 ! a = (if a = ?p then (h ! a)\<lparr>forward := (forward (h ! a))[j := Some n]\<rparr>
      else if a = n then (h ! a)\<lparr>forward := (forward (h ! a))[j := fwd h ?p j]\<rparr> else h ! a)" if "a < length h" for a
    using p that Cons.prems(2) by (auto simp: h2_def)
  have hgt: "height h2 a = height h a" if "a < length h" for a using nth [OF that] by simp
  have "\<forall>i \<in> set is. update ! i < length h2 \<and> update ! i \<noteq> n \<and> i < height h2 (update ! i) \<and> i < height h2 n"
    using Cons.prems len hgt by simp
  from Cons.IH [OF _ _ this] Cons.prems len have IH: "length (splice h2 update n is) = length h"
    "\<And>a. a < length h \<Longrightarrow> splice h2 update n is ! a = (h2 ! a)\<lparr>forward := forward (splice h2 update n is ! a)\<rparr>"
    "\<And>a. a < length h \<Longrightarrow> height (splice h2 update n is) a = height h2 a"
    "\<And>a i. a < length h \<Longrightarrow> i < height h2 a \<Longrightarrow> fwd (splice h2 update n is) a i =
          (if i \<in> set is \<and> a = n then fwd h2 (update ! i) i
           else if i \<in> set is \<and> a = update ! i then Some n else fwd h2 a i)" by auto
  have same: "splice h2 update n is ! a = (h ! a)\<lparr>forward := forward (splice h2 update n is ! a)\<rparr>" if "a < length h" for a
    using IH(2) [OF that] nth [OF that] by (metis node.surjective node.update_convs(5))
  have fwd2: "fwd h2 a i = (if i = j \<and> a = ?p then Some n else if i = j \<and> a = n then fwd h ?p j else fwd h a i)"
    if "a < length h" "i < height h a" for a i
    using nth [OF that(1)] that p by (auto simp: nth_list_update)
  have "fwd (splice h2 update n is) a i =
          (if i \<in> set (j # is) \<and> a = n then fwd h (update ! i) i
           else if i \<in> set (j # is) \<and> a = update ! i then Some n else fwd h a i)"
    if "a < length h" "i < height h a" for a i
    using IH(4) [OF that(1)] hgt [OF that(1)] fwd2 that Cons.prems by auto
  with IH(1,3) same hgt show ?case unfolding sp by simp
qed

lemma path_cong:
  assumes "path h i x as" "length h \<le> length h'"
    and "\<forall>a \<in> set (butlast (x # as)). fwd h' a i = fwd h a i" "\<forall>a \<in> set as. height h' a = height h a"
  shows "path h' i x as"
  using assms
proof (induction as arbitrary: x)
  case (Cons a as)
  have "path h' i a as" by (rule Cons.IH) (use Cons.prems in simp_all)
  with Cons.prems show ?case by simp
qed simp

lemma chain_cong:
  assumes "chain h i x as" "length h \<le> length h'"
    and "\<forall>a \<in> set (x # as). fwd h' a i = fwd h a i" "\<forall>a \<in> set as. height h' a = height h a"
  shows "chain h' i x as"
proof -
  have "\<forall>a \<in> set (butlast (x # as)). fwd h' a i = fwd h a i" using assms(3) in_set_butlastD by metis
  then have "path h' i x as" using assms(1,2,4) path_cong unfolding chain_def by blast
  moreover have "last (x # as) \<in> set (x # as)" by (rule last_in_set) simp
  ultimately show ?thesis using assms(1,3) unfolding chain_def by metis
qed

lemma chain_start: "fwd h x i = fwd h y i \<Longrightarrow> chain h i x as = chain h i y as"
  by (cases as) (auto simp: chain_Cons chain_Nil)

lemma random_level_range: "lvl \<le> mh \<Longrightarrow> lvl \<le> random_level mh lvl coins \<and> random_level mh lvl coins \<le> mh"
  by (induction mh lvl coins rule: random_level.induct) auto

lemma last_notin_butlast: "distinct xs \<Longrightarrow> xs \<noteq> [] \<Longrightarrow> last xs \<notin> set (butlast xs)"
  by (induction xs rule: rev_induct) auto

text \<open>One level after the splice, from the facts the splice loop gives.\<close>

lemma splice_chain:
  assumes old: "chain h i 0 (L @ G)" and "distinct (0 # L @ n # G)" "length h \<le> length h'" "n < length h'" "i < height h' n"
    and heights: "\<forall>a \<in> set (L @ G). height h' a = height h a"
    and new: "fwd h' n i = fwd h (last (0 # L)) i" "fwd h' (last (0 # L)) i = Some n"
    and other: "\<forall>a \<in> set (0 # L @ G). a \<noteq> last (0 # L) \<longrightarrow> fwd h' a i = fwd h a i"
  shows "chain h' i 0 (L @ n # G)"
proof -
  let ?p = "last (0 # L)"
  have split: "path h i 0 L" "chain h i ?p G" using old by (auto simp: chain_append)
  have "set (0 # L) \<inter> set G = {}" using assms(2) by auto
  moreover have "?p \<in> set (0 # L)" by (rule last_in_set) simp
  ultimately have dist: "distinct (0 # L)" "?p \<notin> set G" using assms(2) by auto
  have "?p \<notin> set (butlast (0 # L))" by (rule last_notin_butlast [OF dist(1)]) simp
  then have same: "\<forall>a \<in> set (butlast (0 # L)). fwd h' a i = fwd h a i"
    using other in_set_butlastD [of _ "0 # L"] by (metis Un_iff append_Cons set_append)
  have "path h' i 0 L" by (rule path_cong [OF split(1) assms(3) same]) (use heights in simp)
  moreover have "chain h' i n G"
  proof (cases G)
    case Nil
    then show ?thesis using split(2) new(1) by (simp add: chain_Nil)
  next
    case (Cons g G')
    with split(2) have g: "fwd h ?p i = Some g" "g < length h" "i < height h g" "chain h i g G'" by (simp_all add: chain_Cons)
    have "\<forall>a \<in> set (g # G'). fwd h' a i = fwd h a i" using other dist(2) Cons by (metis Un_iff append_Cons set_append)
    then have "chain h' i g G'" by (rule chain_cong [OF g(4) assms(3)]) (use heights Cons in simp)
    then show ?thesis using g new(1) heights assms(3) Cons by (simp add: chain_Cons del: last.simps)
  qed
  ultimately show ?thesis using new(2) assms(4,5) by (simp add: chain_append chain_Cons del: last.simps)
qed

text \<open>
  The heap after an insertion: old nodes keep their fields and heights, the new node has its own,
  and the pointers are those of the splice.
\<close>

lemma insert_node_heap:
  assumes inv: "mt_inv m ord" and L: "L = before (heap m) k s ord"
    and lvl: "lvl = random_level (max_height m) 1 coins" and n: "n = length (heap m)"
  obtains h where
    "insert_node coins k v t s sz m = Some (m\<lparr>heap := h, current_height := max lvl (current_height m),
       approx_bytes := approx_bytes m + sz\<rparr>)"
    "length h = Suc n" "node_entry (h ! n) = \<lparr>ekey = k, evalue = v, etomb = t, eseq = s\<rparr>" "height h n = lvl"
    "\<And>a. a < n \<Longrightarrow> node_entry (h ! a) = node_entry (heap m ! a) \<and> height h a = height (heap m) a"
    "\<And>i. i < lvl \<Longrightarrow> fwd h n i = fwd (heap m) (pred (heap m) i L) i \<and> fwd h (pred (heap m) i L) i = Some n"
    "\<And>a i. a < n \<Longrightarrow> i < height (heap m) a \<Longrightarrow> i < lvl \<longrightarrow> a \<noteq> pred (heap m) i L \<Longrightarrow> fwd h a i = fwd (heap m) a i"
proof -
  let ?h0 = "heap m @ [mk_node k v t s lvl]"
  obtain upd where upd: "descend (heap m) k s (current_height m) 0 (replicate (max_height m) 0) = Some (pred (heap m) 0 L, upd)"
    "\<forall>i < max_height m. upd ! i = pred (heap m) i L"
    using mt_inv_descend [OF inv _ _ L, of "replicate (max_height m) 0"] by auto
  define h where "h = splice ?h0 upd n [0..<lvl]"
  have mh: "1 \<le> lvl" "lvl \<le> max_height m" using inv random_level_range [of 1 "max_height m" coins] by (auto simp: lvl mt_inv_def)
  have pred: "pred (heap m) i L < n \<and> i < height (heap m) (pred (heap m) i L)" if "i < lvl" for i
  proof (cases "lev (heap m) i L = []")
    case True
    then show ?thesis using inv mh that by (auto simp: pred_def mt_inv_def n)
  next
    case False
    then have "pred (heap m) i L \<in> set (lev (heap m) i L)" by (simp add: pred_def)
    moreover have "set L \<subseteq> set ord" by (auto simp: L before_def dest: set_takeWhileD)
    ultimately show ?thesis using inv by (auto simp: lev_def mt_inv_def n)
  qed
  have "\<forall>i \<in> set [0..<lvl]. upd ! i < length ?h0 \<and> upd ! i \<noteq> n \<and> i < height ?h0 (upd ! i) \<and> i < height ?h0 n"
  proof
    fix i assume "i \<in> set [0..<lvl]"
    then show "upd ! i < length ?h0 \<and> upd ! i \<noteq> n \<and> i < height ?h0 (upd ! i) \<and> i < height ?h0 n"
      using upd(2) mh pred [of i] by (simp add: nth_append n mk_node_def)
  qed
  note sp = splice_spec [OF distinct_upt _ this, folded h_def]
  have len: "length h = Suc n" and same: "\<And>a. a < Suc n \<Longrightarrow> h ! a = (?h0 ! a)\<lparr>forward := forward (h ! a)\<rparr>"
    and hgt: "\<And>a. a < Suc n \<Longrightarrow> height h a = height ?h0 a"
    and ptr: "\<And>a i. a < Suc n \<Longrightarrow> i < height ?h0 a \<Longrightarrow> fwd h a i =
          (if i < lvl \<and> a = n then fwd ?h0 (upd ! i) i else if i < lvl \<and> a = upd ! i then Some n else fwd ?h0 a i)"
    using sp n by auto
  have ent: "node_entry (h ! a) = node_entry (?h0 ! a)" if "a < Suc n" for a
    by (subst same [OF that]) (simp add: node_entry_def)
  show thesis
  proof (rule that)
    show "insert_node coins k v t s sz m = Some (m\<lparr>heap := h, current_height := max lvl (current_height m),
       approx_bytes := approx_bytes m + sz\<rparr>)"
      using upd(1) by (simp add: insert_node_def h_def Let_def max_def lvl n)
    show "length h = Suc n" by (rule len)
    show "node_entry (h ! n) = \<lparr>ekey = k, evalue = v, etomb = t, eseq = s\<rparr>" "height h n = lvl"
      using ent [of n] hgt [of n] by (simp_all add: n node_entry_def mk_node_def)
    show "node_entry (h ! a) = node_entry (heap m ! a) \<and> height h a = height (heap m) a" if "a < n" for a
      using ent [of a] hgt [of a] that by (simp add: n nth_append)
    show "fwd h n i = fwd (heap m) (pred (heap m) i L) i \<and> fwd h (pred (heap m) i L) i = Some n" if "i < lvl" for i
      using ptr [of n i] ptr [of "pred (heap m) i L" i] pred [OF that] upd(2) mh that
      by (simp add: n nth_append mk_node_def)
    show "fwd h a i = fwd (heap m) a i"
      if "a < n" "i < height (heap m) a" "i < lvl \<longrightarrow> a \<noteq> pred (heap m) i L" for a i
      using ptr [of a i] that upd(2) mh by (auto simp: n nth_append)
  qed
qed

abbreviation entries_at :: "node list \<Rightarrow> nat list \<Rightarrow> entry list" where
  "entries_at h as \<equiv> map (\<lambda>a. node_entry (h ! a)) as"

lemma ins_version_same_place: "ekey e = ekey e' \<Longrightarrow> eseq e = eseq e' \<Longrightarrow> ent_less x e = ent_less x e'"
  by (simp add: ent_less_def)

lemma before_entries:
  "entries_at h (before h k s ord) = takeWhile (\<lambda>x. ent_less x (target k s)) (entries_at h ord)"
  "entries_at h (behind h k s ord) = dropWhile (\<lambda>x. ent_less x (target k s)) (entries_at h ord)"
  by (simp_all add: before_def behind_def takeWhile_map dropWhile_map comp_def key_less_entry)

lemma splice_level:
  assumes c: "chain h0 i 0 (lev h0 i (L @ G))" and dist: "distinct (0 # L @ n # G)" and len: "n = length h0" "length h = Suc n"
    and sub: "\<forall>a \<in> set (0 # lev h0 i (L @ G)). a < n \<and> i < height h0 a"
    and below: "\<forall>a \<in> set L. a < n" "\<forall>a \<in> set G. a < n" and old: "\<forall>a < n. height h a = height h0 a"
    and ptr: "i < height h n \<longrightarrow> fwd h n i = fwd h0 (pred h0 i L) i \<and> fwd h (pred h0 i L) i = Some n"
    and other: "\<forall>a < n. i < height h0 a \<longrightarrow> (i < height h n \<longrightarrow> a \<noteq> pred h0 i L) \<longrightarrow> fwd h a i = fwd h0 a i"
  shows "chain h i 0 (lev h i (L @ n # G))"
proof -
  have lev: "lev h i L = lev h0 i L" "lev h i G = lev h0 i G"
    using old below by (auto simp: lev_def intro!: filter_cong)
  have c': "chain h0 i 0 (lev h0 i L @ lev h0 i G)" using c by (simp add: lev_append)
  have hgt: "\<forall>a \<in> set (lev h0 i L @ lev h0 i G). height h a = height h0 a"
    using sub old by (simp add: lev_append)
  show ?thesis
  proof (cases "i < height h n")
    case True
    have "distinct (0 # lev h0 i L @ n # lev h0 i G)" using dist by (auto simp: lev_def)
    moreover have "\<forall>a \<in> set (0 # lev h0 i L @ lev h0 i G). a \<noteq> pred h0 i L \<longrightarrow> fwd h a i = fwd h0 a i"
      using sub other by (simp add: lev_append)
    ultimately have "chain h i 0 (lev h0 i L @ n # lev h0 i G)"
      using True len ptr hgt by (intro splice_chain [OF c']) (simp_all add: pred_def)
    then show ?thesis using True by (simp add: lev_append lev lev_Cons)
  next
    case False
    then have "\<forall>a \<in> set (0 # lev h0 i L @ lev h0 i G). fwd h a i = fwd h0 a i"
      using sub other by (simp add: lev_append)
    then have "chain h i 0 (lev h0 i L @ lev h0 i G)" using len hgt by (intro chain_cong [OF c']) simp_all
    then show ?thesis using False by (simp add: lev_append lev lev_Cons)
  qed
qed

theorem insert_node_inv:
  assumes inv: "mt_inv m ord"
  obtains m' ord' where "insert_node coins k v t s sz m = Some m'" "mt_inv m' ord'"
    "entries_at (heap m') ord' = ins_version \<lparr>ekey = k, evalue = v, etomb = t, eseq = s\<rparr> (entries_at (heap m) ord)"
    "max_height m' = max_height m" "approx_bytes m' = approx_bytes m + sz"
proof -
  let ?e = "\<lparr>ekey = k, evalue = v, etomb = t, eseq = s\<rparr>"
  define L where "L = before (heap m) k s ord"
  define G where "G = behind (heap m) k s ord"
  define lvl where "lvl = random_level (max_height m) 1 coins"
  define n where "n = length (heap m)"
  have ord: "ord = L @ G" by (simp add: L_def G_def before_behind)
  have mh: "1 \<le> lvl" "lvl \<le> max_height m"
    using inv random_level_range [of 1 "max_height m" coins] by (auto simp: lvl_def mt_inv_def)
  have dist: "distinct (0 # L @ n # G)" and set_ord: "set (L @ G) = {1..<n}"
    using inv by (auto simp: mt_inv_def ord n_def)
  obtain h where h: "insert_node coins k v t s sz m = Some (m\<lparr>heap := h, current_height := max lvl (current_height m),
       approx_bytes := approx_bytes m + sz\<rparr>)"
    and len: "length h = Suc n" and new: "node_entry (h ! n) = ?e" "height h n = lvl"
    and old: "\<And>a. a < n \<Longrightarrow> node_entry (h ! a) = node_entry (heap m ! a) \<and> height h a = height (heap m) a"
    and ptr: "\<And>i. i < lvl \<Longrightarrow> fwd h n i = fwd (heap m) (pred (heap m) i L) i \<and> fwd h (pred (heap m) i L) i = Some n"
    and other: "\<And>a i. a < n \<Longrightarrow> i < height (heap m) a \<Longrightarrow> i < lvl \<longrightarrow> a \<noteq> pred (heap m) i L \<Longrightarrow> fwd h a i = fwd (heap m) a i"
    using insert_node_heap [OF inv L_def lvl_def n_def] by blast
  have below: "\<forall>a \<in> set L. a < n" "\<forall>a \<in> set G. a < n" using set_ord by auto
  have n0: "0 < n" using inv by (simp add: mt_inv_def n_def)
  have chains: "chain h i 0 (lev h i (L @ n # G))" if i: "i < max_height m" for i
  proof (rule splice_level)
    show "chain (heap m) i 0 (lev (heap m) i (L @ G))" using inv i by (simp add: mt_inv_def ord)
    show "\<forall>a \<in> set (0 # lev (heap m) i (L @ G)). a < n \<and> i < height (heap m) a"
      using set_ord inv i n0 by (auto simp: lev_def mt_inv_def)
  qed (use dist len old below new(2) ptr other n_def in simp_all)
  have "entries_at h (L @ n # G) = entries_at (heap m) L @ ?e # entries_at (heap m) G"
    using old below new(1) by auto
  also have "\<dots> = ins_version ?e (entries_at (heap m) ord)"
    using ins_version_same_place [of ?e "target k s"]
    by (simp add: L_def G_def before_entries ins_version_def target_def)
  finally have ents: "entries_at h (L @ n # G) = ins_version ?e (entries_at (heap m) ord)" .
  have srt: "ent_sorted (entries_at h (L @ n # G))"
    unfolding ents using inv by (intro ins_version_sorted) (simp add: mt_inv_def)
  have hgt: "\<forall>a \<in> set (L @ n # G). 1 \<le> height h a \<and> height h a \<le> max lvl (current_height m)"
  proof -
    have "\<forall>a \<in> set (L @ G). 1 \<le> height (heap m) a \<and> height (heap m) a \<le> current_height m"
      using inv unfolding mt_inv_def ord by blast
    then show ?thesis using old below new(2) mh(1) by (simp add: ball_Un le_max_iff_disj)
  qed
  have set: "set (L @ n # G) = {1..<length h}" using set_ord n0 len by auto
  have "h \<noteq> []" using len by auto
  show thesis
  proof (rule that)
    show "mt_inv (m\<lparr>heap := h, current_height := max lvl (current_height m), approx_bytes := approx_bytes m + sz\<rparr>) (L @ n # G)"
      using inv \<open>h \<noteq> []\<close> old [OF n0] mh dist set srt hgt chains unfolding mt_inv_def
      by (simp add: le_max_iff_disj)
  qed (use h ents in simp_all)
qed

section \<open>Reading\<close>

lemma lev_0:
  assumes "mt_inv m ord" "set as \<subseteq> set ord"
  shows "lev (heap m) 0 as = as"
proof -
  have "\<forall>a \<in> set ord. 1 \<le> height (heap m) a" using assms(1) by (simp add: mt_inv_def)
  with assms(2) show ?thesis unfolding lev_def by (intro filter_True) force
qed

lemma chain_0:
  assumes "mt_inv m ord"
  shows "chain (heap m) 0 0 ord"
proof -
  have "0 < max_height m" "\<forall>i < max_height m. chain (heap m) i 0 (lev (heap m) i ord)"
    using assms by (auto simp: mt_inv_def)
  with lev_0 [OF assms, of ord] show ?thesis by auto
qed

text \<open>The search returns the node whose level-0 successor starts the versions not before the target.\<close>

lemma search_spec:
  assumes inv: "mt_inv m ord"
  obtains x where "search (heap m) k s (current_height m) 0 = Some x" "x < length (heap m)" "0 < height (heap m) x"
    "chain (heap m) 0 x (behind (heap m) k s ord)"
proof -
  let ?h = "heap m" and ?L = "before (heap m) k s ord" and ?G = "behind (heap m) k s ord"
  have found: "search ?h k s (current_height m) 0 = Some (pred ?h 0 ?L)"
    using mt_inv_descend [OF inv _ _ refl, of "replicate (max_height m) 0" k s]
    by (auto simp: search_descend [of _ _ _ _ _ "replicate (max_height m) 0"])
  have all: "lev ?h 0 ?L = ?L"
    by (rule lev_0 [OF inv]) (auto simp: before_def dest: set_takeWhileD)
  have "chain ?h 0 0 (?L @ ?G)" using chain_0 [OF inv] by (simp add: before_behind)
  then have chain: "chain ?h 0 (last (0 # ?L)) ?G" by (simp add: chain_append)
  have "last (0 # ?L) = 0 \<or> last (0 # ?L) \<in> set ord"
    using before_behind [of ?h k s ord] last_in_set [of ?L] by (metis Un_iff last.simps set_append)
  moreover have "\<forall>a \<in> set ord. a < length ?h \<and> 1 \<le> height ?h a" "0 < length ?h" "0 < height ?h 0"
    using inv by (auto simp: mt_inv_def)
  ultimately have "last (0 # ?L) < length ?h \<and> 0 < height ?h (last (0 # ?L))" by (metis less_le_trans zero_less_one)
  then show thesis using that found chain all by (simp add: pred_def)
qed

lemma chain_load:
  assumes "chain h i x as" "x < length h" "i < height h x"
  shows "load_fwd h x i = Some (case as of [] \<Rightarrow> None | a # _ \<Rightarrow> Some a)"
  using assms by (cases as) (auto simp: load_fwd_def chain_Nil chain_Cons)

lemma raw_from_chain:
  assumes "chain h 0 x as" "x < length h" "0 < height h x"
  shows "raw_from h (case as of [] \<Rightarrow> None | a # _ \<Rightarrow> Some a) = Some (entries_at h as)"
  using assms
proof (induction as arbitrary: x)
  case Nil
  then show ?case by (simp add: raw_from.simps)
next
  case (Cons a as)
  then have "chain h 0 a as" "a < length h" "0 < height h a" by (auto simp: chain_Cons)
  with Cons.IH [OF this] show ?case
    by (simp add: raw_from.simps [of h "Some a"] chain_load)
qed

text \<open>Looking a key up at the place of its newest visible version, in a sorted run.\<close>

lemma lookup_run_dropWhile:
  assumes "ent_sorted es"
  shows "lookup_run es k s = (case dropWhile (\<lambda>x. ent_less x (target k s)) es of [] \<Rightarrow> None
     | e # _ \<Rightarrow> if ekey e = k then Some e else None)"
  using assms
proof (induction es)
  case (Cons e es)
  show ?case
  proof (cases "ent_less e (target k s)")
    case True
    then show ?thesis using Cons by (auto simp: ent_less_def target_def)
  next
    case False
    then have e: "k < ekey e \<or> ekey e = k \<and> eseq e \<le> s" by (auto simp: ent_le_def target_def)
    show ?thesis
    proof (cases "ekey e = k")
      case False
      with Cons.prems e have "lookup_run es k s = None"
        by (intro lookup_run_no_key) (auto simp: ent_le_def)
      with False \<open>\<not> ent_less e (target k s)\<close> show ?thesis by (simp del: not_ent_less)
    qed (use e False in \<open>auto simp del: not_ent_less\<close>)
  qed
qed simp

theorem mt_lookup_spec:
  assumes inv: "mt_inv m ord"
  shows "mt_lookup k s m = Some (run_status (entries_at (heap m) ord) k s)"
proof -
  obtain x where x: "search (heap m) k s (current_height m) 0 = Some x" "x < length (heap m)" "0 < height (heap m) x"
    "chain (heap m) 0 x (behind (heap m) k s ord)" using search_spec [OF inv] by blast
  have srt: "ent_sorted (entries_at (heap m) ord)" using inv by (simp add: mt_inv_def)
  show ?thesis
    unfolding run_status_def lookup_run_dropWhile [OF srt] before_entries(2) [symmetric]
    using x chain_load [OF x(4,2,3)]
    by (cases "behind (heap m) k s ord")
      (auto simp: mt_lookup_def chain_Cons status_of_def node_entry_def Let_def)
qed

theorem raw_entries_spec:
  assumes inv: "mt_inv m ord"
  shows "raw_entries m = Some (entries_at (heap m) ord)"
    and "raw_entries_from k m = Some (dropWhile (\<lambda>e. ekey e < k) (entries_at (heap m) ord))"
proof -
  have h: "0 < length (heap m)" "0 < height (heap m) 0" using inv by (auto simp: mt_inv_def)
  note c = chain_0 [OF inv]
  show "raw_entries m = Some (entries_at (heap m) ord)"
    using chain_load [OF c h(1,2)] raw_from_chain [OF c h(1,2)] by (simp add: raw_entries_def raw_begin_def)
  obtain x where x: "search (heap m) k UINT64_MAX (current_height m) 0 = Some x" "x < length (heap m)" "0 < height (heap m) x"
    "chain (heap m) 0 x (behind (heap m) k UINT64_MAX ord)" using search_spec [OF inv] by blast
  have "ent_less e (target k UINT64_MAX) \<longleftrightarrow> ekey e < k" for e
    by (auto simp: ent_less_def target_def not_less)
  then show "raw_entries_from k m = Some (dropWhile (\<lambda>e. ekey e < k) (entries_at (heap m) ord))"
    using x(1) chain_load [OF x(4,2,3)] raw_from_chain [OF x(4,2,3)]
    by (simp add: raw_entries_from_def raw_lower_bound_def before_entries)
qed

abbreviation hd_ptr :: "nat list \<Rightarrow> nat option" where
  "hd_ptr as \<equiv> (case as of [] \<Rightarrow> None | a # _ \<Rightarrow> Some a)"

lemma ekey_node_entry [simp]: "ekey (node_entry n) = nkey n"
  by (simp add: node_entry_def)

lemma skip_key_chain:
  assumes "chain h 0 x as" "x < length h" "0 < height h x"
  shows "skip_key h cur x = Some (hd_ptr (dropWhile (\<lambda>a. nkey (h ! a) = cur) as))"
  using assms
proof (induction as arbitrary: x)
  case Nil
  then show ?case by (simp add: skip_key.simps [of h cur x] chain_load)
next
  case (Cons a as)
  then have a: "chain h 0 a as" "a < length h" "0 < height h a" by (auto simp: chain_Cons)
  with Cons.IH [OF a] chain_load [OF Cons.prems] show ?case by (simp add: skip_key.simps [of h cur x])
qed

lemma chain_split_drop:
  assumes "chain h i x as" "x < length h" "i < height h x"
  shows "\<exists>y. chain h i y (dropWhile P as) \<and> y < length h \<and> i < height h y"
  using assms
proof (induction as arbitrary: x)
  case (Cons a as)
  then show ?case by (cases "P a") (auto simp: chain_Cons)
qed auto

lemma iter_from_chain:
  assumes "chain h 0 x as" "x < length h" "0 < height h x"
  shows "iter_from h (hd_ptr as) = Some (first_versions (entries_at h as))"
  using assms
proof (induction "length as" arbitrary: x as rule: less_induct)
  case less
  show ?case
  proof (cases as)
    case Nil
    then show ?thesis by (simp add: iter_from.simps)
  next
    case (Cons a as')
    with less.prems have a: "chain h 0 a as'" "a < length h" "0 < height h a" by (auto simp: chain_Cons)
    let ?ds = "dropWhile (\<lambda>b. nkey (h ! b) = nkey (h ! a)) as'"
    have "iter_from h (hd_ptr ?ds) = Some (first_versions (entries_at h ?ds))"
    proof -
      have "\<exists>y. chain h 0 y ?ds \<and> y < length h \<and> 0 < height h y" by (rule chain_split_drop [OF a])
      moreover have "length ?ds < length as"
        using \<open>as = a # as'\<close> length_dropWhile_le [of "\<lambda>b. nkey (h ! b) = nkey (h ! a)" as'] by simp
      ultimately show ?thesis using less.hyps by blast
    qed
    then show ?thesis
      using a Cons by (simp add: iter_from.simps [of h "Some a"] skip_key_chain [OF a] dropWhile_map comp_def)
  qed
qed

theorem iter_entries_spec:
  assumes inv: "mt_inv m ord"
  shows "iter_entries m = Some (first_versions (entries_at (heap m) ord))"
proof -
  have h: "0 < length (heap m)" "0 < height (heap m) 0" using inv by (auto simp: mt_inv_def)
  show ?thesis
    using chain_load [OF chain_0 [OF inv] h] iter_from_chain [OF chain_0 [OF inv] h]
    by (simp add: iter_entries_def raw_begin_def)
qed

end
