(* ===== verification/Memtable_Spec.thy ===== *)
theory Memtable_Spec
  imports Memtable
begin

text \<open>
  What the rest of the system may rely on when it uses a memtable, as a locale: a sorted run of
  versions that \<open>put\<close> and \<open>del\<close> extend and that \<open>lookup\<close> reads. The skiplist of \<open>Memtable\<close> is shown to
  be one, and the properties of the locale's clients are stated for it.
\<close>

section \<open>The contract\<close>

locale version_map =
  fixes ok :: "'m \<Rightarrow> bool"
    and versions :: "'m \<Rightarrow> entry list"
    and put :: "'c \<Rightarrow> key \<Rightarrow> bytes \<Rightarrow> u64 \<Rightarrow> 'm \<Rightarrow> 'm option"
    and del :: "'c \<Rightarrow> key \<Rightarrow> u64 \<Rightarrow> 'm \<Rightarrow> 'm option"
    and lookup :: "key \<Rightarrow> u64 \<Rightarrow> 'm \<Rightarrow> status option"
  assumes versions_sorted: "ok m \<Longrightarrow> ent_sorted (versions m)"
    and lookup_versions: "ok m \<Longrightarrow> lookup k s m = Some (run_status (versions m) k s)"
    and put_versions: "ok m \<Longrightarrow> \<exists>m'. put c k v s m = Some m' \<and> ok m' \<and>
      versions m' = ins_version \<lparr>ekey = k, evalue = v, etomb = False, eseq = s\<rparr> (versions m)"
    and del_versions: "ok m \<Longrightarrow> \<exists>m'. del c k s m = Some m' \<and> ok m' \<and>
      versions m' = ins_version \<lparr>ekey = k, evalue = [], etomb = True, eseq = s\<rparr> (versions m)"
begin

lemma put_lookup:
  assumes "ok m" "put c k v s m = Some m'" "s \<le> t" "\<forall>e \<in> set (versions m). ekey e = k \<longrightarrow> eseq e \<le> s"
  shows "lookup k t m' = Some (Found v)"
  using put_versions [OF assms(1), of c k v s] assms(2)
    lookup_ins_version_new [of "versions m" "\<lparr>ekey = k, evalue = v, etomb = False, eseq = s\<rparr>" t] assms(3,4)
  by (auto simp: lookup_versions run_status_def status_of_def)

lemma del_lookup:
  assumes "ok m" "del c k s m = Some m'" "s \<le> t" "\<forall>e \<in> set (versions m). ekey e = k \<longrightarrow> eseq e \<le> s"
  shows "lookup k t m' = Some Deleted"
  using del_versions [OF assms(1), of c k s] assms(2)
    lookup_ins_version_new [of "versions m" "\<lparr>ekey = k, evalue = [], etomb = True, eseq = s\<rparr>" t] assms(3,4)
  by (auto simp: lookup_versions run_status_def status_of_def)

lemma put_other:
  assumes "ok m" "put c k v s m = Some m'" "k' \<noteq> k \<or> t < s"
  shows "lookup k' t m' = lookup k' t m"
  using put_versions [OF assms(1), of c k v s] assms lookup_ins_version_other
  by (auto simp: lookup_versions run_status_def)

lemma del_other:
  assumes "ok m" "del c k s m = Some m'" "k' \<noteq> k \<or> t < s"
  shows "lookup k' t m' = lookup k' t m"
  using del_versions [OF assms(1), of c k s] assms lookup_ins_version_other
  by (auto simp: lookup_versions run_status_def)

lemma lookup_newest:
  assumes "ok m"
  shows "if visible (set (versions m)) k s = {} then lookup k s m = Some NotFound
    else \<exists>e. newest (set (versions m)) k s e \<and> lookup k s m = Some (status_of e)"
  using run_status_newest [OF versions_sorted [OF assms], of k s] by (auto simp: lookup_versions [OF assms])

end

section \<open>The skiplist keeps it\<close>

definition mt_ok :: "memtable \<Rightarrow> bool" where
  "mt_ok m \<longleftrightarrow> (\<exists>ord. mt_inv m ord)"

definition mt_versions :: "memtable \<Rightarrow> entry list" where
  "mt_versions m = (case raw_entries m of Some es \<Rightarrow> es | None \<Rightarrow> [])"

lemma mt_versions_inv: "mt_inv m ord \<Longrightarrow> mt_versions m = entries_at (heap m) ord"
  by (simp add: mt_versions_def raw_entries_spec(1))

lemma mt_inv_sorted: "mt_inv m ord \<Longrightarrow> ent_sorted (entries_at (heap m) ord)"
  by (simp add: mt_inv_def)

lemma mt_ok_new: "1 \<le> mh \<Longrightarrow> mt_ok (memtable_new mh)"
  unfolding mt_ok_def
  by (rule exI [of _ "[]"]) (auto simp: mt_inv_def memtable_new_def mk_node_def lev_def chain_Nil)

lemma mt_versions_new: "1 \<le> mh \<Longrightarrow> mt_versions (memtable_new mh) = []"
  by (simp add: mt_versions_def raw_entries_def raw_begin_def memtable_new_def mk_node_def load_fwd_def raw_from.simps)

lemma insert_node_versions:
  assumes "mt_ok m"
  shows "\<exists>m'. insert_node c k v t s sz m = Some m' \<and> mt_ok m' \<and> approx_bytes m' = approx_bytes m + sz \<and>
    mt_versions m' = ins_version \<lparr>ekey = k, evalue = v, etomb = t, eseq = s\<rparr> (mt_versions m)"
proof -
  obtain ord where inv: "mt_inv m ord" using assms by (auto simp: mt_ok_def)
  obtain m' ord' where "insert_node c k v t s sz m = Some m'" "mt_inv m' ord'" "approx_bytes m' = approx_bytes m + sz"
    "entries_at (heap m') ord' = ins_version \<lparr>ekey = k, evalue = v, etomb = t, eseq = s\<rparr> (entries_at (heap m) ord)"
    by (rule insert_node_inv [OF inv])
  then show ?thesis using inv by (auto simp: mt_ok_def mt_versions_inv)
qed

interpretation skiplist: version_map mt_ok mt_versions mt_put mt_del mt_lookup
proof unfold_locales
  show "ent_sorted (mt_versions m)" if "mt_ok m" for m
    using that by (auto simp: mt_ok_def mt_versions_inv mt_inv_sorted)
  show "mt_lookup k s m = Some (run_status (mt_versions m) k s)" if "mt_ok m" for m k s
    using that by (auto simp: mt_ok_def mt_versions_inv mt_lookup_spec)
  show "\<exists>m'. mt_put c k v s m = Some m' \<and> mt_ok m' \<and>
      mt_versions m' = ins_version \<lparr>ekey = k, evalue = v, etomb = False, eseq = s\<rparr> (mt_versions m)"
    if "mt_ok m" for m c k v s
    using insert_node_versions [OF that] unfolding mt_put_def by blast
  show "\<exists>m'. mt_del c k s m = Some m' \<and> mt_ok m' \<and>
      mt_versions m' = ins_version \<lparr>ekey = k, evalue = [], etomb = True, eseq = s\<rparr> (mt_versions m)"
    if "mt_ok m" for m c k s
    using insert_node_versions [OF that] unfolding mt_del_def by blast
qed

section \<open>Sequences of writes\<close>

text \<open>A write is an entry and the coin flips its level comes from.\<close>

fun mt_apply :: "(bool list \<times> entry) list \<Rightarrow> memtable \<Rightarrow> memtable option" where
  "mt_apply [] m = Some m"
| "mt_apply ((c, e) # ws) m =
     (case (if etomb e then mt_del c (ekey e) (eseq e) m else mt_put c (ekey e) (evalue e) (eseq e) m) of
        None \<Rightarrow> None | Some m' \<Rightarrow> mt_apply ws m')"

definition write_bytes :: "entry \<Rightarrow> nat" where
  "write_bytes e = length (ekey e) + (if etomb e then 0 else length (evalue e)) + kNodeOverhead"

lemma mt_write:
  assumes "mt_ok m"
  shows "\<exists>m'. (if etomb e then mt_del c (ekey e) (eseq e) m else mt_put c (ekey e) (evalue e) (eseq e) m) = Some m' \<and>
    mt_ok m' \<and> approx_bytes m' = approx_bytes m + write_bytes e \<and> mt_versions m' = ins_version (stored e) (mt_versions m)"
  using insert_node_versions [OF assms, of c "ekey e" "[]" True "eseq e" "length (ekey e) + kNodeOverhead"]
    insert_node_versions [OF assms, of c "ekey e" "evalue e" False "eseq e" "length (ekey e) + length (evalue e) + kNodeOverhead"]
  by (cases e) (auto simp: mt_put_def mt_del_def stored_def write_bytes_def)

lemma mt_apply_ok:
  assumes "mt_ok m"
  shows "\<exists>m'. mt_apply ws m = Some m' \<and> mt_ok m' \<and> approx_bytes m' = approx_bytes m + sum_list (map (write_bytes \<circ> snd) ws) \<and>
    mt_versions m' = fold (\<lambda>(c, e). ins_version (stored e)) ws (mt_versions m)"
  using assms
proof (induction ws arbitrary: m)
  case (Cons w ws)
  obtain c e where w: "w = (c, e)" by (cases w)
  from mt_write [OF Cons.prems, of e c] obtain m1 where m1:
    "(if etomb e then mt_del c (ekey e) (eseq e) m else mt_put c (ekey e) (evalue e) (eseq e) m) = Some m1"
    "mt_ok m1" "approx_bytes m1 = approx_bytes m + write_bytes e" "mt_versions m1 = ins_version (stored e) (mt_versions m)" by blast
  from Cons.IH [OF m1(2)] m1 w show ?case by auto
qed simp

lemma mset_fold_ins:
  "mset (fold (\<lambda>(c, e). ins_version (stored e)) ws es) = mset es + mset (map (stored \<circ> snd) ws)"
  by (induction ws arbitrary: es) (auto simp: mset_ins_version)

text \<open>
  C33. Whatever writes a fresh memtable of height at least 1 gets and whatever levels its coin flips
  give, every pointer access is in range and every loop ends; the raw iterator yields exactly the
  written versions in \<open>(key, seq descending)\<close> order, \<open>lookup\<close> at any snapshot is the lookup in that set
  of versions, the default iterator yields the newest version of each key, and \<open>approx_bytes\<close> is the
  sum of the sizes.
\<close>

theorem memtable_refines_versions:
  assumes "1 \<le> mh"
  shows "\<exists>m es. mt_apply ws (memtable_new mh) = Some m \<and> raw_entries m = Some es \<and>
    ent_sorted es \<and> mset es = mset (map (stored \<circ> snd) ws) \<and>
    (\<forall>k s. mt_lookup k s m = Some (run_status es k s)) \<and>
    (\<forall>k. raw_entries_from k m = Some (dropWhile (\<lambda>e. ekey e < k) es)) \<and>
    iter_entries m = Some (first_versions es) \<and>
    approx_bytes m = sum_list (map (write_bytes \<circ> snd) ws)"
proof -
  obtain m where m: "mt_apply ws (memtable_new mh) = Some m" "mt_ok m"
    "approx_bytes m = sum_list (map (write_bytes \<circ> snd) ws)"
    "mt_versions m = fold (\<lambda>(c, e). ins_version (stored e)) ws []"
    using mt_apply_ok [OF mt_ok_new [OF assms], of ws] mt_versions_new [OF assms] by (auto simp: memtable_new_def)
  obtain ord where inv: "mt_inv m ord" using m(2) by (auto simp: mt_ok_def)
  have "mset (mt_versions m) = mset (map (stored \<circ> snd) ws)" using m(4) by (simp add: mset_fold_ins)
  moreover have "ent_sorted (mt_versions m)" "\<forall>k s. mt_lookup k s m = Some (run_status (mt_versions m) k s)"
    using skiplist.versions_sorted skiplist.lookup_versions m(2) by auto
  moreover have "raw_entries m = Some (mt_versions m)" "iter_entries m = Some (first_versions (mt_versions m))"
    "\<forall>k. raw_entries_from k m = Some (dropWhile (\<lambda>e. ekey e < k) (mt_versions m))"
    using inv by (simp_all add: mt_versions_inv raw_entries_spec iter_entries_spec)
  ultimately show ?thesis using m(1,3) by blast
qed

theorem memtable_refines_versions_witness:
  "\<exists>m es. mt_apply [([True, False], \<lparr>ekey = [1], evalue = [2], etomb = False, eseq = 7\<rparr>),
       ([], \<lparr>ekey = [1], evalue = [9], etomb = True, eseq = 8\<rparr>)] (memtable_new 12) = Some m \<and> raw_entries m = Some es \<and>
     length es = 2"
proof -
  let ?ws = "[([True, False], \<lparr>ekey = [1], evalue = [2], etomb = False, eseq = 7\<rparr>),
       ([], \<lparr>ekey = [1], evalue = [9], etomb = True, eseq = 8\<rparr>)]"
  obtain m es where "mt_apply ?ws (memtable_new 12) = Some m" "raw_entries m = Some es"
    "mset es = mset (map (stored \<circ> snd) ?ws)"
    using memtable_refines_versions [of 12 ?ws] by auto
  moreover from this(3) have "length es = length ?ws" using mset_eq_length by fastforce
  ultimately show ?thesis by auto
qed

section \<open>Reads after writes\<close>

text \<open>
  After a \<open>put\<close> with a sequence number not below those of its key, \<open>lookup\<close> at any snapshot from
  that number on returns the value; every other key, and every snapshot below the number, reads as
  before.
\<close>

lemma memtable_put_reads:
  assumes "mt_ok m" "\<forall>e \<in> set (mt_versions m). ekey e = k \<longrightarrow> eseq e \<le> s"
  shows "\<exists>m'. mt_put c k v s m = Some m' \<and> mt_ok m' \<and>
    (\<forall>k' t. mt_lookup k' t m' = (if k' = k \<and> s \<le> t then Some (Found v) else mt_lookup k' t m))"
proof -
  obtain m' where m': "mt_put c k v s m = Some m'" "mt_ok m'" using skiplist.put_versions [OF assms(1)] by blast
  with skiplist.put_lookup [OF assms(1) m'(1) _ assms(2)] skiplist.put_other [OF assms(1) m'(1)]
  show ?thesis by (auto simp: not_le)
qed

text \<open>The same for \<open>del\<close>: the key reads as deleted, not as absent.\<close>

lemma memtable_del_reads:
  assumes "mt_ok m" "\<forall>e \<in> set (mt_versions m). ekey e = k \<longrightarrow> eseq e \<le> s"
  shows "\<exists>m'. mt_del c k s m = Some m' \<and> mt_ok m' \<and>
    (\<forall>k' t. mt_lookup k' t m' = (if k' = k \<and> s \<le> t then Some Deleted else mt_lookup k' t m))"
proof -
  obtain m' where m': "mt_del c k s m = Some m'" "mt_ok m'" using skiplist.del_versions [OF assms(1)] by blast
  with skiplist.del_lookup [OF assms(1) m'(1) _ assms(2)] skiplist.del_other [OF assms(1) m'(1)]
  show ?thesis by (auto simp: not_le)
qed

end
