(* ===== verification/Bloom.thy ===== *)
theory Bloom
  imports Coding
begin

text \<open>
  \<open>include/keystone/bloom.h\<close>, \<open>src/bloom.cpp\<close>: the bloom filter. Sizes are 64-bit words as in
  the code; the bit array is a list of bytes.
\<close>

section \<open>The code\<close>

record bloom =
  bits :: bytes
  m_bits :: u64
  bk :: int

text \<open>
  \<open>lround(bits_per_key * 0.6931)\<close> in integer arithmetic: round half away from zero. The result
  is clamped to 1..30; for every \<open>bits_per_key\<close> whose rounded product lies in that range the
  product is at least 0.0001 away from a half, far more than the error of the multiplication in
  double precision.
\<close>

definition lround_ln2 :: "int \<Rightarrow> int" where
  "lround_ln2 b = sgn b * ((\<bar>b\<bar> * 6931 + 5000) div 10000)"

text \<open>\<open>Bloom::Bloom(size_t key_count, int bits_per_key)\<close>.\<close>

definition bloom_new :: "nat \<Rightarrow> int \<Rightarrow> bloom" where
  "bloom_new key_count bits_per_key =
     (let key_count = (if key_count = 0 then 1 else key_count);
          raw = to_u64 key_count * word_of_int bits_per_key;
          m = ((raw + 7) div 8) * 8;
          m = (if m < 8 then 8 else m);
          raw_k = lround_ln2 bits_per_key in
      \<lparr>bits = replicate (unat (m div 8)) 0, m_bits = m, bk = max 1 (min 30 raw_k)\<rparr>)"

text \<open>\<open>Bloom::hash\<close>: FNV-1a, the two halves of the 64-bit state.\<close>

definition fnv1a :: "key \<Rightarrow> u64" where
  "fnv1a key = foldl (\<lambda>h c. (h XOR ucast c) * 0x00000100000001B3) 0xcbf29ce484222325 key"

definition bloom_hash :: "key \<Rightarrow> u32 \<times> u32" where
  "bloom_hash key = (let h = fnv1a key in (ucast h, ucast (drop_bit 32 h)))"

text \<open>
  The bit index of round \<open>i\<close>. The remainder by \<open>m_bits_ = 0\<close> is undefined in C++; callers
  keep \<open>m_bits_ \<ge> 8\<close>.
\<close>

definition bloom_idx :: "bloom \<Rightarrow> key \<Rightarrow> nat \<Rightarrow> u64" where
  "bloom_idx b key i =
     (let (h1, h2) = bloom_hash key in (ucast h1 + word_of_nat i * ucast h2) mod m_bits b)"

definition set_bit_at :: "bytes \<Rightarrow> u64 \<Rightarrow> bytes" where
  "set_bit_at bs idx =
     (let j = unat (idx div 8) in bs[j := bs ! j OR push_bit (unat (idx mod 8)) 1])"

definition test_bit_at :: "bytes \<Rightarrow> u64 \<Rightarrow> bool" where
  "test_bit_at bs idx = (bs ! unat (idx div 8) AND push_bit (unat (idx mod 8)) 1 \<noteq> 0)"

text \<open>\<open>Bloom::add\<close> and \<open>Bloom::may_contain\<close>: the loops over \<open>i < k_\<close>.\<close>

fun add_loop :: "bloom \<Rightarrow> key \<Rightarrow> nat list \<Rightarrow> bloom" where
  "add_loop b key [] = b"
| "add_loop b key (i # is) = add_loop (b\<lparr>bits := set_bit_at (bits b) (bloom_idx b key i)\<rparr>) key is"

definition bloom_add :: "bloom \<Rightarrow> key \<Rightarrow> bloom" where
  "bloom_add b key = add_loop b key [0..<nat (bk b)]"

fun test_loop :: "bloom \<Rightarrow> key \<Rightarrow> nat list \<Rightarrow> bool" where
  "test_loop b key [] = True"
| "test_loop b key (i # is) =
     (if \<not> test_bit_at (bits b) (bloom_idx b key i) then False else test_loop b key is)"

definition may_contain :: "bloom \<Rightarrow> key \<Rightarrow> bool" where
  "may_contain b key = test_loop b key [0..<nat (bk b)]"

definition bloom_serialize :: "bloom \<Rightarrow> bytes" where
  "bloom_serialize b = put_u32_le (word_of_int (bk b)) @ put_u64_le (m_bits b) @ bits b"

datatype bloom_error = DataTooShort | TruncatedBitArray

definition bloom_load :: "bytes \<Rightarrow> bloom_error + bloom" where
  "bloom_load data =
     (if length data < 12 then Inl DataTooShort
      else let k = sint (get_u32_le data);
               m = get_u64_le (drop 4 data);
               byte_count = unat ((m + 7) div 8) in
        if length data < 12 + byte_count then Inl TruncatedBitArray
        else Inr \<lparr>bits = take byte_count (drop 12 data), m_bits = m, bk = k\<rparr>)"

text \<open>The filter an SSTable is written with: all keys added to a fresh filter.\<close>

definition bloom_of_keys :: "key list \<Rightarrow> bloom" where
  "bloom_of_keys keys = foldl bloom_add (bloom_new (length keys) 10) keys"

section \<open>Well-formedness\<close>

definition bloom_wf :: "bloom \<Rightarrow> bool" where
  "bloom_wf b \<longleftrightarrow> unat (m_bits b) = 8 * length (bits b) \<and> 0 < length (bits b) \<and>
     0 \<le> bk b \<and> bk b < 2 ^ 31"

lemma unat_div8: "unat ((w :: u64) div 8) = unat w div 8"
  by (simp add: unat_div_distrib)

lemma unat_mod8: "unat ((w :: u64) mod 8) = unat w mod 8"
  by (simp add: unat_mod_distrib)

lemma bloom_wf_nat: "bloom_wf b \<Longrightarrow> unat (m_bits b) = 8 * length (bits b) \<and> 0 < length (bits b)"
  by (simp add: bloom_wf_def)

text \<open>Every index the loops compute lies in the bit array.\<close>

lemma bloom_idx_in_range:
  assumes "bloom_wf b"
  shows "unat (bloom_idx b key i div 8) < length (bits b)"
proof -
  obtain h1 h2 where "bloom_hash key = (h1, h2)" by force
  then obtain x where x: "bloom_idx b key i = x mod m_bits b"
    by (simp add: bloom_idx_def)
  have "unat (x mod m_bits b) < unat (m_bits b)"
    using bloom_wf_nat [OF assms] by (simp add: unat_mod_distrib)
  then show ?thesis using bloom_wf_nat [OF assms] unfolding x unat_div8 by linarith
qed

lemma test_bit_at_bit: "test_bit_at bs idx \<longleftrightarrow> bit (bs ! unat (idx div 8)) (unat (idx mod 8))"
  by (simp add: test_bit_at_def bit_iff_and_push_bit_not_eq_0)

lemma set_bit_at_length [simp]: "length (set_bit_at bs idx) = length bs"
  by (simp add: set_bit_at_def Let_def)

lemma mod8_less: "unat ((idx :: u64) mod 8) < 8"
  by (simp add: unat_mod8)

lemma test_set_bit_at_same: "unat (idx div 8) < length bs \<Longrightarrow> test_bit_at (set_bit_at bs idx) idx"
  using mod8_less [of idx] by (simp add: test_bit_at_bit set_bit_at_def Let_def bit_simps)

lemma test_set_bit_at_mono: "test_bit_at bs j \<Longrightarrow> test_bit_at (set_bit_at bs idx) j"
  by (cases "unat (idx div 8) < length bs")
    (auto simp: test_bit_at_bit set_bit_at_def Let_def bit_simps nth_list_update list_update_beyond)

lemma bloom_idx_bits [simp]: "bloom_idx (b\<lparr>bits := bs\<rparr>) = bloom_idx b"
  by (simp add: fun_eq_iff bloom_idx_def)

lemma add_loop_frame [simp]: "m_bits (add_loop b key is) = m_bits b" "bk (add_loop b key is) = bk b"
  "length (bits (add_loop b key is)) = length (bits b)"
  by (induction b key "is" rule: add_loop.induct) simp_all

lemma bloom_idx_add_loop [simp]: "bloom_idx (add_loop b key is) = bloom_idx b"
  by (simp add: fun_eq_iff bloom_idx_def)

lemma add_loop_mono: "test_bit_at (bits b) j \<Longrightarrow> test_bit_at (bits (add_loop b key is)) j"
  by (induction b key "is" rule: add_loop.induct) (simp_all add: test_set_bit_at_mono)

lemma bloom_wf_bits: "bloom_wf b \<Longrightarrow> length bs = length (bits b) \<Longrightarrow> bloom_wf (b\<lparr>bits := bs\<rparr>)"
  by (simp add: bloom_wf_def)

lemma add_loop_sets:
  "bloom_wf b \<Longrightarrow> i \<in> set is \<Longrightarrow> test_bit_at (bits (add_loop b key is)) (bloom_idx b key i)"
proof (induction b key "is" rule: add_loop.induct)
  case (1 b key)
  then show ?case by simp
next
  case (2 b key j "is")
  let ?b = "b\<lparr>bits := set_bit_at (bits b) (bloom_idx b key j)\<rparr>"
  have wf: "bloom_wf ?b" using "2.prems"(1) by (rule bloom_wf_bits) simp
  show ?case
  proof (cases "i = j")
    case True
    have "test_bit_at (bits ?b) (bloom_idx b key j)"
      using bloom_idx_in_range [OF "2.prems"(1)] by (simp add: test_set_bit_at_same)
    with True show ?thesis by (simp add: add_loop_mono)
  next
    case False
    with "2.IH" [OF wf] "2.prems"(2) show ?thesis by simp
  qed
qed

lemma test_loop_all: "test_loop b key is \<longleftrightarrow> (\<forall>i \<in> set is. test_bit_at (bits b) (bloom_idx b key i))"
  by (induction "is") auto

lemma bloom_add_wf: "bloom_wf b \<Longrightarrow> bloom_wf (bloom_add b key)"
  by (simp add: bloom_wf_def bloom_add_def)

lemma bloom_add_same: "bloom_wf b \<Longrightarrow> may_contain (bloom_add b key) key"
  by (simp add: may_contain_def bloom_add_def test_loop_all add_loop_sets)

lemma bloom_add_mono: "may_contain b key \<Longrightarrow> may_contain (bloom_add b key') key"
  by (simp add: may_contain_def bloom_add_def test_loop_all add_loop_mono)

lemma foldl_bloom_add:
  "bloom_wf b \<Longrightarrow> bloom_wf (foldl bloom_add b keys) \<and>
     (\<forall>k. k \<in> set keys \<or> may_contain b k \<longrightarrow> may_contain (foldl bloom_add b keys) k)"
  by (induction keys arbitrary: b) (auto simp: bloom_add_wf bloom_add_same bloom_add_mono)

lemma bloom_new_wf: "bloom_wf (bloom_new n bpk)"
proof -
  define x where "x = to_u64 (if n = 0 then 1 else n) * word_of_int bpk + 7"
  define m where "m = (x div 8) * 8"
  have "8 * (unat x div 8) < 2 ^ 64"
    using unat_u64_less [of x] mult_div_mod_eq [of 8 "unat x"] by linarith
  then have m: "unat m = 8 * (unat x div 8)"
    by (simp add: m_def unat_word_ariths unat_div8 mult.commute)
  have k: "0 \<le> max 1 (min 30 i)" "max 1 (min 30 i) < 2 ^ 31" for i :: int by (simp_all add: max_def min_def)
  show ?thesis
  proof (cases "m < 8")
    case True
    then show ?thesis using k
      by (simp add: bloom_wf_def bloom_new_def Let_def x_def [symmetric] m_def [symmetric])
  next
    case False
    then have "8 \<le> unat m" by (simp add: word_less_nat_alt)
    with m False k show ?thesis
      by (simp add: bloom_wf_def bloom_new_def Let_def unat_div8 x_def [symmetric] m_def [symmetric])
  qed
qed

text \<open>
  C26. No false negatives: after building a filter from any list of keys, with any parameters,
  \<open>may_contain\<close> answers true for each of them.
\<close>

theorem bloom_no_false_negative:
  "key \<in> set keys \<Longrightarrow> may_contain (foldl bloom_add (bloom_new n bits_per_key) keys) key"
  using foldl_bloom_add [OF bloom_new_wf] by blast

theorem bloom_no_false_negative_witness:
  "may_contain (foldl bloom_add (bloom_new 2 10) [[1], [2, 3]]) [2, 3]"
  by (rule bloom_no_false_negative) simp

lemma bloom_serialize_length: "length (bloom_serialize b) = 12 + length (bits b)"
  by (simp add: bloom_serialize_def)

lemma bloom_byte_count:
  assumes "bloom_wf b"
  shows "unat ((m_bits b + 7) div 8) = length (bits b)"
proof -
  note unat_u64_less [of "m_bits b"]
  then have "unat (m_bits b) + 7 < 2 ^ 64" using bloom_wf_nat [OF assms] by simp
  then have "unat (m_bits b + 7) = unat (m_bits b) + 7" by (simp add: unat_word_ariths)
  then show ?thesis using bloom_wf_nat [OF assms] by (simp add: unat_div8)
qed

lemma bloom_load_serialize:
  assumes "bloom_wf b"
  shows "bloom_load (bloom_serialize b @ rest) = Inr b"
proof -
  note bloom_byte_count [OF assms]
  moreover have "sint (word_of_int (bk b) :: u32) = bk b"
    using assms by (simp add: bloom_wf_def sint_sbintrunc' signed_take_bit_int_eq_self)
  ultimately show ?thesis by (simp add: bloom_load_def bloom_serialize_def)
qed

text \<open>
  C28. Round trip: a well-formed filter read back from its serialisation is the same filter,
  also when more bytes follow; shorter input is refused with an exception.
\<close>

theorem bloom_roundtrip:
  "(bloom_wf b \<longrightarrow> bloom_load (bloom_serialize b @ rest) = Inr b) \<and>
   (bloom_wf b \<and> n < length (bloom_serialize b) \<longrightarrow> (\<exists>e. bloom_load (take n (bloom_serialize b)) = Inl e))"
proof (intro conjI impI)
  assume "bloom_wf b"
  then show "bloom_load (bloom_serialize b @ rest) = Inr b" by (rule bloom_load_serialize)
next
  assume wf: "bloom_wf b \<and> n < length (bloom_serialize b)"
  show "\<exists>e. bloom_load (take n (bloom_serialize b)) = Inl e"
  proof (cases "n < 12")
    case True
    then show ?thesis by (simp add: bloom_load_def min.strict_coboundedI2)
  next
    case False
    define d where "d = take n (bloom_serialize b)"
    have "length d = n" "n < 12 + length (bits b)"
      using wf by (simp_all add: d_def bloom_serialize_length)
    moreover from False have "get_u64_le (drop 4 d) = m_bits b"
      by (simp add: d_def bloom_serialize_def)
    ultimately have "bloom_load d = Inl TruncatedBitArray"
      using False wf bloom_byte_count [of b] by (simp add: bloom_load_def)
    then show ?thesis by (auto simp: d_def)
  qed
qed

theorem bloom_roundtrip_witness:
  "bloom_load (bloom_serialize (bloom_new 3 10) @ [7]) = Inr (bloom_new 3 10)"
  using bloom_roundtrip [of "bloom_new 3 10" "[7]" 0] bloom_new_wf by blast

end
