(* ===== verification/Block_Cache.thy ===== *)
theory Block_Cache
  imports Keystone_Prelude
begin

text \<open>
  \<open>include/keystone/block_cache.h\<close>, \<open>src/block_cache.cpp\<close>: the LRU cache of SSTable blocks.
  \<open>get_or_load\<close> takes the lock twice, around the lookup and around the insertion, and loads the
  block in between without it; the two critical sections are the steps of the relation
  \<open>cache_run\<close>, which interleaves those of any number of threads.
\<close>

section \<open>The code\<close>

record cache_key =
  file_number :: int
  block_offset :: u64

record cache_entry =
  ckey :: cache_key
  cblock :: bytes
  csize :: nat

text \<open>
  \<open>map_\<close> maps a key to an iterator, a pointer to a node of \<open>lru_\<close>; nodes never change, so the
  pointer is modelled by the node it points to.
\<close>

record block_cache =
  capacity :: nat
  current_bytes :: nat
  lru :: "cache_entry list"
  cmap :: "cache_key \<Rightarrow> cache_entry option"
  hits :: u64
  misses :: u64

definition cache_new :: "nat \<Rightarrow> block_cache" where
  "cache_new capacity_bytes =
     \<lparr>capacity = capacity_bytes, current_bytes = 0, lru = [], cmap = (\<lambda>_. None), hits = 0, misses = 0\<rparr>"

text \<open>\<open>lru_.splice(lru_.begin(), lru_, it)\<close>.\<close>

definition to_front :: "cache_entry \<Rightarrow> cache_entry list \<Rightarrow> cache_entry list" where
  "to_front e es = e # remove1 e es"

text \<open>The first critical section: a hit moves the entry to the front.\<close>

definition cache_lookup :: "cache_key \<Rightarrow> block_cache \<Rightarrow> bytes option \<times> block_cache" where
  "cache_lookup key c =
     (case cmap c key of
        Some e \<Rightarrow> (Some (cblock e), c\<lparr>lru := to_front e (lru c), hits := hits c + 1\<rparr>)
      | None \<Rightarrow> (None, c))"

text \<open>The eviction loop: \<open>while (current_bytes_ > capacity_ && !lru_.empty())\<close>.\<close>

function evict :: "block_cache \<Rightarrow> block_cache" where
  "evict c =
     (if current_bytes c > capacity c \<and> lru c \<noteq> [] then
        let back = last (lru c) in
        evict (c\<lparr>current_bytes := current_bytes c - csize back, cmap := (cmap c)(ckey back := None),
                lru := butlast (lru c)\<rparr>)
      else c)"
  by pat_completeness auto
termination
  by (relation "measure (length \<circ> lru)") auto

declare evict.simps [simp del]

text \<open>The second critical section, after the load: another thread may have inserted the block.\<close>

definition cache_insert :: "cache_key \<Rightarrow> bytes \<Rightarrow> block_cache \<Rightarrow> bytes \<times> block_cache" where
  "cache_insert key block c =
     (case cmap c key of
        Some e \<Rightarrow> (cblock e, c\<lparr>lru := to_front e (lru c)\<rparr>)
      | None \<Rightarrow>
          let e = \<lparr>ckey = key, cblock = block, csize = length block\<rparr> in
          (block, evict (c\<lparr>lru := e # lru c, cmap := (cmap c)(key \<mapsto> e),
                          current_bytes := current_bytes c + csize e\<rparr>)))"

definition count_miss :: "block_cache \<Rightarrow> block_cache" where
  "count_miss c = c\<lparr>misses := misses c + 1\<rparr>"

text \<open>\<open>get_or_load\<close> of one thread alone; the loader's exception propagates.\<close>

definition get_or_load :: "cache_key \<Rightarrow> ('e + bytes) \<Rightarrow> block_cache \<Rightarrow> ('e + bytes) \<times> block_cache" where
  "get_or_load key loader c =
     (case cache_lookup key c of
        (Some b, c') \<Rightarrow> (Inr b, c')
      | (None, c') \<Rightarrow>
          (case loader of
             Inl e \<Rightarrow> (Inl e, c')
           | Inr raw \<Rightarrow> (case cache_insert key raw (count_miss c') of (b, c'') \<Rightarrow> (Inr b, c''))))"

section \<open>The invariant\<close>

definition cache_inv :: "block_cache \<Rightarrow> bool" where
  "cache_inv c \<longleftrightarrow>
     distinct (map ckey (lru c)) \<and>
     (\<forall>k e. cmap c k = Some e \<longleftrightarrow> e \<in> set (lru c) \<and> ckey e = k) \<and>
     (\<forall>e \<in> set (lru c). csize e = length (cblock e)) \<and>
     current_bytes c = sum_list (map csize (lru c))"

text \<open>The cached blocks are those of the files: \<open>src\<close> gives the block of a file at an offset.\<close>

definition coherent :: "(cache_key \<Rightarrow> bytes) \<Rightarrow> block_cache \<Rightarrow> bool" where
  "coherent src c \<longleftrightarrow> (\<forall>e \<in> set (lru c). cblock e = src (ckey e))"

lemma cache_inv_new: "cache_inv (cache_new cap)"
  by (simp add: cache_inv_def cache_new_def)

lemma cache_inv_counters [simp]:
  "cache_inv (c\<lparr>hits := h\<rparr>) = cache_inv c" "cache_inv (c\<lparr>misses := h\<rparr>) = cache_inv c"
  by (simp_all add: cache_inv_def)

lemma to_front_frame:
  assumes "e \<in> set es"
  shows "set (to_front e es) = set es" "mset (to_front e es) = mset es"
proof -
  show m: "mset (to_front e es) = mset es" using assms by (simp add: to_front_def)
  then show "set (to_front e es) = set es" by (rule mset_eq_setD)
qed

lemma cache_inv_to_front:
  assumes "cache_inv c" "e \<in> set (lru c)"
  shows "cache_inv (c\<lparr>lru := to_front e (lru c)\<rparr>)"
proof -
  have k: "mset (map ckey (to_front e (lru c))) = mset (map ckey (lru c))"
    and s: "mset (map csize (to_front e (lru c))) = mset (map csize (lru c))"
    using to_front_frame(2) [OF assms(2)] by simp_all
  have "distinct (map ckey (to_front e (lru c)))" using assms(1) mset_eq_imp_distinct_iff [OF k] by (simp add: cache_inv_def)
  moreover have "sum_list (map csize (to_front e (lru c))) = sum_list (map csize (lru c))"
    using s by (metis sum_mset_sum_list)
  ultimately show ?thesis using assms(1) by (simp add: cache_inv_def to_front_frame(1) [OF assms(2)])
qed

text \<open>
  Eviction keeps the invariant, ends within the capacity and leaves the longest prefix of the
  recency list that fits: the least recently used blocks go first, and no more than needed.
\<close>

lemma cache_inv_pop:
  assumes "cache_inv c" "lru c = es @ [b]"
  shows "cache_inv (c\<lparr>current_bytes := current_bytes c - csize b, cmap := (cmap c)(ckey b := None), lru := es\<rparr>)"
  using assms unfolding cache_inv_def by (auto simp: image_iff)

lemma evict_spec:
  assumes "cache_inv c"
  shows "cache_inv (evict c) \<and> current_bytes (evict c) \<le> capacity c \<and> capacity (evict c) = capacity c \<and>
    (\<exists>n \<le> length (lru c). lru (evict c) = take n (lru c) \<and>
      (\<forall>j. n < j \<and> j \<le> length (lru c) \<longrightarrow> capacity c < sum_list (map csize (take j (lru c)))))"
  using assms
proof (induction c rule: evict.induct)
  case (1 c)
  show ?case
  proof (cases "current_bytes c > capacity c \<and> lru c \<noteq> []")
    case True
    obtain es b where es: "lru c = es @ [b]" using True by (metis rev_exhaust)
    define c' where "c' = c\<lparr>current_bytes := current_bytes c - csize b, cmap := (cmap c)(ckey b := None), lru := es\<rparr>"
    have ev: "evict c = evict c'" using True es by (subst evict.simps) (simp add: c'_def Let_def)
    have inv: "cache_inv c'" unfolding c'_def by (rule cache_inv_pop [OF 1(2) es])
    have "cache_inv (evict c') \<and> current_bytes (evict c') \<le> capacity c' \<and> capacity (evict c') = capacity c' \<and>
      (\<exists>n \<le> length (lru c'). lru (evict c') = take n (lru c') \<and>
        (\<forall>j. n < j \<and> j \<le> length (lru c') \<longrightarrow> capacity c' < sum_list (map csize (take j (lru c')))))"
      using "1.IH" [OF True refl] inv by (simp add: es c'_def)
    then obtain n where n: "n \<le> length es" "lru (evict c) = take n (lru c)" "cache_inv (evict c)"
      "current_bytes (evict c) \<le> capacity c" "capacity (evict c) = capacity c"
      "\<forall>j. n < j \<and> j \<le> length es \<longrightarrow> capacity c < sum_list (map csize (take j es))"
      by (auto simp: ev c'_def es)
    moreover have "capacity c < sum_list (map csize (take j (lru c)))" if "n < j" "j \<le> length (lru c)" for j
    proof (cases "j \<le> length es")
      case True
      then show ?thesis using n(6) that by (simp add: es)
    next
      case False
      then have "take j (lru c) = lru c" using that by (simp add: es)
      then show ?thesis using True 1(2) \<open>current_bytes c > capacity c \<and> lru c \<noteq> []\<close> by (simp add: cache_inv_def)
    qed
    ultimately show ?thesis using es by (intro conjI exI [of _ n]) auto
  next
    case False
    then have "evict c = c" by (subst evict.simps) auto
    moreover have "current_bytes c \<le> capacity c" using False 1(2) by (cases "lru c = []") (auto simp: cache_inv_def)
    ultimately show ?thesis using 1(2) by (auto intro!: exI [of _ "length (lru c)"])
  qed
qed

lemma cache_inv_None: "cache_inv c \<Longrightarrow> cmap c key = None \<longleftrightarrow> (\<forall>e \<in> set (lru c). ckey e \<noteq> key)"
  unfolding cache_inv_def by (metis not_None_eq)

lemma cache_inv_push:
  assumes "cache_inv c" "cmap c key = None" "e = \<lparr>ckey = key, cblock = block, csize = length block\<rparr>"
  shows "cache_inv (c\<lparr>lru := e # lru c, cmap := (cmap c)(key \<mapsto> e), current_bytes := current_bytes c + length block\<rparr>)"
  using assms cache_inv_None [OF assms(1), of key] unfolding cache_inv_def by auto

lemma cache_lookup_inv:
  assumes "cache_inv c" "cache_lookup key c = (r, c')"
  shows "cache_inv c' \<and> capacity c' = capacity c \<and> current_bytes c' = current_bytes c \<and> set (lru c') = set (lru c) \<and>
    (case r of None \<Rightarrow> \<forall>e \<in> set (lru c). ckey e \<noteq> key | Some b \<Rightarrow> \<exists>e \<in> set (lru c). ckey e = key \<and> cblock e = b)"
proof (cases "cmap c key")
  case None
  then show ?thesis using assms cache_inv_None [OF assms(1), of key] by (auto simp: cache_lookup_def)
next
  case (Some e)
  then have "e \<in> set (lru c)" "ckey e = key" using assms(1) by (auto simp: cache_inv_def)
  then show ?thesis using assms Some cache_inv_to_front [OF assms(1)]
    by (auto simp: cache_lookup_def to_front_frame(1))
qed

lemma cache_insert_inv:
  assumes "cache_inv c" "current_bytes c \<le> capacity c" "cache_insert key block c = (b, c')"
  shows "cache_inv c' \<and> capacity c' = capacity c \<and> current_bytes c' \<le> capacity c' \<and>
    set (lru c') \<subseteq> set (lru c) \<union> {\<lparr>ckey = key, cblock = block, csize = length block\<rparr>} \<and>
    (b = block \<or> (\<exists>e \<in> set (lru c). ckey e = key \<and> cblock e = b))"
proof (cases "cmap c key")
  case (Some e)
  then have "e \<in> set (lru c)" "ckey e = key" using assms(1) by (auto simp: cache_inv_def)
  then show ?thesis using assms Some cache_inv_to_front [OF assms(1)]
    by (auto simp: cache_insert_def to_front_frame(1))
next
  case None
  let ?e = "\<lparr>ckey = key, cblock = block, csize = length block\<rparr>"
  let ?c = "c\<lparr>lru := ?e # lru c, cmap := (cmap c)(key \<mapsto> ?e), current_bytes := current_bytes c + length block\<rparr>"
  from evict_spec [OF cache_inv_push [OF assms(1) None refl], of block] obtain n where "cache_inv (evict ?c)" "current_bytes (evict ?c) \<le> capacity c"
    "capacity (evict ?c) = capacity c" "lru (evict ?c) = take n (?e # lru c)" by auto
  moreover have "set (take n (?e # lru c)) \<subseteq> set (?e # lru c)" by (rule set_take_subset)
  ultimately show ?thesis using assms(3) None by (auto simp: cache_insert_def Let_def)
qed

section \<open>Interleavings\<close>

text \<open>
  A run of the cache: critical sections of any threads in any order. A thread inserts what its
  loader read, which is the file's block: \<open>src key\<close>.
\<close>

inductive cache_run :: "nat \<Rightarrow> (cache_key \<Rightarrow> bytes) \<Rightarrow> block_cache \<Rightarrow> bool" for cap src where
  start: "cache_run cap src (cache_new cap)"
| lookup: "cache_run cap src c \<Longrightarrow> cache_lookup key c = (r, c') \<Longrightarrow> cache_run cap src c'"
| miss: "cache_run cap src c \<Longrightarrow> cache_run cap src (count_miss c)"
| insert: "cache_run cap src c \<Longrightarrow> cache_insert key (src key) c = (b, c') \<Longrightarrow> cache_run cap src c'"

lemma coherent_subset:
  "coherent src c \<Longrightarrow> set (lru c') \<subseteq> set (lru c) \<union> {\<lparr>ckey = k, cblock = src k, csize = n\<rparr>} \<Longrightarrow> coherent src c'"
  by (auto simp: coherent_def)

lemma cache_run_inv:
  "cache_run cap src c \<Longrightarrow> cache_inv c \<and> coherent src c \<and> capacity c = cap \<and> current_bytes c \<le> cap"
proof (induction rule: cache_run.induct)
  case start
  then show ?case by (simp add: cache_inv_new) (simp add: cache_new_def coherent_def)
next
  case (lookup c key r c')
  then show ?case using cache_lookup_inv [of c key r c'] by (auto simp: coherent_def)
next
  case (miss c)
  then show ?case by (simp add: count_miss_def coherent_def)
next
  case (insert c key b c')
  then show ?case using cache_insert_inv [of c key "src key" b c'] coherent_subset [of src c c' key] by auto
qed

lemma cache_insert_src: "cache_run cap src c \<Longrightarrow> cache_insert key (src key) c = (b, c') \<Longrightarrow> b = src key"
  using cache_insert_inv [of c key "src key" b c'] cache_run_inv [of cap src c] by (auto simp: coherent_def)

lemma cache_lookup_src: "cache_run cap src c \<Longrightarrow> cache_lookup key c = (Some b, c') \<Longrightarrow> b = src key"
  using cache_lookup_inv [of c key "Some b" c'] cache_run_inv [of cap src c] by (auto simp: coherent_def)

lemma get_or_load_run:
  assumes "cache_run cap src c"
  shows "\<exists>c'. get_or_load key (Inr (src key)) c = (Inr (src key), c') \<and> cache_run cap src c'"
proof (cases "cache_lookup key c")
  case (Pair r c1)
  then have run1: "cache_run cap src c1" using assms by (blast intro: cache_run.lookup)
  show ?thesis
  proof (cases r)
    case None
    obtain b c2 where i: "cache_insert key (src key) (count_miss c1) = (b, c2)" by force
    have "cache_run cap src (count_miss c1)" using run1 by (rule cache_run.miss)
    with i Pair None cache_insert_src show ?thesis by (auto simp: get_or_load_def intro: cache_run.insert)
  next
    case (Some b)
    then show ?thesis using Pair run1 cache_lookup_src [OF assms] by (auto simp: get_or_load_def)
  qed
qed

text \<open>
  C40. In every interleaving of threads the cache stays consistent (map and recency list agree, no
  block twice, the byte count is the sum of the sizes), holds at most its capacity, and both
  critical sections hand out the block of the file they were asked for.
\<close>

theorem cache_coherent:
  assumes "cache_run cap src c"
  shows "cache_inv c \<and> current_bytes c \<le> cap \<and>
    (\<forall>b c'. cache_lookup key c = (Some b, c') \<longrightarrow> b = src key) \<and>
    (\<forall>b c'. cache_insert key (src key) c = (b, c') \<longrightarrow> b = src key) \<and>
    fst (get_or_load key (Inr (src key) :: 'e + bytes) c) = Inr (src key)"
  using cache_run_inv [OF assms] cache_lookup_src [OF assms] cache_insert_src [OF assms] get_or_load_run [OF assms, of key, where ?'a = 'e]
  by auto

theorem cache_coherent_witness:
  "cache_run 3 (\<lambda>_. [1, 2]) (snd (cache_insert \<lparr>file_number = 1, block_offset = 0\<rparr> [1, 2] (cache_new 3))) \<and>
   current_bytes (snd (cache_insert \<lparr>file_number = 1, block_offset = 0\<rparr> [1, 2] (cache_new 3))) \<le> 3"
proof -
  have run: "cache_run 3 (\<lambda>_. [1, 2]) (snd (cache_insert \<lparr>file_number = 1, block_offset = 0\<rparr> [1, 2] (cache_new 3)))"
    by (rule cache_run.insert [OF cache_run.start]) (simp add: prod_eq_iff)
  from run cache_coherent [OF run, of "\<lparr>file_number = 1, block_offset = 0\<rparr>", where ?'e = nat] show ?thesis by simp
qed

text \<open>
  Eviction is least-recently-used and minimal: an insertion of a block that was not cached leaves
  the longest prefix of the recency list (the new block first) whose sizes fit the capacity.
\<close>

lemma cache_evicts_lru:
  assumes "cache_inv c" "cmap c key = None"
  shows "\<exists>n. lru (snd (cache_insert key block c)) = take n (\<lparr>ckey = key, cblock = block, csize = length block\<rparr> # lru c) \<and>
    sum_list (map csize (lru (snd (cache_insert key block c)))) \<le> capacity c \<and>
    (\<forall>j. n < j \<and> j \<le> Suc (length (lru c)) \<longrightarrow>
       capacity c < sum_list (map csize (take j (\<lparr>ckey = key, cblock = block, csize = length block\<rparr> # lru c))))"
proof -
  let ?e = "\<lparr>ckey = key, cblock = block, csize = length block\<rparr>"
  let ?c = "c\<lparr>lru := ?e # lru c, cmap := (cmap c)(key \<mapsto> ?e), current_bytes := current_bytes c + length block\<rparr>"
  note ev = evict_spec [OF cache_inv_push [OF assms refl], of block]
  have "snd (cache_insert key block c) = evict ?c" using assms(2) by (simp add: cache_insert_def Let_def)
  moreover have "sum_list (map csize (lru (evict ?c))) \<le> capacity c" using ev by (auto simp: cache_inv_def)
  ultimately show ?thesis using ev by auto
qed

end
