(* ===== verification/Sstable.thy ===== *)
theory Sstable
  imports Crc32 Bloom Block_Cache Versions
begin

text \<open>
  \<open>include/keystone/sstable.h\<close>, \<open>src/sstable.cpp\<close>: writing and reading SSTable files. A file is
  \<open>[block crc]* [index] [bloom] [footer]\<close>; a block holds entries
  \<open>[tag][seq][keylen][vallen][key][value]\<close>. A position in a block is modelled by the bytes from
  it on. Allocations of less than 2^63 bytes are assumed to succeed; \<open>std::vector\<close> refuses
  larger ones with \<open>std::length_error\<close>.
\<close>

section \<open>Shared layout\<close>

definition kMagic :: u32 where "kMagic = 0x4B535442"
definition kFormatVersion :: u32 where "kFormatVersion = 3"
definition kFooterSize :: nat where "kFooterSize = 40"
definition kBlockTargetSize :: nat where "kBlockTargetSize = 4096"

datatype sst_error =
    WriteError io_error
  | FileTooSmall
  | CannotReadFooter
  | BadMagic
  | CannotReadIndex
  | CannotReadBloom
  | BloomError bloom_error
  | LengthError
  | ChecksumMismatch
  | OutOfBounds

record index_entry =
  first_key :: key
  ioffset :: u64
  ilength :: u64

record footer =
  index_offset :: u64
  bloom_offset :: u64
  fentry_count :: u64
  fmax_seq :: u64
  format_version :: u32
  magic :: u32

section \<open>SSTableWriter\<close>

text \<open>The descriptor \<open>fd_\<close>: the kernel's replies to come and the temporary file.\<close>

type_synonym wfd = "sys_ret list \<times> afile"

definition fd_write :: "bytes \<Rightarrow> wfd \<Rightarrow> sst_error + wfd" where
  "fd_write buf fd =
     (case write_fully (fst fd) buf of
        (w, rs, None) \<Rightarrow> Inr (rs, (snd fd)\<lparr>contents := contents (snd fd) @ w\<rparr>)
      | (w, rs, Some e) \<Rightarrow> Inl (WriteError e))"

record sst_writer =
  wfd :: wfd
  block_buf :: bytes
  block_first_key :: key
  current_offset :: u64
  windex :: "index_entry list"
  entry_count :: u64
  wmax_seq :: u64
  smallest_key :: key
  largest_key :: key
  wkeys :: "key list"

text \<open>The constructor opens the temporary file with \<open>O_CREAT | O_WRONLY | O_TRUNC\<close>.\<close>

definition writer_new :: "sys_ret list \<Rightarrow> sst_writer" where
  "writer_new rs =
     \<lparr>wfd = (rs, \<lparr>contents = [], durable = 0\<rparr>), block_buf = [], block_first_key = [], current_offset = 0,
      windex = [], entry_count = 0, wmax_seq = 0, smallest_key = [], largest_key = [], wkeys = []\<rparr>"

definition flush_block :: "sst_writer \<Rightarrow> sst_error + sst_writer" where
  "flush_block w =
     (if block_buf w = [] then Inr w
      else let checksum = crc32 (block_buf w);
               total = to_u64 (length (block_buf w)) + 4;
               idx = windex w @ [\<lparr>first_key = block_first_key w, ioffset = current_offset w, ilength = total\<rparr>] in
        case fd_write (block_buf w) (wfd w) of Inl e \<Rightarrow> Inl e | Inr fd1 \<Rightarrow>
        case fd_write (put_u32_le checksum) fd1 of Inl e \<Rightarrow> Inl e | Inr fd2 \<Rightarrow>
        Inr (w\<lparr>wfd := fd2, windex := idx, current_offset := current_offset w + total,
               block_buf := [], block_first_key := []\<rparr>))"

text \<open>The bytes \<open>add\<close> appends to the block.\<close>

definition block_entry :: "key \<Rightarrow> bytes \<Rightarrow> bool \<Rightarrow> u64 \<Rightarrow> bytes" where
  "block_entry k v tombstone s =
     [if tombstone then 1 else 0] @ put_u64_le s @ put_u32_le (to_u32 (length k))
     @ put_u32_le (if tombstone then 0 else to_u32 (length v)) @ k @ (if tombstone then [] else v)"

definition sst_add :: "key \<Rightarrow> bytes \<Rightarrow> bool \<Rightarrow> u64 \<Rightarrow> sst_writer \<Rightarrow> sst_error + sst_writer" where
  "sst_add k v tombstone s w =
     (case (if block_buf w \<noteq> [] \<and> length (block_buf w) \<ge> kBlockTargetSize \<and> k \<noteq> block_first_key w
            then flush_block w else Inr w) of
        Inl e \<Rightarrow> Inl e
      | Inr w \<Rightarrow>
          Inr (w\<lparr>block_first_key := (if block_buf w = [] then k else block_first_key w),
                 smallest_key := (if entry_count w = 0 then k else smallest_key w),
                 largest_key := k,
                 block_buf := block_buf w @ block_entry k v tombstone s,
                 wmax_seq := (if s > wmax_seq w then s else wmax_seq w),
                 wkeys := wkeys w @ [k],
                 entry_count := entry_count w + 1\<rparr>))"

text \<open>\<open>finish\<close>: the loop over the index, then the bloom block, the footer and the sync.\<close>

fun write_index :: "index_entry list \<Rightarrow> wfd \<Rightarrow> u64 \<Rightarrow> sst_error + (wfd \<times> u64)" where
  "write_index [] fd index_size = Inr (fd, index_size)"
| "write_index (ie # ies) fd index_size =
     (case fd_write (put_u32_le (to_u32 (length (first_key ie)))) fd of Inl e \<Rightarrow> Inl e | Inr fd1 \<Rightarrow>
      case fd_write (first_key ie) fd1 of Inl e \<Rightarrow> Inl e | Inr fd2 \<Rightarrow>
      case fd_write (put_u64_le (ioffset ie) @ put_u64_le (ilength ie)) fd2 of Inl e \<Rightarrow> Inl e | Inr fd3 \<Rightarrow>
      write_index ies fd3 (index_size + (4 + to_u64 (length (first_key ie)) + 16)))"

definition footer_bytes :: "footer \<Rightarrow> bytes" where
  "footer_bytes f = put_u64_le (index_offset f) @ put_u64_le (bloom_offset f) @ put_u64_le (fentry_count f)
     @ put_u64_le (fmax_seq f) @ put_u32_le (format_version f) @ put_u32_le (magic f)"

definition sst_finish :: "bool \<Rightarrow> sst_writer \<Rightarrow> sst_error + sst_writer" where
  "sst_finish ok w =
     (case flush_block w of Inl e \<Rightarrow> Inl e | Inr w \<Rightarrow>
      let index_off = current_offset w in
      case write_index (windex w) (wfd w) 0 of Inl e \<Rightarrow> Inl e | Inr (fd1, index_size) \<Rightarrow>
      let bloom_off = index_off + index_size in
      case fd_write (bloom_serialize (bloom_of_keys (wkeys w))) fd1 of Inl e \<Rightarrow> Inl e | Inr fd2 \<Rightarrow>
      case fd_write (footer_bytes \<lparr>index_offset = index_off, bloom_offset = bloom_off, fentry_count = entry_count w,
             fmax_seq = wmax_seq w, format_version = kFormatVersion, magic = kMagic\<rparr>) fd2 of Inl e \<Rightarrow> Inl e | Inr fd3 \<Rightarrow>
      Inr (w\<lparr>wfd := (fst fd3, durable_sync ok (snd fd3))\<rparr>))"

section \<open>SSTable\<close>

text \<open>
  \<open>pread\<close>: one kernel reply, \<open>None\<close> for a call that moves all there is. The result is \<open>None\<close>
  for the return value -1.
\<close>

definition pread :: "sys_ret option \<Rightarrow> bytes \<Rightarrow> nat \<Rightarrow> nat \<Rightarrow> bytes option" where
  "pread r f cnt off =
     (case r of
        None \<Rightarrow> Some (take cnt (drop off f))
      | Some (Xfer n) \<Rightarrow> Some (take (min n cnt) (drop off f))
      | Some _ \<Rightarrow> None)"

text \<open>The object: \<open>tbytes\<close> is the file behind \<open>fd_\<close>; the cache is passed to the calls.\<close>

record sstable =
  tbytes :: bytes
  tnumber :: int
  tfooter :: footer
  tindex :: "index_entry list"
  tbloom :: "bloom option"

definition read_footer :: "bytes \<Rightarrow> footer" where
  "read_footer fbuf =
     \<lparr>index_offset = get_u64_le fbuf, bloom_offset = get_u64_le (drop 8 fbuf), fentry_count = get_u64_le (drop 16 fbuf),
      fmax_seq = get_u64_le (drop 24 fbuf), format_version = get_u32_le (drop 32 fbuf), magic = get_u32_le (drop 36 fbuf)\<rparr>"

function parse_index :: "bytes \<Rightarrow> index_entry list" where
  "parse_index u =
     (if 4 \<le> length u then
        let keylen = unat (get_u32_le u); r = drop 4 u in
        if keylen + 16 > length r then []
        else \<lparr>first_key = take keylen r, ioffset = get_u64_le (drop keylen r), ilength = get_u64_le (drop (keylen + 8) r)\<rparr>
             # parse_index (drop (keylen + 16) r)
      else [])"
  by pat_completeness auto
termination
  by (relation "measure length") auto

declare parse_index.simps [simp del]

text \<open>\<open>SSTable::open\<close> of a file; \<open>r1\<close>, \<open>r2\<close>, \<open>r3\<close> answer its three reads. \<open>num\<close> is the number in its name.\<close>

definition sst_open :: "sys_ret option \<Rightarrow> sys_ret option \<Rightarrow> sys_ret option \<Rightarrow> int \<Rightarrow> bytes \<Rightarrow> sst_error + sstable" where
  "sst_open r1 r2 r3 num f =
     (let file_size = length f in
      if file_size < kFooterSize then Inl FileTooSmall
      else case pread r1 f kFooterSize (file_size - kFooterSize) of None \<Rightarrow> Inl CannotReadFooter | Some fbuf \<Rightarrow>
      if length fbuf \<noteq> kFooterSize then Inl CannotReadFooter
      else let ft = read_footer fbuf in
      if magic ft \<noteq> kMagic then Inl BadMagic
      else let index_end = (if bloom_offset ft \<noteq> 0 then bloom_offset ft else to_u64 file_size - to_u64 kFooterSize);
               index_len = unat (index_end - index_offset ft) in
      if index_len \<ge> 2 ^ 63 then Inl LengthError
      else case (if index_len > 0 then pread r2 f index_len (unat (index_offset ft)) else Some []) of
        None \<Rightarrow> Inl CannotReadIndex | Some ibuf \<Rightarrow>
      if length ibuf \<noteq> index_len then Inl CannotReadIndex
      else let idx = parse_index ibuf in
      if bloom_offset ft \<noteq> 0 then
        let bloom_len = unat (to_u64 file_size - to_u64 kFooterSize - bloom_offset ft) in
        if bloom_len \<ge> 2 ^ 63 then Inl LengthError
        else case pread r3 f bloom_len (unat (bloom_offset ft)) of None \<Rightarrow> Inl CannotReadBloom | Some bdata \<Rightarrow>
        if length bdata \<noteq> bloom_len then Inl CannotReadBloom
        else case bloom_load bdata of Inl e \<Rightarrow> Inl (BloomError e) | Inr bl \<Rightarrow>
        Inr \<lparr>tbytes = f, tnumber = num, tfooter = ft, tindex = idx, tbloom = Some bl\<rparr>
      else Inr \<lparr>tbytes = f, tnumber = num, tfooter = ft, tindex = idx, tbloom = None\<rparr>)"

definition sst_may_contain :: "sstable \<Rightarrow> key \<Rightarrow> bool" where
  "sst_may_contain t k = (case tbloom t of None \<Rightarrow> True | Some b \<Rightarrow> may_contain b k)"

text \<open>\<open>find_block_idx\<close>: the binary search; \<open>None\<close> is the return value -1.\<close>

function bsearch :: "index_entry list \<Rightarrow> key \<Rightarrow> nat \<Rightarrow> nat \<Rightarrow> nat" where
  "bsearch idx k lo hi =
     (if lo + 1 < hi then
        let mid = lo + (hi - lo) div 2 in
        if first_key (idx ! mid) \<le> k then bsearch idx k mid hi else bsearch idx k lo mid
      else lo)"
  by pat_completeness auto
termination
  by (relation "measure (\<lambda>(_, _, lo, hi). hi - lo)") auto

declare bsearch.simps [simp del]

definition find_block_idx :: "index_entry list \<Rightarrow> key \<Rightarrow> nat option" where
  "find_block_idx idx k =
     (if idx = [] \<or> first_key (idx ! 0) > k then None else Some (bsearch idx k 0 (length idx)))"

text \<open>The loader lambda of \<open>read_block\<close>.\<close>

definition block_loader :: "sys_ret option \<Rightarrow> sstable \<Rightarrow> nat \<Rightarrow> sst_error + bytes" where
  "block_loader r t i =
     (let ie = tindex t ! i; len = unat (ilength ie) in
      if len \<ge> 2 ^ 63 then Inl LengthError
      else let buf = (case pread r (tbytes t) len (unat (ioffset ie)) of
                        Some b \<Rightarrow> if length b = len then b else [] | None \<Rightarrow> []) in
      if format_version (tfooter t) \<ge> 3 \<and> length buf \<ge> 4 then
        let payload_len = length buf - 4;
            stored = get_u32_le (drop payload_len buf);
            computed = crc32 (take payload_len buf) in
        if stored \<noteq> computed then Inl ChecksumMismatch else Inr (take payload_len buf)
      else Inr buf)"

definition read_block ::
  "block_cache option \<Rightarrow> sys_ret option \<Rightarrow> sstable \<Rightarrow> nat \<Rightarrow> (sst_error + bytes) \<times> block_cache option" where
  "read_block cache r t i =
     (case cache of
        Some c \<Rightarrow>
          (case get_or_load \<lparr>file_number = tnumber t, block_offset = ioffset (tindex t ! i)\<rparr> (block_loader r t i) c of
             (res, c') \<Rightarrow> (res, Some c'))
      | None \<Rightarrow> (block_loader r t i, None))"

text \<open>The scan of a block in \<open>get\<close>.\<close>

definition entry_hdr :: "u32 \<Rightarrow> nat" where
  "entry_hdr fv = (if fv \<ge> 2 then 17 else 9)"

function get_loop :: "u32 \<Rightarrow> key \<Rightarrow> u64 \<Rightarrow> bytes \<Rightarrow> status" where
  "get_loop fv k snap u =
     (if entry_hdr fv \<le> length u then
        let tag = u ! 0;
            r0 = drop 1 u;
            seq = (if fv \<ge> 2 then get_u64_le r0 else 0);
            r1 = (if fv \<ge> 2 then drop 8 r0 else r0);
            keylen = unat (get_u32_le r1);
            vallen = unat (get_u32_le (drop 4 r1));
            r2 = drop 8 r1 in
        if keylen + vallen > length r2 then NotFound
        else let entry_key = take keylen r2; r3 = drop keylen r2 in
        if entry_key = k then
          (if seq \<le> snap then (if tag = 1 then Deleted else Found (take vallen r3))
           else get_loop fv k snap (drop vallen r3))
        else if entry_key > k then NotFound
        else get_loop fv k snap (drop vallen r3)
      else NotFound)"
  by pat_completeness auto
termination
  by (relation "measure (\<lambda>(_, _, _, u). length u)") (auto simp: entry_hdr_def split: if_splits)

declare get_loop.simps [simp del]

definition sst_get :: "block_cache option \<Rightarrow> sys_ret option \<Rightarrow> sstable \<Rightarrow> key \<Rightarrow> u64
    \<Rightarrow> (sst_error + status) \<times> block_cache option" where
  "sst_get cache r t k snapshot_seq =
     (if \<not> sst_may_contain t k then (Inr NotFound, cache)
      else case find_block_idx (tindex t) k of None \<Rightarrow> (Inr NotFound, cache) | Some bi \<Rightarrow>
      case read_block cache r t bi of
        (Inl e, cache') \<Rightarrow> (Inl e, cache')
      | (Inr block, cache') \<Rightarrow>
          (Inr (if block = [] then NotFound else get_loop (format_version (tfooter t)) k snapshot_seq block), cache'))"

section \<open>SSTable::Iterator\<close>

text \<open>
  \<open>irest\<close> are the bytes of \<open>block_\<close> from \<open>pos_\<close> on. The blocks are what \<open>read_block\<close> returns, with or
  without a cache; \<open>rp i\<close> answers the read of block \<open>i\<close>. Reading an entry past the end of a block is
  undefined behaviour, the error \<open>OutOfBounds\<close>.
\<close>

record sst_iter =
  iblock_idx :: nat
  irest :: bytes
  ivalid :: bool
  icur :: entry

type_synonym preads = "nat \<Rightarrow> sys_ret option"

definition no_entry :: entry where
  "no_entry = \<lparr>ekey = [], evalue = [], etomb = False, eseq = 0\<rparr>"

definition it_end :: sst_iter where
  "it_end = \<lparr>iblock_idx = 0, irest = [], ivalid = False, icur = no_entry\<rparr>"

definition it_load :: "preads \<Rightarrow> sstable \<Rightarrow> sst_iter \<Rightarrow> sst_error + sst_iter" where
  "it_load rp t it =
     (if iblock_idx it \<ge> length (tindex t) then Inr (it\<lparr>ivalid := False\<rparr>)
      else case block_loader (rp (iblock_idx it)) t (iblock_idx it) of
        Inl e \<Rightarrow> Inl e
      | Inr blk \<Rightarrow> if blk = [] then Inr (it\<lparr>ivalid := False\<rparr>) else Inr (it\<lparr>irest := blk\<rparr>))"

definition decode_entry :: "u32 \<Rightarrow> bytes \<Rightarrow> (entry \<times> bytes) option" where
  "decode_entry fv u =
     (if length u < entry_hdr fv then None
      else let tag = u ! 0;
               r0 = drop 1 u;
               seq = (if fv \<ge> 2 then get_u64_le r0 else 0);
               r1 = (if fv \<ge> 2 then drop 8 r0 else r0);
               keylen = unat (get_u32_le r1);
               vallen = unat (get_u32_le (drop 4 r1));
               r2 = drop 8 r1 in
        if keylen + vallen > length r2 then None
        else Some (\<lparr>ekey = take keylen r2, evalue = take vallen (drop keylen r2), etomb = (tag = 1), eseq = seq\<rparr>,
                   drop (keylen + vallen) r2))"

definition parse_entry :: "preads \<Rightarrow> sstable \<Rightarrow> sst_iter \<Rightarrow> sst_error + sst_iter" where
  "parse_entry rp t it =
     (if \<not> ivalid it then Inr it
      else case (if length (irest it) < entry_hdr (format_version (tfooter t))
                 then it_load rp t (it\<lparr>iblock_idx := iblock_idx it + 1\<rparr>) else Inr it) of
        Inl e \<Rightarrow> Inl e
      | Inr it \<Rightarrow>
          if \<not> ivalid it then Inr it
          else case decode_entry (format_version (tfooter t)) (irest it) of
            None \<Rightarrow> Inl OutOfBounds
          | Some (e, rest) \<Rightarrow> Inr (it\<lparr>irest := rest, icur := e\<rparr>))"

text \<open>The constructor at a block, \<open>begin\<close> and \<open>operator++\<close>.\<close>

definition it_at_block :: "preads \<Rightarrow> sstable \<Rightarrow> nat \<Rightarrow> sst_error + sst_iter" where
  "it_at_block rp t i =
     (case it_load rp t \<lparr>iblock_idx = i, irest = [], ivalid = True, icur = no_entry\<rparr> of
        Inl e \<Rightarrow> Inl e | Inr it \<Rightarrow> if ivalid it then parse_entry rp t it else Inr it)"

definition it_begin :: "preads \<Rightarrow> sstable \<Rightarrow> sst_error + sst_iter" where
  "it_begin rp t = (if tindex t = [] then Inr it_end else it_at_block rp t 0)"

definition it_next :: "preads \<Rightarrow> sstable \<Rightarrow> sst_iter \<Rightarrow> sst_error + sst_iter" where
  "it_next rp t it = parse_entry rp t it"

text \<open>The seeking constructor: skip entries below the target, then parse the one it stopped at.\<close>

partial_function (option) seek_loop :: "preads \<Rightarrow> sstable \<Rightarrow> key \<Rightarrow> sst_iter \<Rightarrow> (sst_error + sst_iter) option" where
  "seek_loop rp t target it =
     (if \<not> ivalid it then Some (Inr it)
      else case (if length (irest it) < entry_hdr (format_version (tfooter t))
                 then it_load rp t (it\<lparr>iblock_idx := iblock_idx it + 1\<rparr>) else Inr it) of
        Inl e \<Rightarrow> Some (Inl e)
      | Inr it1 \<Rightarrow>
          if \<not> ivalid it1 then Some (Inr it1)
          else if length (irest it1) < entry_hdr (format_version (tfooter t)) then Some (Inl OutOfBounds)
          else case decode_entry (format_version (tfooter t)) (irest it1) of
            None \<Rightarrow> Some (Inr (it1\<lparr>ivalid := False\<rparr>))
          | Some (e, rest) \<Rightarrow>
              if ekey e \<ge> target then Some (parse_entry rp t it1)
              else seek_loop rp t target (it1\<lparr>irest := rest\<rparr>))"

definition it_seek :: "preads \<Rightarrow> sstable \<Rightarrow> key \<Rightarrow> (sst_error + sst_iter) option" where
  "it_seek rp t target =
     (if tindex t = [] then Some (Inr it_end)
      else let bi = (case find_block_idx (tindex t) target of None \<Rightarrow> 0 | Some i \<Rightarrow> i) in
        case it_load rp t \<lparr>iblock_idx = bi, irest = [], ivalid = True, icur = no_entry\<rparr> of
          Inl e \<Rightarrow> Some (Inl e) | Inr it \<Rightarrow> seek_loop rp t target it)"

text \<open>A \<open>for\<close> loop over an iterator up to \<open>end()\<close>: the entries it sees.\<close>

partial_function (option) it_entries :: "preads \<Rightarrow> sstable \<Rightarrow> sst_iter \<Rightarrow> (sst_error + entry list) option" where
  "it_entries rp t it =
     (if \<not> ivalid it then Some (Inr [])
      else case it_next rp t it of
        Inl e \<Rightarrow> Some (Inl e)
      | Inr it' \<Rightarrow> Option.bind (it_entries rp t it') (\<lambda>r. Some (case r of Inl e \<Rightarrow> Inl e | Inr es \<Rightarrow> Inr (icur it # es))))"

end
