(* ===== verification/Sstable_Image.thy ===== *)
theory Sstable_Image
  imports Sstable
begin

text \<open>
  What the writer of \<open>Sstable\<close> puts into a file: the entries split into blocks, the blocks with
  their checksums, the index, the bloom filter and the footer. Every run of the writer that throws
  no exception produces this image, however the kernel splits the writes.
\<close>

section \<open>The image\<close>

definition enc :: "entry \<Rightarrow> bytes" where
  "enc e = block_entry (ekey e) (evalue e) (etomb e) (eseq e)"

definition enc_block :: "entry list \<Rightarrow> bytes" where
  "enc_block es = concat (map enc es)"

text \<open>The blocks the writer makes: \<open>cur\<close> is the one being filled.\<close>

fun split_blocks :: "entry list \<Rightarrow> entry list \<Rightarrow> entry list list" where
  "split_blocks cur [] = (if cur = [] then [] else [cur])"
| "split_blocks cur (e # es) =
     (if cur \<noteq> [] \<and> length (enc_block cur) \<ge> kBlockTargetSize \<and> ekey e \<noteq> ekey (hd cur)
      then cur # split_blocks [e] es else split_blocks (cur @ [e]) es)"

definition block_image :: "entry list \<Rightarrow> bytes" where
  "block_image b = enc_block b @ put_u32_le (crc32 (enc_block b))"

fun index_of :: "nat \<Rightarrow> entry list list \<Rightarrow> index_entry list" where
  "index_of off [] = []"
| "index_of off (b # bs) =
     \<lparr>first_key = ekey (hd b), ioffset = to_u64 off, ilength = to_u64 (length (block_image b))\<rparr>
     # index_of (off + length (block_image b)) bs"

definition index_bytes :: "index_entry \<Rightarrow> bytes" where
  "index_bytes ie = put_u32_le (to_u32 (length (first_key ie))) @ first_key ie
     @ put_u64_le (ioffset ie) @ put_u64_le (ilength ie)"

definition blocks_image :: "entry list list \<Rightarrow> bytes" where
  "blocks_image bs = concat (map block_image bs)"

definition index_image :: "entry list list \<Rightarrow> bytes" where
  "index_image bs = concat (map index_bytes (index_of 0 bs))"

definition seq_max :: "entry list \<Rightarrow> u64" where
  "seq_max es = fold (\<lambda>e m. max m (eseq e)) es 0"

definition image_footer :: "entry list \<Rightarrow> footer" where
  "image_footer es =
     (let bs = split_blocks [] es; off = length (blocks_image bs) in
      \<lparr>index_offset = to_u64 off, bloom_offset = to_u64 (off + length (index_image bs)),
       fentry_count = to_u64 (length es), fmax_seq = seq_max es, format_version = kFormatVersion, magic = kMagic\<rparr>)"

definition sst_image :: "entry list \<Rightarrow> bytes" where
  "sst_image es =
     (let bs = split_blocks [] es in
      blocks_image bs @ index_image bs @ bloom_serialize (bloom_of_keys (map ekey es)) @ footer_bytes (image_footer es))"

lemma enc_block_simps [simp]: "enc_block [] = []" "enc_block (e # es) = enc e @ enc_block es"
  "enc_block (xs @ ys) = enc_block xs @ enc_block ys"
  by (simp_all add: enc_block_def)

lemma enc_length: "17 \<le> length (enc e)"
  by (simp add: enc_def block_entry_def)

lemma enc_nonempty [simp]: "enc e \<noteq> []"
  using enc_length [of e] by auto

lemma enc_block_empty [simp]: "enc_block b = [] \<longleftrightarrow> b = []"
  by (cases b) auto

lemma block_image_length: "length (block_image b) = length (enc_block b) + 4"
  by (simp add: block_image_def)

lemma concat_split_blocks: "concat (split_blocks cur es) = cur @ es"
  by (induction cur es rule: split_blocks.induct) auto

lemma split_blocks_nonempty: "b \<in> set (split_blocks cur es) \<Longrightarrow> b \<noteq> []"
  by (induction cur es rule: split_blocks.induct) (auto split: if_splits)

lemma split_blocks_Nil_iff: "split_blocks [] es = [] \<longleftrightarrow> es = []"
  using concat_split_blocks [of "[]" es] by (cases es) auto

lemma index_of_append:
  "index_of off (bs @ [b]) = index_of off bs @
     [\<lparr>first_key = ekey (hd b), ioffset = to_u64 (off + length (blocks_image bs)), ilength = to_u64 (length (block_image b))\<rparr>]"
  by (induction bs arbitrary: off) (simp_all add: blocks_image_def add.assoc)

lemma index_of_length [simp]: "length (index_of off bs) = length bs"
  by (induction bs arbitrary: off) auto

lemma index_of_nth:
  "i < length bs \<Longrightarrow> index_of off bs ! i =
     \<lparr>first_key = ekey (hd (bs ! i)), ioffset = to_u64 (off + length (blocks_image (take i bs))),
      ilength = to_u64 (length (block_image (bs ! i)))\<rparr>"
proof (induction bs arbitrary: off i)
  case (Cons b bs)
  then show ?case by (cases i) (simp_all add: blocks_image_def add.assoc)
qed simp

section \<open>The writer produces it\<close>

text \<open>The client's loop: \<open>add\<close> every entry.\<close>

fun add_all :: "entry list \<Rightarrow> sst_writer \<Rightarrow> sst_error + sst_writer" where
  "add_all [] w = Inr w"
| "add_all (e # es) w =
     (case sst_add (ekey e) (evalue e) (etomb e) (eseq e) w of Inl x \<Rightarrow> Inl x | Inr w' \<Rightarrow> add_all es w')"

definition countable :: "'a list \<Rightarrow> bool" where
  "countable es \<longleftrightarrow> length es < 2 ^ 64"

lemma countable_snoc: "countable (es @ [e]) \<Longrightarrow> countable es"
  by (simp add: countable_def)

lemma countable_zero: "countable es \<Longrightarrow> to_u64 (length es) = 0 \<longleftrightarrow> es = []"
  unfolding countable_def by (drule unat_to_u64) (simp only: unat_eq_zero [symmetric] length_0_conv)

definition writer_inv :: "sst_writer \<Rightarrow> entry list list \<Rightarrow> entry list \<Rightarrow> bool" where
  "writer_inv w bs cur \<longleftrightarrow>
     contents (snd (wfd w)) = blocks_image bs \<and> windex w = index_of 0 bs \<and>
     current_offset w = to_u64 (length (blocks_image bs)) \<and>
     block_buf w = enc_block cur \<and> (cur \<noteq> [] \<longrightarrow> block_first_key w = ekey (hd cur)) \<and>
     (let es = concat bs @ cur in
        wkeys w = map ekey es \<and> entry_count w = to_u64 (length es) \<and> wmax_seq w = seq_max es \<and>
        (es \<noteq> [] \<and> countable es \<longrightarrow> smallest_key w = ekey (hd es) \<and> largest_key w = ekey (last es)))"

lemma fd_write_contents:
  assumes "fd_write buf fd = Inr fd'"
  shows "contents (snd fd') = contents (snd fd) @ buf"
proof -
  obtain w rs where "write_fully (fst fd) buf = (w, rs, None)" "fd' = (rs, (snd fd)\<lparr>contents := contents (snd fd) @ w\<rparr>)"
    using assms by (auto simp: fd_write_def split: prod.splits option.splits)
  with write_fully_prefix [OF this(1)] show ?thesis by auto
qed

lemma writer_inv_new: "writer_inv (writer_new rs) [] []"
  by (simp add: writer_inv_def writer_new_def blocks_image_def seq_max_def)

lemma flush_block_inv:
  assumes "writer_inv w bs cur" "flush_block w = Inr w'"
  shows "writer_inv w' (bs @ (if cur = [] then [] else [cur])) []"
proof (cases "cur = []")
  case True
  then show ?thesis using assms by (simp add: writer_inv_def flush_block_def)
next
  case False
  define total where "total = to_u64 (length (block_buf w)) + 4"
  obtain fd1 fd2 where fd: "fd_write (block_buf w) (wfd w) = Inr fd1" "fd_write (put_u32_le (crc32 (block_buf w))) fd1 = Inr fd2"
    "w' = w\<lparr>wfd := fd2, windex := windex w @ [\<lparr>first_key = block_first_key w, ioffset = current_offset w, ilength = total\<rparr>],
       current_offset := current_offset w + total, block_buf := [], block_first_key := []\<rparr>"
    using assms False by (auto simp: flush_block_def writer_inv_def Let_def total_def split: sum.splits)
  have "total = to_u64 (length (block_image cur))"
    using assms(1) by (simp add: total_def writer_inv_def block_image_length)
  then show ?thesis
    using assms(1) fd False fd_write_contents [OF fd(1)] fd_write_contents [OF fd(2)]
    by (simp add: writer_inv_def index_of_append blocks_image_def block_image_def Let_def)
qed

lemma max_if: "max (a :: 'a :: linorder) b = (if b > a then b else a)"
  by (auto simp: max_def)

lemma seq_max_snoc: "seq_max (es @ [e]) = (if eseq e > seq_max es then eseq e else seq_max es)"
  unfolding seq_max_def fold_append by (simp only: fold_simps comp_apply id_apply max_if)

text \<open>What \<open>add\<close> does after a possible flush.\<close>

definition push_entry :: "entry \<Rightarrow> sst_writer \<Rightarrow> sst_writer" where
  "push_entry e w =
     w\<lparr>block_first_key := (if block_buf w = [] then ekey e else block_first_key w),
       smallest_key := (if entry_count w = 0 then ekey e else smallest_key w),
       largest_key := ekey e, block_buf := block_buf w @ enc e,
       wmax_seq := (if eseq e > wmax_seq w then eseq e else wmax_seq w),
       wkeys := wkeys w @ [ekey e], entry_count := entry_count w + 1\<rparr>"

lemma sst_add_push:
  "sst_add (ekey e) (evalue e) (etomb e) (eseq e) w =
     (case (if block_buf w \<noteq> [] \<and> length (block_buf w) \<ge> kBlockTargetSize \<and> ekey e \<noteq> block_first_key w
            then flush_block w else Inr w) of Inl x \<Rightarrow> Inl x | Inr w1 \<Rightarrow> Inr (push_entry e w1))"
  by (simp add: sst_add_def push_entry_def enc_def cong: sum.case_cong)

lemma push_entry_inv:
  assumes "writer_inv w bs cur"
  shows "writer_inv (push_entry e w) bs (cur @ [e])"
proof -
  define es where "es = concat bs @ cur"
  have es: "concat bs @ cur @ [e] = es @ [e]" "concat bs @ cur = es" by (simp_all add: es_def)
  have "cur = [] \<or> block_first_key w = ekey (hd cur)" "block_buf w = enc_block cur"
    using assms unfolding writer_inv_def by blast+
  then have "block_first_key (push_entry e w) = ekey (hd (cur @ [e]))" by (auto simp: push_entry_def)
  moreover have "smallest_key (push_entry e w) = ekey (hd (es @ [e]))" if "countable (es @ [e])"
    using assms countable_zero [OF countable_snoc [OF that]] countable_snoc [OF that]
    unfolding writer_inv_def Let_def es by (cases "es = []") (simp_all add: push_entry_def)
  moreover have "seq_max (es @ [e]) = wmax_seq (push_entry e w)"
    using assms unfolding writer_inv_def Let_def es by (simp add: push_entry_def seq_max_snoc)
  ultimately show ?thesis
    using assms unfolding writer_inv_def Let_def es by (simp add: push_entry_def)
qed

lemma sst_add_inv:
  assumes inv: "writer_inv w bs cur" and add: "sst_add (ekey e) (evalue e) (etomb e) (eseq e) w = Inr w'"
  shows "if cur \<noteq> [] \<and> length (enc_block cur) \<ge> kBlockTargetSize \<and> ekey e \<noteq> ekey (hd cur)
    then writer_inv w' (bs @ [cur]) [e] else writer_inv w' bs (cur @ [e])"
proof -
  have buf: "block_buf w = enc_block cur" "cur \<noteq> [] \<Longrightarrow> block_first_key w = ekey (hd cur)"
    using inv unfolding writer_inv_def by blast+
  show ?thesis
  proof (cases "cur \<noteq> [] \<and> length (enc_block cur) \<ge> kBlockTargetSize \<and> ekey e \<noteq> ekey (hd cur)")
    case True
    then obtain w1 where w1: "flush_block w = Inr w1" "w' = push_entry e w1"
      using add buf by (auto simp: sst_add_push split: sum.splits)
    have "writer_inv w1 (bs @ [cur]) []" using flush_block_inv [OF inv w1(1)] True by simp
    from push_entry_inv [OF this, of e] True w1 show ?thesis by simp
  next
    case False
    then have "w' = push_entry e w" using add buf by (cases "cur = []") (auto simp: sst_add_push)
    with push_entry_inv [OF inv, of e] False show ?thesis by (simp only: if_False)
  qed
qed

lemma add_all_inv:
  assumes "writer_inv w bs cur" "add_all es w = Inr w'"
  shows "\<exists>bs' cur'. writer_inv w' bs' cur' \<and>
    bs' @ (if cur' = [] then [] else [cur']) = bs @ split_blocks cur es"
  using assms
proof (induction es arbitrary: w bs cur)
  case Nil
  then show ?case by auto
next
  case (Cons e es)
  obtain w1 where w1: "sst_add (ekey e) (evalue e) (etomb e) (eseq e) w = Inr w1" "add_all es w1 = Inr w'"
    using Cons.prems(2) by (auto split: sum.splits)
  note IH = Cons.IH [OF _ w1(2)]
  show ?case
  proof (cases "cur \<noteq> [] \<and> length (enc_block cur) \<ge> kBlockTargetSize \<and> ekey e \<noteq> ekey (hd cur)")
    case True
    then have "writer_inv w1 (bs @ [cur]) [e]" using sst_add_inv [OF Cons.prems(1) w1(1)] by simp
    from IH [OF this] True show ?thesis by simp
  next
    case False
    then have "writer_inv w1 bs (cur @ [e])" using sst_add_inv [OF Cons.prems(1) w1(1)] by (simp only: if_False)
    from IH [OF this] False show ?thesis by (simp only: split_blocks.simps if_False)
  qed
qed

lemma write_index_contents:
  assumes "write_index ies fd n = Inr (fd', n')"
  shows "contents (snd fd') = contents (snd fd) @ concat (map index_bytes ies) \<and>
    n' = n + to_u64 (length (concat (map index_bytes ies)))"
  using assms
proof (induction ies arbitrary: fd n)
  case (Cons ie ies)
  obtain fd1 fd2 fd3 where fd: "fd_write (put_u32_le (to_u32 (length (first_key ie)))) fd = Inr fd1"
    "fd_write (first_key ie) fd1 = Inr fd2" "fd_write (put_u64_le (ioffset ie) @ put_u64_le (ilength ie)) fd2 = Inr fd3"
    "write_index ies fd3 (n + (4 + to_u64 (length (first_key ie)) + 16)) = Inr (fd', n')"
    using Cons.prems by (auto split: sum.splits)
  from Cons.IH [OF fd(4)] fd(1-3) [THEN fd_write_contents] show ?case
    by (simp add: index_bytes_def)
qed simp

text \<open>The file after \<open>finish\<close>, on every run without exception.\<close>

theorem writer_image:
  assumes "add_all es (writer_new rs) = Inr w" "sst_finish ok w = Inr w'"
  shows "contents (snd (wfd w')) = sst_image es \<and> (ok \<longrightarrow> durable (snd (wfd w')) = length (sst_image es)) \<and>
    (es \<noteq> [] \<and> countable es \<longrightarrow> smallest_key w' = ekey (hd es) \<and> largest_key w' = ekey (last es))"
proof -
  obtain bs cur where inv: "writer_inv w bs cur" "bs @ (if cur = [] then [] else [cur]) = split_blocks [] es"
    using add_all_inv [OF writer_inv_new assms(1)] by auto
  obtain w1 fd1 isz fd2 fd3 where w1: "flush_block w = Inr w1" and ix: "write_index (windex w1) (wfd w1) 0 = Inr (fd1, isz)"
    and bl: "fd_write (bloom_serialize (bloom_of_keys (wkeys w1))) fd1 = Inr fd2"
    and ft: "fd_write (footer_bytes \<lparr>index_offset = current_offset w1, bloom_offset = current_offset w1 + isz,
       fentry_count = entry_count w1, fmax_seq = wmax_seq w1, format_version = kFormatVersion, magic = kMagic\<rparr>) fd2 = Inr fd3"
    and w': "w' = w1\<lparr>wfd := (fst fd3, durable_sync ok (snd fd3))\<rparr>"
    using assms(2) by (auto simp: sst_finish_def Let_def split: sum.splits)
  have inv1: "writer_inv w1 (split_blocks [] es) []" using flush_block_inv [OF inv(1) w1] inv(2) by simp
  then have w1_fields: "contents (snd (wfd w1)) = blocks_image (split_blocks [] es)" "windex w1 = index_of 0 (split_blocks [] es)"
    "current_offset w1 = to_u64 (length (blocks_image (split_blocks [] es)))" "wkeys w1 = map ekey es"
    "entry_count w1 = to_u64 (length es)" "wmax_seq w1 = seq_max es"
    and ends: "es \<noteq> [] \<and> countable es \<longrightarrow> smallest_key w1 = ekey (hd es) \<and> largest_key w1 = ekey (last es)"
    unfolding writer_inv_def Let_def by (simp_all add: concat_split_blocks)
  have "contents (snd fd3) = sst_image es"
    using write_index_contents [OF ix] fd_write_contents [OF bl] fd_write_contents [OF ft]
    by (simp add: w1_fields sst_image_def image_footer_def index_image_def Let_def)
  then show ?thesis using ends by (simp add: w' durable_sync_def)
qed

text \<open>When no write fails the writer throws nothing.\<close>

lemma write_fully_ok: "EFail \<notin> set rs \<Longrightarrow> \<exists>w rs'. write_fully rs buf = (w, rs', None) \<and> EFail \<notin> set rs'"
proof (induction rs buf rule: write_fully.induct)
  case (5 n rs v va)
  then obtain w rs' where "write_fully rs (drop n (v # va)) = (w, rs', None)" "EFail \<notin> set rs'" by auto
  then show ?case by simp
qed simp_all

lemma fd_write_ok: "EFail \<notin> set (fst fd) \<Longrightarrow> \<exists>fd'. fd_write buf fd = Inr fd' \<and> EFail \<notin> set (fst fd')"
  using write_fully_ok [of "fst fd" buf] by (auto simp: fd_write_def)

lemma flush_block_ok: "EFail \<notin> set (fst (wfd w)) \<Longrightarrow> \<exists>w'. flush_block w = Inr w' \<and> EFail \<notin> set (fst (wfd w'))"
proof (cases "block_buf w = []")
  case False
  assume "EFail \<notin> set (fst (wfd w))"
  then obtain fd1 where fd1: "fd_write (block_buf w) (wfd w) = Inr fd1" "EFail \<notin> set (fst fd1)" using fd_write_ok by blast
  then obtain fd2 where "fd_write (put_u32_le (crc32 (block_buf w))) fd1 = Inr fd2" "EFail \<notin> set (fst fd2)" using fd_write_ok by blast
  with False fd1 show ?thesis by (simp add: flush_block_def Let_def)
qed (simp add: flush_block_def)

lemma add_all_ok: "EFail \<notin> set (fst (wfd w)) \<Longrightarrow> \<exists>w'. add_all es w = Inr w' \<and> EFail \<notin> set (fst (wfd w'))"
proof (induction es arbitrary: w)
  case (Cons e es)
  have "\<exists>w1. sst_add (ekey e) (evalue e) (etomb e) (eseq e) w = Inr w1 \<and> EFail \<notin> set (fst (wfd w1))"
    using flush_block_ok [OF Cons.prems] Cons.prems by (auto simp: sst_add_push push_entry_def)
  with Cons.IH show ?case by fastforce
qed simp

lemma write_index_ok: "EFail \<notin> set (fst fd) \<Longrightarrow> \<exists>fd' n'. write_index ies fd n = Inr (fd', n') \<and> EFail \<notin> set (fst fd')"
proof (induction ies arbitrary: fd n)
  case (Cons ie ies)
  then obtain fd1 where "fd_write (put_u32_le (to_u32 (length (first_key ie)))) fd = Inr fd1" "EFail \<notin> set (fst fd1)"
    using fd_write_ok by blast
  moreover then obtain fd2 where "fd_write (first_key ie) fd1 = Inr fd2" "EFail \<notin> set (fst fd2)" using fd_write_ok by blast
  moreover then obtain fd3 where "fd_write (put_u64_le (ioffset ie) @ put_u64_le (ilength ie)) fd2 = Inr fd3" "EFail \<notin> set (fst fd3)"
    using fd_write_ok by blast
  ultimately show ?case using Cons.IH by simp
qed simp

lemma sst_finish_ok:
  assumes "EFail \<notin> set (fst (wfd w))"
  shows "\<exists>w'. sst_finish ok w = Inr w'"
proof -
  obtain w1 where w1: "flush_block w = Inr w1" "EFail \<notin> set (fst (wfd w1))" using flush_block_ok [OF assms] by blast
  obtain fd1 n where fd1: "write_index (windex w1) (wfd w1) 0 = Inr (fd1, n)" "EFail \<notin> set (fst fd1)"
    using write_index_ok [OF w1(2)] by blast
  obtain fd2 where fd2: "fd_write (bloom_serialize (bloom_of_keys (wkeys w1))) fd1 = Inr fd2" "EFail \<notin> set (fst fd2)"
    using fd_write_ok [OF fd1(2)] by blast
  obtain fd3 where "fd_write (footer_bytes \<lparr>index_offset = current_offset w1, bloom_offset = current_offset w1 + n,
       fentry_count = entry_count w1, fmax_seq = wmax_seq w1, format_version = kFormatVersion, magic = kMagic\<rparr>) fd2 = Inr fd3"
    using fd_write_ok [OF fd2(2)] by blast
  with w1 fd1 fd2 show ?thesis by (simp add: sst_finish_def Let_def)
qed

end
