(* ===== verification/Sstable_Read.thy ===== *)
theory Sstable_Read
  imports Sstable_Image
begin

text \<open>
  Reading back the files of \<open>Sstable_Image\<close>: opening, the binary search over the index, point lookups,
  iteration and seeking, the block cache, and the reads that go wrong.
\<close>

section \<open>Decoding entries and the index\<close>

definition fits :: "entry \<Rightarrow> bool" where
  "fits e \<longleftrightarrow> length (ekey e) < 2 ^ 32 \<and> length (evalue e) < 2 ^ 32"

lemma hdr_v3 [simp]: "entry_hdr kFormatVersion = 17" "2 \<le> kFormatVersion" "3 \<le> kFormatVersion"
  by (simp_all add: entry_hdr_def kFormatVersion_def)

lemma decode_enc [simp]:
  assumes "fits e"
  shows "decode_entry kFormatVersion (enc e @ r) = Some (stored e, r)"
  using assms
  by (cases e) (simp add: decode_entry_def enc_def block_entry_def fits_def stored_def Let_def)

lemma get_loop_decode:
  assumes "entry_hdr fv \<le> length u"
  shows "get_loop fv k s u =
    (case decode_entry fv u of None \<Rightarrow> NotFound
     | Some (e, r) \<Rightarrow>
         if ekey e = k then (if eseq e \<le> s then status_of e else get_loop fv k s r)
         else if ekey e > k then NotFound else get_loop fv k s r)"
  using assms by (subst get_loop.simps) (simp add: decode_entry_def status_of_def Let_def add.commute)

lemma get_loop_enc:
  assumes "fits e"
  shows "get_loop kFormatVersion k s (enc e @ r) =
    (if ekey e = k then (if eseq e \<le> s then status_of e else get_loop kFormatVersion k s r)
     else if ekey e > k then NotFound else get_loop kFormatVersion k s r)"
  using assms enc_length [of e] by (subst get_loop_decode) simp_all

lemma get_loop_Nil: "get_loop kFormatVersion k s [] = NotFound"
  by (simp add: get_loop.simps)

text \<open>In a sorted block the scan is the lookup.\<close>

lemma get_loop_block:
  assumes "ent_sorted b" "\<forall>e \<in> set b. fits e"
  shows "get_loop kFormatVersion k s (enc_block b) = run_status b k s"
  using assms
proof (induction b)
  case (Cons e b)
  show ?case
  proof (cases "ekey e > k")
    case True
    then have "lookup_run b k s = None"
      using Cons.prems(1) by (intro lookup_run_no_key) (auto simp: ent_le_def)
    with True Cons.prems(2) show ?thesis by (auto simp: get_loop_enc run_status_def)
  next
    case False
    with Cons show ?thesis by (auto simp: get_loop_enc run_status_def)
  qed
qed (simp add: get_loop_Nil run_status_def)

lemma parse_index_bytes:
  assumes "\<forall>ie \<in> set ies. length (first_key ie) < 2 ^ 32"
  shows "parse_index (concat (map index_bytes ies)) = ies"
  using assms
proof (induction ies)
  case Nil
  then show ?case by (simp add: parse_index.simps)
next
  case (Cons ie ies)
  define R where "R = concat (map index_bytes ies)"
  from Cons have "parse_index R = ies" "length (first_key ie) < 2 ^ 32" by (simp_all add: R_def)
  then have "parse_index (index_bytes ie @ R) = ie # ies"
    by (cases ie) (subst parse_index.simps, simp add: index_bytes_def Let_def)
  then show ?case by (simp add: R_def)
qed

section \<open>Opening\<close>

text \<open>
  What a reader sees of a table that holds the blocks \<open>bs\<close>: the index, the blocks as an undisturbed
  read returns them, and a bloom filter that knows all keys.
\<close>

definition table_of :: "sstable \<Rightarrow> entry list list \<Rightarrow> bool" where
  "table_of t bs \<longleftrightarrow>
     format_version (tfooter t) = kFormatVersion \<and> map first_key (tindex t) = map (ekey \<circ> hd) bs \<and>
     (\<forall>i < length bs. block_loader None t i = Inr (enc_block (bs ! i))) \<and>
     (\<forall>b \<in> set bs. b \<noteq> [] \<and> (\<forall>e \<in> set b. fits e \<and> sst_may_contain t (ekey e)))"

lemma footer_length [simp]: "length (footer_bytes f) = kFooterSize"
  by (simp add: footer_bytes_def kFooterSize_def)

lemma read_footer_bytes [simp]: "read_footer (footer_bytes f) = f"
  using get_put_u32_le [of "magic f" "[]"] by (cases f) (simp add: read_footer_def footer_bytes_def)

lemma pread_None [simp]: "pread None f n off = Some (take n (drop off f))"
  by (simp add: pread_def)

lemma bloom_of_keys_wf: "bloom_wf (bloom_of_keys ks)"
  unfolding bloom_of_keys_def using foldl_bloom_add [OF bloom_new_wf] by blast

lemma to_u64_sub: "n \<le> m \<Longrightarrow> m < 2 ^ 64 \<Longrightarrow> unat (to_u64 m - to_u64 n) = m - n"
  by (simp add: of_nat_diff [symmetric] del: of_nat_diff)

lemma image_length:
  "length (sst_image es) = length (blocks_image (split_blocks [] es)) + length (index_image (split_blocks [] es))
     + length (bloom_serialize (bloom_of_keys (map ekey es))) + kFooterSize"
  by (simp add: sst_image_def Let_def)

lemma sst_open_image:
  assumes "es \<noteq> []" "\<forall>e \<in> set es. fits e" "length (sst_image es) < 2 ^ 63"
  shows "sst_open None None None num (sst_image es) =
    Inr \<lparr>tbytes = sst_image es, tnumber = num, tfooter = image_footer es, tindex = index_of 0 (split_blocks [] es),
         tbloom = Some (bloom_of_keys (map ekey es))\<rparr>"
proof -
  let ?bs = "split_blocks [] es" and ?I = "sst_image es"
  let ?B = "blocks_image ?bs" and ?X = "index_image ?bs" and ?S = "bloom_serialize (bloom_of_keys (map ekey es))"
  let ?F = "footer_bytes (image_footer es)"
  have img: "?I = ?B @ ?X @ ?S @ ?F" by (simp add: sst_image_def Let_def)
  have len: "length ?B + length ?X + length ?S + 40 < 2 ^ 63" using assms(3) by (simp add: image_length kFooterSize_def)
  define bo where "bo = to_u64 (length ?B + length ?X)"
  define io where "io = to_u64 (length ?B)"
  have ft: "index_offset (image_footer es) = io" "bloom_offset (image_footer es) = bo" "magic (image_footer es) = kMagic"
    by (simp_all add: image_footer_def Let_def io_def bo_def)
  have "?B \<noteq> []" using assms(1) split_blocks_Nil_iff [of es]
    by (cases ?bs) (auto simp: blocks_image_def block_image_def put_u32_le_def)
  then have pos: "0 < length ?B" by simp
  have offs: "unat bo = length ?B + length ?X" "unat io = length ?B"
    unfolding bo_def io_def by (rule unat_to_u64, use len in simp)+
  then have nz: "bo \<noteq> 0" using pos by auto
  have il: "unat (bo - io) = length ?X"
    unfolding bo_def io_def using to_u64_sub [of "length ?B" "length ?B + length ?X"] len by simp
  have bl: "unat (to_u64 (length ?I) - to_u64 kFooterSize - bo) = length ?S"
  proof -
    have "to_u64 (length ?I) - to_u64 kFooterSize = to_u64 (length ?B + length ?X + length ?S)"
      by (simp add: image_length)
    then show ?thesis unfolding bo_def
      using to_u64_sub [of "length ?B + length ?X" "length ?B + length ?X + length ?S"] len by simp
  qed
  have fs: "kFooterSize \<le> length ?I" by (simp add: image_length)
  have idx: "parse_index ?X = index_of 0 ?bs"
    unfolding index_image_def
  proof (rule parse_index_bytes, rule ballI)
    fix ie assume "ie \<in> set (index_of 0 ?bs)"
    then obtain i where i: "i < length ?bs" "first_key ie = ekey (hd (?bs ! i))"
      by (auto simp: in_set_conv_nth index_of_nth)
    then have "hd (?bs ! i) \<in> set es"
      using split_blocks_nonempty [OF nth_mem [OF i(1)]] nth_mem [OF i(1)] concat_split_blocks [of "[]" es]
      by (metis append_Nil concat.simps hd_in_set UN_I set_concat)
    with assms(2) i(2) show "length (first_key ie) < 2 ^ 32" by (simp add: fits_def)
  qed
  have parts: "take (length ?X) (drop (length ?B) ?I) = ?X" "take (length ?S) (drop (length ?B + length ?X) ?I) = ?S"
    "take kFooterSize (drop (length ?I - kFooterSize) ?I) = ?F"
    by (simp_all add: img)
  have "\<not> length ?X \<ge> 2 ^ 63" "\<not> length ?S \<ge> 2 ^ 63" using len by linarith+
  then show ?thesis
    using bloom_load_serialize [OF bloom_of_keys_wf, of "map ekey es" "[]"] fs
    unfolding sst_open_def Let_def pread_None
    by (simp only: parts ft nz il bl offs idx read_footer_bytes footer_length not_less [symmetric] option.case sum.case
        append_Nil2 if_True if_False refl not_True_eq_False not_False_eq_True length_0_conv list.size split: if_split) (use idx in auto)
qed

text \<open>The block behind the \<open>i\<close>-th index entry.\<close>

lemma blocks_image_split:
  assumes "i < length bs"
  shows "blocks_image bs = blocks_image (take i bs) @ block_image (bs ! i) @ blocks_image (drop (Suc i) bs)"
  using id_take_nth_drop [OF assms] unfolding blocks_image_def by (metis concat.simps(2) concat_append list.map(2) map_append)

lemma block_loader_image:
  assumes "i < length (split_blocks [] es)" "length (sst_image es) < 2 ^ 63"
    and t: "tbytes t = sst_image es" "tindex t = index_of 0 (split_blocks [] es)" "format_version (tfooter t) = kFormatVersion"
  shows "block_loader None t i = Inr (enc_block (split_blocks [] es ! i))"
proof -
  let ?bs = "split_blocks [] es"
  let ?P = "blocks_image (take i ?bs)" and ?b = "?bs ! i"
  define rest where "rest = blocks_image (drop (Suc i) ?bs) @ index_image ?bs
      @ bloom_serialize (bloom_of_keys (map ekey es)) @ footer_bytes (image_footer es)"
  have img: "sst_image es = ?P @ block_image ?b @ rest"
    using blocks_image_split [OF assms(1)] by (simp add: sst_image_def rest_def Let_def)
  then have len: "length ?P + length (block_image ?b) < 2 ^ 63" using assms(2) by simp
  have off: "unat (to_u64 (length ?P)) = length ?P" "unat (to_u64 (length (block_image ?b))) = length (block_image ?b)"
    by (rule unat_to_u64, use len in simp)+
  have ie: "unat (ioffset (tindex t ! i)) = length ?P" "unat (ilength (tindex t ! i)) = length (block_image ?b)"
    using off by (simp_all add: t(2) index_of_nth [OF assms(1)])
  have small: "\<not> length (block_image ?b) \<ge> 2 ^ 63" using len by linarith
  have "take (length (block_image ?b)) (drop (length ?P) (tbytes t)) = block_image ?b" by (simp add: t(1) img)
  with small show ?thesis
    unfolding block_loader_def Let_def ie pread_None option.case
    using get_put_u32_le [of "crc32 (enc_block ?b)" "[]"] by (simp add: t(3) block_image_def)
qed

lemma sst_open_table:
  assumes "es \<noteq> []" "\<forall>e \<in> set es. fits e" "length (sst_image es) < 2 ^ 63"
    "sst_open None None None num (sst_image es) = Inr t"
  shows "table_of t (split_blocks [] es)" "tnumber t = num" "tfooter t = image_footer es"
proof -
  let ?bs = "split_blocks [] es"
  have t: "t = \<lparr>tbytes = sst_image es, tnumber = num, tfooter = image_footer es, tindex = index_of 0 ?bs,
         tbloom = Some (bloom_of_keys (map ekey es))\<rparr>"
    using sst_open_image [OF assms(1-3), of num] assms(4) by simp
  then show "tnumber t = num" "tfooter t = image_footer es" by simp_all
  have fv: "format_version (tfooter t) = kFormatVersion" by (simp add: t image_footer_def Let_def)
  have keys: "map first_key (index_of n ?bs) = map (ekey \<circ> hd) ?bs" for n
    by (rule nth_equalityI) (simp_all add: index_of_nth)
  have ents: "e \<in> set es" if "b \<in> set ?bs" "e \<in> set b" for b e
    using that concat_split_blocks [of "[]" es] by (metis UN_I append_Nil set_concat)
  have "may_contain (bloom_of_keys (map ekey es)) (ekey e)" if "e \<in> set es" for e
    unfolding bloom_of_keys_def using foldl_bloom_add [OF bloom_new_wf, of "length (map ekey es)" 10 "map ekey es"] that by auto
  then have "sst_may_contain t (ekey e)" if "e \<in> set es" for e using that by (simp add: sst_may_contain_def t)
  then show "table_of t ?bs"
    unfolding table_of_def using fv keys ents split_blocks_nonempty assms(2) block_loader_image [OF _ assms(3)]
    by (auto simp: t)
qed

section \<open>The binary search\<close>

text \<open>The invariant of the loop: the answer lies between \<open>lo\<close> and \<open>hi\<close>.\<close>

lemma bsearch_bounds:
  assumes "lo < hi" "hi \<le> length idx" "first_key (idx ! lo) \<le> k"
    and "hi < length idx \<Longrightarrow> k < first_key (idx ! hi)"
  shows "let i = bsearch idx k lo hi in lo \<le> i \<and> i < hi \<and> first_key (idx ! i) \<le> k \<and>
    (Suc i < length idx \<longrightarrow> k < first_key (idx ! Suc i))"
  using assms
proof (induction idx k lo hi rule: bsearch.induct)
  case (1 idx k lo hi)
  show ?case
  proof (cases "lo + 1 < hi")
    case True
    define mid where "mid = lo + (hi - lo) div 2"
    have mid: "lo < mid" "mid < hi" using True by (auto simp: mid_def)
    have step: "bsearch idx k lo hi = (if first_key (idx ! mid) \<le> k then bsearch idx k mid hi else bsearch idx k lo mid)"
      using True by (subst bsearch.simps) (simp add: mid_def Let_def)
    show ?thesis
    proof (cases "first_key (idx ! mid) \<le> k")
      case le: True
      have "let i = bsearch idx k mid hi in mid \<le> i \<and> i < hi \<and> first_key (idx ! i) \<le> k \<and>
          (Suc i < length idx \<longrightarrow> k < first_key (idx ! Suc i))"
        by (rule "1.IH"(1) [OF True mid_def]) (use "1.prems" le mid in auto)
      with le mid show ?thesis by (auto simp: step Let_def)
    next
      case gt: False
      have "let i = bsearch idx k lo mid in lo \<le> i \<and> i < mid \<and> first_key (idx ! i) \<le> k \<and>
          (Suc i < length idx \<longrightarrow> k < first_key (idx ! Suc i))"
        by (rule "1.IH"(2) [OF True mid_def]) (use "1.prems" gt mid in auto)
      with gt mid show ?thesis by (auto simp: step Let_def)
    qed
  next
    case False
    then have "hi = Suc lo" "bsearch idx k lo hi = lo" using "1.prems"(1) by (auto simp: bsearch.simps)
    with "1.prems" show ?thesis by (auto simp: Let_def)
  qed
qed

lemma find_block_idx_Some:
  assumes "find_block_idx idx k = Some i"
  shows "i < length idx \<and> first_key (idx ! i) \<le> k \<and> (Suc i < length idx \<longrightarrow> k < first_key (idx ! Suc i))"
proof -
  have "idx \<noteq> []" "first_key (idx ! 0) \<le> k" "i = bsearch idx k 0 (length idx)"
    using assms by (auto simp: find_block_idx_def split: if_splits)
  with bsearch_bounds [of 0 "length idx" idx k] show ?thesis by (simp add: Let_def)
qed

lemma find_block_idx_None:
  "find_block_idx idx k = None \<longleftrightarrow> idx = [] \<or> k < first_key (hd idx)"
  by (cases idx) (auto simp: find_block_idx_def)

section \<open>Point lookups\<close>

lemma table_of_block:
  assumes "table_of t bs" "i < length bs"
  shows "length (tindex t) = length bs" "first_key (tindex t ! i) = ekey (hd (bs ! i))"
    "block_loader None t i = Inr (enc_block (bs ! i))" "bs ! i \<noteq> []" "\<forall>e \<in> set (bs ! i). fits e"
proof -
  have keys: "map first_key (tindex t) = map (ekey \<circ> hd) bs" using assms(1) by (simp add: table_of_def)
  then show len: "length (tindex t) = length bs" by (metis length_map)
  show "first_key (tindex t ! i) = ekey (hd (bs ! i))"
    using arg_cong [OF keys, of "\<lambda>xs. xs ! i"] assms(2) len by simp
  show "block_loader None t i = Inr (enc_block (bs ! i))" "bs ! i \<noteq> []" "\<forall>e \<in> set (bs ! i). fits e"
    using assms nth_mem [OF assms(2)] by (auto simp: table_of_def)
qed

lemma table_of_length: "table_of t bs \<Longrightarrow> length (tindex t) = length bs"
  unfolding table_of_def by (metis length_map)

lemma table_of_may_contain:
  assumes "table_of t bs" "\<not> sst_may_contain t k" "i < length bs"
  shows "run_status (bs ! i) k s = NotFound"
proof -
  have "\<forall>e \<in> set (bs ! i). ekey e \<noteq> k" using assms nth_mem [OF assms(3)] by (auto simp: table_of_def)
  then have "lookup_run (bs ! i) k s = None" by (rule lookup_run_no_key)
  then show ?thesis by (simp add: run_status_def)
qed

lemma sorted_block: "ent_sorted (concat bs) \<Longrightarrow> b \<in> set bs \<Longrightarrow> ent_sorted b"
  by (induction bs) (auto simp: sorted_wrt_append)

text \<open>\<open>get\<close> looks the key up in the one block the search returns.\<close>

lemma sst_get_block:
  assumes t: "table_of t bs" and sorted: "ent_sorted (concat bs)"
  shows "fst (sst_get None None t k s) =
    Inr (case find_block_idx (tindex t) k of None \<Rightarrow> NotFound | Some i \<Rightarrow> run_status (bs ! i) k s)"
proof (cases "find_block_idx (tindex t) k")
  case None
  then show ?thesis by (simp add: sst_get_def)
next
  case (Some i)
  have i: "i < length bs" using find_block_idx_Some [OF Some] table_of_length [OF t] by simp
  note b = table_of_block [OF t i]
  have "get_loop (format_version (tfooter t)) k s (enc_block (bs ! i)) = run_status (bs ! i) k s"
    using t get_loop_block [OF sorted_block [OF sorted nth_mem [OF i]] b(5)] by (simp add: table_of_def)
  then show ?thesis
    using Some b(3,4) table_of_may_contain [OF t _ i, of k s] by (simp add: sst_get_def read_block_def)
qed

text \<open>No key has versions in two blocks.\<close>

definition no_straddle :: "entry list list \<Rightarrow> bool" where
  "no_straddle bs \<longleftrightarrow> (\<forall>i. Suc i < length bs \<longrightarrow> ekey (last (bs ! i)) \<noteq> ekey (hd (bs ! Suc i)))"

text \<open>What lies before and behind the block the search returns.\<close>

lemma sorted_append_key:
  assumes "ent_sorted (xs @ ys)" "x \<in> set xs" "y \<in> set ys"
  shows "ekey x \<le> ekey y"
  using assms by (auto simp: sorted_wrt_append intro: ent_le_key)

lemma blocks_before_less:
  assumes sorted: "ent_sorted (concat bs)" and ne: "\<forall>b \<in> set bs. b \<noteq> []" and ns: "no_straddle bs"
    and i: "i < length bs" and x: "x \<in> set (concat (take i bs))"
  shows "ekey x < ekey (hd (bs ! i))"
proof (cases i)
  case 0
  then show ?thesis using x by simp
next
  case (Suc j)
  let ?l = "last (bs ! j)" and ?h = "hd (bs ! i)"
  have j: "j < length bs" using Suc i by simp
  have nej: "bs ! j \<noteq> []" "bs ! i \<noteq> []" using ne i j by auto
  have tk: "take i bs = take j bs @ [bs ! j]" using Suc j by (simp add: take_Suc_conv_app_nth)
  have split: "concat bs = concat (take j bs) @ bs ! j @ concat (drop i bs)"
    using id_take_nth_drop [OF j] Suc by (metis concat.simps(2) concat_append)
  have h: "?h \<in> set (concat (drop i bs))" using Cons_nth_drop_Suc [OF i] nej by (metis UnI1 concat.simps(2) hd_in_set set_append)
  have sj: "ent_sorted (concat (take j bs) @ bs ! j)" using sorted split by (simp add: sorted_wrt_append)
  have "ekey x \<le> ekey ?l"
  proof (cases "x \<in> set (bs ! j)")
    case True
    have "ent_sorted (butlast (bs ! j) @ [?l])" using sj nej by (simp add: sorted_wrt_append)
    then show ?thesis using True nej by (metis append_butlast_last_id ent_le_key list.set_intros(1) order_refl set_ConsD
          sorted_append_key rotate1.simps(2) set_rotate1)
  next
    case False
    then have "x \<in> set (concat (take j bs))" using x tk by auto
    then show ?thesis using sorted_append_key [OF sj] nej by simp
  qed
  moreover have "ekey ?l \<le> ekey ?h"
    using sorted_append_key [of "concat (take j bs) @ bs ! j" "concat (drop i bs)" ?l ?h] sorted split h nej by simp
  moreover have "ekey ?l \<noteq> ekey ?h" using ns i Suc by (simp add: no_straddle_def)
  ultimately show ?thesis by simp
qed

lemma blocks_behind_greater:
  assumes sorted: "ent_sorted (concat bs)" and ne: "\<forall>b \<in> set bs. b \<noteq> []"
    and i: "Suc i < length bs \<Longrightarrow> k < ekey (hd (bs ! Suc i))" and x: "x \<in> set (concat (drop (Suc i) bs))"
  shows "k < ekey x"
proof -
  have "Suc i < length bs" using x by (metis concat.simps(1) drop_all empty_iff leI list.set(1))
  then have d: "drop (Suc i) bs = bs ! Suc i # drop (Suc (Suc i)) bs" and ne': "bs ! Suc i \<noteq> []"
    using ne by (auto simp: Cons_nth_drop_Suc)
  obtain h b where hb: "bs ! Suc i = h # b" using ne' by (cases "bs ! Suc i") auto
  have "ent_sorted (concat (drop (Suc i) bs))"
    using sorted append_take_drop_id [of "Suc i" bs] by (metis concat_append sorted_wrt_append)
  then have "ent_le h x" using x d hb by auto
  then show ?thesis using i [OF \<open>Suc i < length bs\<close>] hb ent_le_key by fastforce
qed

lemma lookup_one_block:
  assumes "table_of t bs" "ent_sorted (concat bs)" "no_straddle bs"
  shows "run_status (concat bs) k s =
    (case find_block_idx (tindex t) k of None \<Rightarrow> NotFound | Some i \<Rightarrow> run_status (bs ! i) k s)"
proof (cases "find_block_idx (tindex t) k")
  case None
  have "lookup_run (concat bs) k s = None"
  proof (rule lookup_run_no_key, rule ballI)
    fix e assume e: "e \<in> set (concat bs)"
    then have bs: "bs \<noteq> []" by auto
    have "tindex t \<noteq> []" using table_of_length [OF assms(1)] bs by auto
    with None have "k < ekey (hd (bs ! 0))"
      using table_of_block(2) [OF assms(1), of 0] bs by (simp add: find_block_idx_None hd_conv_nth)
    moreover have "concat bs \<noteq> []" "hd (concat bs) = hd (bs ! 0)"
      using bs table_of_block(4) [OF assms(1), of 0] by (cases bs; auto)+
    then have "ent_le (hd (bs ! 0)) e" using assms(2) e by (cases "concat bs") auto
    ultimately show "ekey e \<noteq> k" using ent_le_key by fastforce
  qed
  then show ?thesis using None by (simp add: run_status_def)
next
  case (Some i)
  note f = find_block_idx_Some [OF Some] and len = table_of_length [OF assms(1)]
  have i: "i < length bs" using f len by simp
  have ne: "\<forall>b \<in> set bs. b \<noteq> []" using assms(1) by (simp add: table_of_def)
  have k: "ekey (hd (bs ! i)) \<le> k" "Suc i < length bs \<Longrightarrow> k < ekey (hd (bs ! Suc i))"
    using f len table_of_block(2) [OF assms(1)] by auto
  have "lookup_run (concat (take i bs)) k s = None"
    using blocks_before_less [OF assms(2) ne assms(3) i] k(1) by (intro lookup_run_no_key) fastforce
  moreover have "lookup_run (concat (drop (Suc i) bs)) k s = None"
    using blocks_behind_greater [OF assms(2) ne k(2)] by (intro lookup_run_no_key) fastforce
  moreover have "concat bs = concat (take i bs) @ bs ! i @ concat (drop (Suc i) bs)"
    using id_take_nth_drop [OF i] by (metis concat.simps(2) concat_append)
  ultimately show ?thesis using Some by (simp add: run_status_def lookup_run_append split: option.split)
qed

section \<open>Iteration\<close>

abbreviation healthy :: preads where "healthy \<equiv> \<lambda>_. None"

text \<open>
  \<open>it_pos\<close>: a valid iterator that stands in block \<open>i\<close> before the entries \<open>es\<close>.
  \<open>it_sees\<close>: what a loop over the iterator sees, from its current entry on.
\<close>

definition it_pos :: "entry list list \<Rightarrow> sst_iter \<Rightarrow> entry list \<Rightarrow> bool" where
  "it_pos bs it es \<longleftrightarrow> ivalid it \<and> iblock_idx it < length bs \<and>
     (\<exists>rest. irest it = enc_block rest \<and> (\<forall>e \<in> set rest. fits e) \<and> es = rest @ concat (drop (Suc (iblock_idx it)) bs))"

definition it_sees :: "entry list list \<Rightarrow> sst_iter \<Rightarrow> entry list \<Rightarrow> bool" where
  "it_sees bs it es \<longleftrightarrow> (case es of [] \<Rightarrow> \<not> ivalid it
     | e # es' \<Rightarrow> icur it = e \<and> (\<exists>es''. es' = map stored es'' \<and> it_pos bs it es''))"

text \<open>The reload at the end of a block, which \<open>parse_entry\<close> and the seeking loop share.\<close>

definition it_reload :: "preads \<Rightarrow> sstable \<Rightarrow> sst_iter \<Rightarrow> sst_error + sst_iter" where
  "it_reload rp t it = (if length (irest it) < entry_hdr (format_version (tfooter t))
     then it_load rp t (it\<lparr>iblock_idx := iblock_idx it + 1\<rparr>) else Inr it)"

lemma it_load_block:
  assumes "table_of t bs"
  shows "it_load healthy t it = Inr (if iblock_idx it < length bs then it\<lparr>irest := enc_block (bs ! iblock_idx it)\<rparr>
    else it\<lparr>ivalid := False\<rparr>)"
  using table_of_length [OF assms] table_of_block(3,4) [OF assms, of "iblock_idx it"]
  by (auto simp: it_load_def)

lemma it_reload_pos:
  assumes t: "table_of t bs" and "it_pos bs it es"
  shows "\<exists>it'. it_reload healthy t it = Inr it' \<and>
    (case es of [] \<Rightarrow> \<not> ivalid it'
     | e # es' \<Rightarrow> fits e \<and> ivalid it' \<and> (\<exists>r. irest it' = enc e @ r \<and> it_pos bs (it'\<lparr>irest := r\<rparr>) es'))"
proof -
  obtain rest where rest: "irest it = enc_block rest" "\<forall>e \<in> set rest. fits e"
    "es = rest @ concat (drop (Suc (iblock_idx it)) bs)" and v: "ivalid it" "iblock_idx it < length bs"
    using assms(2) by (auto simp: it_pos_def)
  have fv: "format_version (tfooter t) = kFormatVersion" using t by (simp add: table_of_def)
  show ?thesis
  proof (cases rest)
    case (Cons e r)
    have "17 \<le> length (irest it)" using rest(1) Cons enc_length [of e] by simp
    then have "it_reload healthy t it = Inr it" by (simp add: it_reload_def fv)
    then show ?thesis using rest v Cons by (auto simp: it_pos_def)
  next
    case Nil
    let ?j = "Suc (iblock_idx it)"
    have reload: "it_reload healthy t it = it_load healthy t (it\<lparr>iblock_idx := ?j\<rparr>)"
      using rest(1) Nil by (simp add: it_reload_def fv)
    show ?thesis
    proof (cases "?j < length bs")
      case True
      obtain e b where b: "bs ! ?j = e # b" using table_of_block(4) [OF t True] by (cases "bs ! ?j") auto
      have "es = e # b @ concat (drop (Suc ?j) bs)" using rest(3) Nil Cons_nth_drop_Suc [OF True] b
        by (metis append_Cons append_Nil concat.simps(2))
      with reload it_load_block [OF t, of "it\<lparr>iblock_idx := ?j\<rparr>"] table_of_block(5) [OF t True] True b v
      show ?thesis by (auto simp: it_pos_def)
    next
      case False
      with reload it_load_block [OF t, of "it\<lparr>iblock_idx := ?j\<rparr>"] rest(3) Nil show ?thesis by simp
    qed
  qed
qed

lemma parse_entry_reload:
  "parse_entry rp t it = (if \<not> ivalid it then Inr it else case it_reload rp t it of Inl e \<Rightarrow> Inl e
     | Inr it \<Rightarrow> if \<not> ivalid it then Inr it
         else case decode_entry (format_version (tfooter t)) (irest it) of None \<Rightarrow> Inl OutOfBounds
           | Some (e, rest) \<Rightarrow> Inr (it\<lparr>irest := rest, icur := e\<rparr>))"
  by (simp add: parse_entry_def it_reload_def)

lemma it_pos_cur [simp]: "it_pos bs (it\<lparr>icur := e\<rparr>) es = it_pos bs it es"
  by (simp add: it_pos_def)

lemma parse_entry_pos:
  assumes t: "table_of t bs" and "it_pos bs it es"
  shows "\<exists>it'. parse_entry healthy t it = Inr it' \<and> it_sees bs it' (map stored es)"
proof -
  have fv: "format_version (tfooter t) = kFormatVersion" using t by (simp add: table_of_def)
  have v: "ivalid it" using assms(2) by (simp add: it_pos_def)
  from it_reload_pos [OF assms] obtain it1 where it1: "it_reload healthy t it = Inr it1"
    and c: "case es of [] \<Rightarrow> \<not> ivalid it1
     | e # es' \<Rightarrow> fits e \<and> ivalid it1 \<and> (\<exists>r. irest it1 = enc e @ r \<and> it_pos bs (it1\<lparr>irest := r\<rparr>) es')" by blast
  show ?thesis
  proof (cases es)
    case Nil
    with c it1 v show ?thesis by (simp add: parse_entry_reload it_sees_def)
  next
    case (Cons e es')
    with c it1 v fv show ?thesis by (auto simp: parse_entry_reload it_sees_def)
  qed
qed

lemma it_next_sees:
  assumes t: "table_of t bs" and "it_sees bs it (e # es)"
  shows "\<exists>it'. it_next healthy t it = Inr it' \<and> it_sees bs it' es"
  using assms(2) parse_entry_pos [OF t] by (auto simp: it_sees_def [of bs it] it_next_def)

lemma it_entries_sees:
  assumes t: "table_of t bs"
  shows "it_sees bs it es \<Longrightarrow> it_entries healthy t it = Some (Inr es)"
proof (induction es arbitrary: it)
  case Nil
  then show ?case by (subst it_entries.simps) (simp add: it_sees_def)
next
  case (Cons e es)
  from it_next_sees [OF t Cons.prems] obtain it' where "it_next healthy t it = Inr it'" "it_sees bs it' es" by blast
  with Cons show ?case by (subst it_entries.simps) (auto simp: it_sees_def [of bs it] it_pos_def)
qed

lemma it_start_pos:
  assumes "table_of t bs" "i < length bs"
  shows "\<exists>it. it_load healthy t \<lparr>iblock_idx = i, irest = [], ivalid = True, icur = no_entry\<rparr> = Inr it \<and>
    ivalid it \<and> it_pos bs it (concat (drop i bs))"
proof -
  have "concat (drop i bs) = bs ! i @ concat (drop (Suc i) bs)" using Cons_nth_drop_Suc [OF assms(2)] by (metis concat.simps(2))
  then show ?thesis using it_load_block [OF assms(1)] table_of_block(5) [OF assms] assms(2) by (auto simp: it_pos_def)
qed

lemma it_begin_sees:
  assumes t: "table_of t bs"
  shows "\<exists>it. it_begin healthy t = Inr it \<and> it_sees bs it (map stored (concat bs))"
proof (cases "bs = []")
  case True
  then have "tindex t = []" using table_of_length [OF t] by simp
  then show ?thesis using True by (simp add: it_begin_def it_sees_def it_end_def)
next
  case False
  then have ne: "tindex t \<noteq> []" "0 < length bs" using table_of_length [OF t] by auto
  obtain it where "it_load healthy t \<lparr>iblock_idx = 0, irest = [], ivalid = True, icur = no_entry\<rparr> = Inr it"
    "ivalid it" "it_pos bs it (concat bs)" using it_start_pos [OF t ne(2)] by auto
  with parse_entry_pos [OF t] ne show ?thesis by (simp add: it_begin_def it_at_block_def)
qed

section \<open>Seeking\<close>

lemma seek_loop_reload:
  "seek_loop rp t k it = (if \<not> ivalid it then Some (Inr it) else case it_reload rp t it of Inl e \<Rightarrow> Some (Inl e)
     | Inr it1 \<Rightarrow> if \<not> ivalid it1 then Some (Inr it1)
         else if length (irest it1) < entry_hdr (format_version (tfooter t)) then Some (Inl OutOfBounds)
         else case decode_entry (format_version (tfooter t)) (irest it1) of None \<Rightarrow> Some (Inr (it1\<lparr>ivalid := False\<rparr>))
           | Some (e, rest) \<Rightarrow> if ekey e \<ge> k then Some (parse_entry rp t it1) else seek_loop rp t k (it1\<lparr>irest := rest\<rparr>))"
  by (subst seek_loop.simps) (simp add: it_reload_def)

lemma seek_loop_pos:
  assumes t: "table_of t bs"
  shows "it_pos bs it es \<Longrightarrow>
    \<exists>it'. seek_loop healthy t k it = Some (Inr it') \<and> it_sees bs it' (map stored (dropWhile (\<lambda>e. ekey e < k) es))"
proof (induction es arbitrary: it)
  case Nil
  then have "ivalid it" by (simp add: it_pos_def)
  with it_reload_pos [OF t Nil] show ?case by (subst seek_loop_reload) (auto simp: it_sees_def)
next
  case (Cons e es)
  have fv: "format_version (tfooter t) = kFormatVersion" using t by (simp add: table_of_def)
  have v: "ivalid it" using Cons.prems by (simp add: it_pos_def)
  from it_reload_pos [OF t Cons.prems] obtain it1 r where it1: "it_reload healthy t it = Inr it1" "fits e" "ivalid it1"
    "irest it1 = enc e @ r" "it_pos bs (it1\<lparr>irest := r\<rparr>) es" by auto
  have len: "\<not> length (irest it1) < 17" using it1(4) enc_length [of e] by simp
  have step: "seek_loop healthy t k it = (if ekey e \<ge> k then Some (parse_entry healthy t it1)
      else seek_loop healthy t k (it1\<lparr>irest := r\<rparr>))"
    using it1 v len fv by (subst seek_loop_reload) simp
  show ?case
  proof (cases "ekey e \<ge> k")
    case True
    have "parse_entry healthy t it1 = Inr (it1\<lparr>irest := r, icur := stored e\<rparr>)"
      using it1 len fv by (simp add: parse_entry_reload it_reload_def)
    with step True it1(5) show ?thesis by (auto simp: it_sees_def)
  next
    case False
    with step Cons.IH [OF it1(5)] show ?thesis by (simp add: not_le)
  qed
qed

lemma it_seek_sees:
  assumes t: "table_of t bs" and "ent_sorted (concat bs)" "no_straddle bs"
  shows "\<exists>it. it_seek healthy t k = Some (Inr it) \<and> it_sees bs it (map stored (dropWhile (\<lambda>e. ekey e < k) (concat bs)))"
proof (cases "bs = []")
  case True
  then have "tindex t = []" using table_of_length [OF t] by simp
  then show ?thesis using True by (simp add: it_seek_def it_sees_def it_end_def)
next
  case False
  define i where "i = (case find_block_idx (tindex t) k of None \<Rightarrow> 0 | Some i \<Rightarrow> i)"
  have ne: "tindex t \<noteq> []" using False table_of_length [OF t] by auto
  have f: "i < length bs \<and> (i = 0 \<or> ekey (hd (bs ! i)) \<le> k)"
  proof (cases "find_block_idx (tindex t) k")
    case None
    then show ?thesis using False by (simp add: i_def)
  next
    case (Some j)
    then show ?thesis
      using find_block_idx_Some [OF Some] table_of_length [OF t] table_of_block(2) [OF t, of j] by (auto simp: i_def)
  qed
  then have i: "i < length bs" by simp
  have bne: "\<forall>b \<in> set bs. b \<noteq> []" using t by (simp add: table_of_def)
  have "\<forall>x \<in> set (concat (take i bs)). ekey x < k"
    using f blocks_before_less [OF assms(2) bne assms(3) i] by fastforce
  then have "dropWhile (\<lambda>e. ekey e < k) (concat (take i bs) @ concat (drop i bs)) = dropWhile (\<lambda>e. ekey e < k) (concat (drop i bs))"
    by (intro dropWhile_append2) blast
  moreover have "concat (take i bs) @ concat (drop i bs) = concat bs" by (metis append_take_drop_id concat_append)
  ultimately have drop: "dropWhile (\<lambda>e. ekey e < k) (concat bs) = dropWhile (\<lambda>e. ekey e < k) (concat (drop i bs))" by simp
  obtain it where it: "it_load healthy t \<lparr>iblock_idx = i, irest = [], ivalid = True, icur = no_entry\<rparr> = Inr it"
    "it_pos bs it (concat (drop i bs))" using it_start_pos [OF t i] by blast
  from seek_loop_pos [OF t it(2)] it(1) show ?thesis
    unfolding drop by (simp add: it_seek_def ne Let_def i_def [symmetric])
qed

end
