(* ===== verification/Merge_Iterator.thy ===== *)
theory Merge_Iterator
  imports Memtable_Spec Sstable_Read
begin

text \<open>
  \<open>include/keystone/merge_iterator.h\<close>, \<open>src/merge_iterator.cpp\<close>: the sources of a merge and the
  k-way merging iterator. \<open>MergeSource\<close> is an abstract class; a record of its virtual functions is
  an argument of the iterator, and the three derived classes are one datatype whose methods
  dispatch on the constructor. The callers' ranks are all 0 and nothing reads them.
\<close>

section \<open>Sources\<close>

record 's source_ops =
  src_valid :: "'s \<Rightarrow> bool"
  src_entry :: "'s \<Rightarrow> entry"
  src_next :: "'s \<Rightarrow> sst_error + 's"

text \<open>
  The derived classes: a position in a memtable, an iterator over a table, an index into a
  materialised vector. The first two keep the current entry and a validity flag.
\<close>

datatype merge_source =
    MemtableSource (ms_heap: "node list") (ms_it: "nat option") (ms_cur: entry) (ms_valid: bool)
  | SSTableSource (ss_preads: preads) (ss_table: sstable) (ss_it: sst_iter) (ss_cur: entry) (ss_valid: bool)
  | SnapshotSource (sn_entries: "entry list") (sn_idx: nat)

definition mem_source :: "memtable \<Rightarrow> sst_error + merge_source" where
  "mem_source m =
     (case raw_begin m of
        None \<Rightarrow> Inl OutOfBounds
      | Some None \<Rightarrow> Inr (MemtableSource (heap m) None no_entry False)
      | Some (Some y) \<Rightarrow> Inr (MemtableSource (heap m) (Some y) (node_entry (heap m ! y)) True))"

definition sst_source_of :: "preads \<Rightarrow> sstable \<Rightarrow> sst_iter \<Rightarrow> merge_source" where
  "sst_source_of rp t it = SSTableSource rp t it (if ivalid it then icur it else no_entry) (ivalid it)"

definition sst_source :: "preads \<Rightarrow> sstable \<Rightarrow> sst_error + merge_source" where
  "sst_source rp t = (case it_begin rp t of Inl e \<Rightarrow> Inl e | Inr it \<Rightarrow> Inr (sst_source_of rp t it))"

definition sst_source_at :: "preads \<Rightarrow> sstable \<Rightarrow> key \<Rightarrow> (sst_error + merge_source) option" where
  "sst_source_at rp t start =
     (case it_seek rp t start of None \<Rightarrow> None | Some (Inl e) \<Rightarrow> Some (Inl e)
      | Some (Inr it) \<Rightarrow> Some (Inr (sst_source_of rp t it)))"

definition snapshot_source :: "entry list \<Rightarrow> merge_source" where
  "snapshot_source es = SnapshotSource es 0"

fun source_valid :: "merge_source \<Rightarrow> bool" where
  "source_valid (MemtableSource h p cur v) = v"
| "source_valid (SSTableSource rp t it cur v) = v"
| "source_valid (SnapshotSource es i) = (i < length es)"

fun source_entry :: "merge_source \<Rightarrow> entry" where
  "source_entry (MemtableSource h p cur v) = cur"
| "source_entry (SSTableSource rp t it cur v) = cur"
| "source_entry (SnapshotSource es i) = es ! i"

fun source_next :: "merge_source \<Rightarrow> sst_error + merge_source" where
  "source_next (MemtableSource h p cur v) =
     (case p of None \<Rightarrow> Inl OutOfBounds
      | Some y \<Rightarrow>
          (case load_fwd h y 0 of
             None \<Rightarrow> Inl OutOfBounds
           | Some None \<Rightarrow> Inr (MemtableSource h None cur False)
           | Some (Some z) \<Rightarrow> Inr (MemtableSource h (Some z) (node_entry (h ! z)) v)))"
| "source_next (SSTableSource rp t it cur v) =
     (case it_next rp t it of Inl e \<Rightarrow> Inl e
      | Inr it' \<Rightarrow> Inr (if ivalid it' then SSTableSource rp t it' (icur it') v else SSTableSource rp t it' cur False))"
| "source_next (SnapshotSource es i) = Inr (SnapshotSource es (Suc i))"

definition merge_source_ops :: "merge_source source_ops" where
  "merge_source_ops = \<lparr>src_valid = source_valid, src_entry = source_entry, src_next = source_next\<rparr>"

section \<open>MergeIterator\<close>

text \<open>
  \<open>Cmp\<close>, and what \<open>std::priority_queue\<close> promises of \<open>top()\<close>: some element that is below no other.
  Which of several such elements it returns is the library's choice, the argument \<open>pick\<close>.
\<close>

definition mcmp :: "'s source_ops \<Rightarrow> 's \<Rightarrow> 's \<Rightarrow> bool" where
  "mcmp ops a b = (if ekey (src_entry ops a) \<noteq> ekey (src_entry ops b) then ekey (src_entry ops a) > ekey (src_entry ops b)
     else eseq (src_entry ops a) < eseq (src_entry ops b))"

definition top_ok :: "'s source_ops \<Rightarrow> ('s list \<Rightarrow> nat) \<Rightarrow> bool" where
  "top_ok ops pick \<longleftrightarrow> (\<forall>h. h \<noteq> [] \<longrightarrow> pick h < length h \<and> (\<forall>y \<in> set h. \<not> mcmp ops (h ! pick h) y))"

record 's merge_iter =
  mheap :: "'s list"
  mcur :: entry
  keep_tombstones :: bool
  snapshot_seq :: u64
  yield_all_versions :: bool
  mvalid :: bool

text \<open>\<open>heap_.pop(); src->next(); if (src->valid()) heap_.push(src);\<close>\<close>

definition pop_next :: "'s source_ops \<Rightarrow> ('s list \<Rightarrow> nat) \<Rightarrow> 's list \<Rightarrow> sst_error + 's list" where
  "pop_next ops pick h =
     (let i = pick h; rest = take i h @ drop (Suc i) h in
      case src_next ops (h ! i) of
        Inl e \<Rightarrow> Inl e
      | Inr src \<Rightarrow> Inr (if src_valid ops src then src # rest else rest))"

definition top_entry :: "'s source_ops \<Rightarrow> ('s list \<Rightarrow> nat) \<Rightarrow> 's list \<Rightarrow> entry" where
  "top_entry ops pick h = src_entry ops (h ! pick h)"

text \<open>The inner loop: all versions of \<open>winner_key\<close>; \<open>best\<close> is the first one the snapshot may see.\<close>

partial_function (option) drain ::
  "'s source_ops \<Rightarrow> ('s list \<Rightarrow> nat) \<Rightarrow> u64 \<Rightarrow> key \<Rightarrow> entry option \<Rightarrow> 's list \<Rightarrow> (sst_error + entry option \<times> 's list) option" where
  "drain ops pick snap k best h =
     (if h = [] \<or> ekey (top_entry ops pick h) \<noteq> k then Some (Inr (best, h))
      else let e = top_entry ops pick h;
               best' = (if best = None \<and> eseq e \<le> snap then Some e else best) in
        case pop_next ops pick h of
          Inl err \<Rightarrow> Some (Inl err)
        | Inr h' \<Rightarrow> drain ops pick snap k best' h')"

partial_function (option) advance_loop ::
  "'s source_ops \<Rightarrow> ('s list \<Rightarrow> nat) \<Rightarrow> bool \<Rightarrow> u64 \<Rightarrow> 's list \<Rightarrow> (sst_error + entry option \<times> 's list) option" where
  "advance_loop ops pick keep snap h =
     (if h = [] then Some (Inr (None, []))
      else Option.bind (drain ops pick snap (ekey (top_entry ops pick h)) None h)
        (\<lambda>r. case r of
           Inl e \<Rightarrow> Some (Inl e)
         | Inr (best, h') \<Rightarrow>
             (case best of
                Some b \<Rightarrow> if keep \<or> \<not> etomb b then Some (Inr (Some b, h')) else advance_loop ops pick keep snap h'
              | None \<Rightarrow> advance_loop ops pick keep snap h')))"

definition advance :: "'s source_ops \<Rightarrow> ('s list \<Rightarrow> nat) \<Rightarrow> 's merge_iter \<Rightarrow> (sst_error + 's merge_iter) option" where
  "advance ops pick mi =
     (if yield_all_versions mi then
        (if mheap mi = [] then Some (Inr (mi\<lparr>mvalid := False\<rparr>))
         else case pop_next ops pick (mheap mi) of
           Inl e \<Rightarrow> Some (Inl e)
         | Inr h' \<Rightarrow> Some (Inr (mi\<lparr>mcur := top_entry ops pick (mheap mi), mheap := h', mvalid := True\<rparr>)))
      else
        Option.bind (advance_loop ops pick (keep_tombstones mi) (snapshot_seq mi) (mheap mi))
          (\<lambda>r. Some (case r of
             Inl e \<Rightarrow> Inl e
           | Inr (None, h') \<Rightarrow> Inr (mi\<lparr>mheap := h', mvalid := False\<rparr>)
           | Inr (Some b, h') \<Rightarrow> Inr (mi\<lparr>mcur := b, mheap := h', mvalid := True\<rparr>))))"

definition merge_new :: "'s source_ops \<Rightarrow> ('s list \<Rightarrow> nat) \<Rightarrow> 's list \<Rightarrow> bool \<Rightarrow> u64 \<Rightarrow> bool
    \<Rightarrow> (sst_error + 's merge_iter) option" where
  "merge_new ops pick sources keep snap yield_all =
     advance ops pick \<lparr>mheap = filter (src_valid ops) sources, mcur = no_entry, keep_tombstones = keep,
       snapshot_seq = snap, yield_all_versions = yield_all, mvalid = False\<rparr>"

definition merge_next :: "'s source_ops \<Rightarrow> ('s list \<Rightarrow> nat) \<Rightarrow> 's merge_iter \<Rightarrow> (sst_error + 's merge_iter) option" where
  "merge_next ops pick mi = advance ops pick mi"

text \<open>The clients' loop \<open>while (iter.valid()) { ...; iter.next(); }\<close>: the entries it sees.\<close>

partial_function (option) merge_entries ::
  "'s source_ops \<Rightarrow> ('s list \<Rightarrow> nat) \<Rightarrow> 's merge_iter \<Rightarrow> (sst_error + entry list) option" where
  "merge_entries ops pick mi =
     (if \<not> mvalid mi then Some (Inr [])
      else Option.bind (merge_next ops pick mi)
        (\<lambda>r. case r of
           Inl e \<Rightarrow> Some (Inl e)
         | Inr mi' \<Rightarrow> Option.bind (merge_entries ops pick mi')
             (\<lambda>r'. Some (case r' of Inl e \<Rightarrow> Inl e | Inr es \<Rightarrow> Inr (mcur mi # es)))))"

definition merge_run :: "'s source_ops \<Rightarrow> ('s list \<Rightarrow> nat) \<Rightarrow> 's list \<Rightarrow> bool \<Rightarrow> u64 \<Rightarrow> bool
    \<Rightarrow> (sst_error + entry list) option" where
  "merge_run ops pick sources keep snap yield_all =
     Option.bind (merge_new ops pick sources keep snap yield_all)
       (\<lambda>r. case r of Inl e \<Rightarrow> Some (Inl e) | Inr mi \<Rightarrow> merge_entries ops pick mi)"

section \<open>The contract of a source\<close>

text \<open>\<open>sees s es\<close>: the source will yield the entries \<open>es\<close>.\<close>

locale merge_feed =
  fixes ops :: "'s source_ops" and sees :: "'s \<Rightarrow> entry list \<Rightarrow> bool"
  assumes sees_valid: "sees s es \<Longrightarrow> src_valid ops s \<longleftrightarrow> es \<noteq> []"
    and sees_step: "sees s (e # es) \<Longrightarrow> src_entry ops s = e \<and> (\<exists>s'. src_next ops s = Inr s' \<and> sees s' es)"
begin

text \<open>A queue of sources that still have entries, each run sorted.\<close>

definition feeds :: "'s list \<Rightarrow> entry list list \<Rightarrow> bool" where
  "feeds h ess \<longleftrightarrow> list_all2 sees h ess \<and> (\<forall>es \<in> set ess. es \<noteq> [] \<and> ent_sorted es)"

text \<open>\<open>pops pick h L\<close>: popping the queue until it is empty yields \<open>L\<close>.\<close>

fun pops :: "('s list \<Rightarrow> nat) \<Rightarrow> 's list \<Rightarrow> entry list \<Rightarrow> bool" where
  "pops pick h [] = (h = [])"
| "pops pick h (e # L) = (h \<noteq> [] \<and> top_entry ops pick h = e \<and> (\<exists>h'. pop_next ops pick h = Inr h' \<and> pops pick h' L))"

lemma top_entry_least:
  assumes "top_ok ops pick" "feeds h ess" "h \<noteq> []" "x \<in> set (concat ess)"
  shows "ent_le (top_entry ops pick h) x"
proof -
  obtain es where es: "es \<in> set ess" "x \<in> set es" using assms(4) by auto
  obtain j where j: "j < length ess" "ess ! j = es" using es(1) by (auto simp: in_set_conv_nth)
  have len: "length h = length ess" using assms(2) by (auto simp: feeds_def dest: list_all2_lengthD)
  have "sees (h ! j) es" using assms(2) j by (auto simp: feeds_def list_all2_conv_all_nth)
  moreover have "ent_sorted es" using es(1) assms(2) by (simp add: feeds_def)
  moreover obtain e es' where "es = e # es'" using es(2) by (cases es) auto
  ultimately have ees: "es = e # es'" "ent_sorted es" "src_entry ops (h ! j) = e" using sees_step by blast+
  have "h ! j \<in> set h" using j len by simp
  then have "\<not> mcmp ops (h ! pick h) (h ! j)" using assms(1,3) unfolding top_ok_def by blast
  then have top: "ent_le (top_entry ops pick h) e"
    using ees(3) by (auto simp: mcmp_def top_entry_def ent_le_def split: if_splits)
  have "ent_le e x" using ees(1,2) es(2) by auto
  with top show ?thesis by (rule ent_le_trans)
qed

lemma pop_next_feeds:
  assumes "top_ok ops pick" "feeds h ess" "h \<noteq> []"
  shows "\<exists>h' ess'. pop_next ops pick h = Inr h' \<and> feeds h' ess' \<and>
    mset (concat ess) = add_mset (top_entry ops pick h) (mset (concat ess'))"
proof -
  define i where "i = pick h"
  have i: "i < length h" using assms(1,3) by (simp add: top_ok_def i_def)
  have all: "list_all2 sees h ess" using assms(2) by (simp add: feeds_def)
  then have len: "length ess = length h" by (simp add: list_all2_lengthD)
  have "sees (h ! i) (ess ! i)" using all i by (simp add: list_all2_conv_all_nth)
  moreover have "ess ! i \<noteq> []" "ent_sorted (ess ! i)" using assms(2) i len by (auto simp: feeds_def)
  then obtain e es where es: "ess ! i = e # es" "ent_sorted es" by (cases "ess ! i") auto
  ultimately obtain s' where s': "src_entry ops (h ! i) = e" "src_next ops (h ! i) = Inr s'" "sees s' es"
    using sees_step by metis
  define hr where "hr = take i h @ drop (Suc i) h"
  define er where "er = take i ess @ drop (Suc i) ess"
  have rest: "list_all2 sees hr er" using all by (auto simp: hr_def er_def intro!: list_all2_appendI list_all2_takeI list_all2_dropI)
  have sub: "set er \<subseteq> set ess" by (auto simp: er_def dest: in_set_takeD in_set_dropD)
  have "ess = take i ess @ (e # es) # drop (Suc i) ess" using id_take_nth_drop [of i ess] i len es by simp
  then have "mset (concat ess) = mset (concat (take i ess @ (e # es) # drop (Suc i) ess))" by simp
  then have ms: "mset (concat ess) = add_mset e (mset es + mset (concat er))" by (simp add: er_def)
  have pop: "pop_next ops pick h = Inr (if src_valid ops s' then s' # hr else hr)"
    using s' by (simp add: pop_next_def i_def [symmetric] hr_def Let_def)
  have feeds: "feeds (if src_valid ops s' then s' # hr else hr) (if es = [] then er else es # er)"
    using sees_valid [OF s'(3)] s'(3) rest sub es(2) assms(2) by (auto simp: feeds_def)
  show ?thesis using pop feeds ms s'(1) by (intro exI conjI) (auto simp: top_entry_def i_def)
qed

lemma pops_exists:
  assumes "top_ok ops pick" "feeds h ess"
  shows "\<exists>L. pops pick h L \<and> ent_sorted L \<and> mset L = mset (concat ess)"
  using assms(2)
proof (induction "length (concat ess)" arbitrary: h ess rule: less_induct)
  case less
  show ?case
  proof (cases "h = []")
    case True
    with less.prems have "ess = []" by (auto simp: feeds_def)
    then show ?thesis using True by (intro exI [of _ "[]"]) simp
  next
    case False
    from pop_next_feeds [OF assms(1) less.prems False] obtain h' ess' where h': "pop_next ops pick h = Inr h'" "feeds h' ess'"
      "mset (concat ess) = add_mset (top_entry ops pick h) (mset (concat ess'))" by blast
    then have "length (concat ess) = Suc (length (concat ess'))" by (metis size_add_mset size_mset)
    with less.hyps [OF _ h'(2)] obtain L where L: "pops pick h' L" "ent_sorted L" "mset L = mset (concat ess')" by auto
    have "ent_le (top_entry ops pick h) x" if "x \<in> set L" for x
      using top_entry_least [OF assms(1) less.prems False] that L(3) h'(3) by (metis insert_iff set_mset_add_mset_insert set_mset_mset)
    with L h' False show ?thesis by (intro exI [of _ "top_entry ops pick h # L"]) auto
  qed
qed

lemma drain_pops:
  assumes "pops pick h L"
  shows "\<exists>h'. drain ops pick snap k best h =
      Some (Inr (if best = None then find (\<lambda>e. eseq e \<le> snap) (takeWhile (\<lambda>e. ekey e = k) L) else best, h')) \<and>
    pops pick h' (dropWhile (\<lambda>e. ekey e = k) L)"
  using assms
proof (induction L arbitrary: h best)
  case Nil
  then show ?case by (subst drain.simps) simp
next
  case (Cons e L)
  then obtain h1 where h1: "h \<noteq> []" "top_entry ops pick h = e" "pop_next ops pick h = Inr h1" "pops pick h1 L" by auto
  show ?case
  proof (cases "ekey e = k")
    case True
    have "drain ops pick snap k best h = drain ops pick snap k (if best = None \<and> eseq e \<le> snap then Some e else best) h1"
      using h1 True by (subst drain.simps) simp
    with Cons.IH [OF h1(4), of "if best = None \<and> eseq e \<le> snap then Some e else best"] True show ?thesis by auto
  next
    case False
    then have "drain ops pick snap k best h = Some (Inr (best, h))" using h1 by (subst drain.simps) simp
    with False Cons.prems show ?thesis by auto
  qed
qed

lemma advance_loop_pops:
  assumes "pops pick h L"
  shows "case newest_visible keep snap L of
      [] \<Rightarrow> advance_loop ops pick keep snap h = Some (Inr (None, []))
    | b # bs \<Rightarrow> \<exists>h' L'. advance_loop ops pick keep snap h = Some (Inr (Some b, h')) \<and> pops pick h' L' \<and>
        newest_visible keep snap L' = bs \<and> length L' < length L"
  using assms
proof (induction "length L" arbitrary: h L rule: less_induct)
  case less
  show ?case
  proof (cases L)
    case Nil
    with less.prems show ?thesis by (subst advance_loop.simps) simp
  next
    case (Cons e M)
    let ?k = "ekey e"
    define G where "G = find (\<lambda>x. eseq x \<le> snap) (takeWhile (\<lambda>x. ekey x = ?k) L)"
    define R where "R = dropWhile (\<lambda>x. ekey x = ?k) M"
    have R: "dropWhile (\<lambda>x. ekey x = ?k) L = R" "length R < length L"
      using Cons length_dropWhile_le [of "\<lambda>x. ekey x = ?k" M] by (auto simp: R_def)
    have h: "h \<noteq> []" "ekey (top_entry ops pick h) = ?k" using less.prems Cons by auto
    obtain h' where h': "drain ops pick snap ?k None h = Some (Inr (G, h'))" "pops pick h' R"
      using drain_pops [OF less.prems, of snap ?k None] R(1) by (auto simp: G_def)
    have step: "advance_loop ops pick keep snap h = (case G of
          Some b \<Rightarrow> if keep \<or> \<not> etomb b then Some (Inr (Some b, h')) else advance_loop ops pick keep snap h'
        | None \<Rightarrow> advance_loop ops pick keep snap h')"
      using h h'(1) by (subst advance_loop.simps) simp
    have nv: "newest_visible keep snap L = (case G of
          Some b \<Rightarrow> if keep \<or> \<not> etomb b then b # newest_visible keep snap R else newest_visible keep snap R
        | None \<Rightarrow> newest_visible keep snap R)"
      unfolding G_def R_def Cons newest_visible.simps Let_def by (rule refl)
    show ?thesis
    proof (cases "\<exists>b. G = Some b \<and> (keep \<or> \<not> etomb b)")
      case True
      then obtain b where b: "G = Some b" "keep \<or> \<not> etomb b" by blast
      then have "advance_loop ops pick keep snap h = Some (Inr (Some b, h'))"
        "newest_visible keep snap L = b # newest_visible keep snap R" using step nv by simp_all
      then show ?thesis using h'(2) R(2) by auto
    next
      case False
      then have "advance_loop ops pick keep snap h = advance_loop ops pick keep snap h'"
        "newest_visible keep snap L = newest_visible keep snap R"
        using step nv by (auto split: option.splits)
      with less.hyps [OF R(2) h'(2)] R(2) show ?thesis
        by (cases "newest_visible keep snap R") (auto dest: less_trans)
    qed
  qed
qed

lemma merge_entries_dedup:
  assumes "pops pick (mheap mi) L" "mvalid mi" "\<not> yield_all_versions mi" "keep_tombstones mi = keep" "snapshot_seq mi = snap"
  shows "merge_entries ops pick mi = Some (Inr (mcur mi # newest_visible keep snap L))"
  using assms
proof (induction "length L" arbitrary: mi L rule: less_induct)
  case less
  show ?case
  proof (cases "newest_visible keep snap L")
    case Nil
    with advance_loop_pops [OF less.prems(1), of keep snap] less.prems
    have "merge_next ops pick mi = Some (Inr (mi\<lparr>mheap := [], mvalid := False\<rparr>))" by (simp add: merge_next_def advance_def)
    then show ?thesis using Nil less.prems(2)
      by (subst merge_entries.simps) (simp add: merge_entries.simps [of _ _ "mi\<lparr>mheap := [], mvalid := False\<rparr>"])
  next
    case (Cons b bs)
    with advance_loop_pops [OF less.prems(1), of keep snap] obtain h' L' where
      h': "advance_loop ops pick keep snap (mheap mi) = Some (Inr (Some b, h'))" "pops pick h' L'"
        "newest_visible keep snap L' = bs" "length L' < length L" by auto
    define mi' where "mi' = mi\<lparr>mcur := b, mheap := h', mvalid := True\<rparr>"
    have "merge_next ops pick mi = Some (Inr mi')" using h'(1) less.prems by (simp add: merge_next_def advance_def mi'_def)
    moreover have "merge_entries ops pick mi' = Some (Inr (b # bs))"
      using less.hyps [OF h'(4), of mi'] h'(2,3) less.prems by (simp add: mi'_def)
    ultimately show ?thesis using Cons less.prems(2) by (subst merge_entries.simps) simp
  qed
qed

lemma merge_entries_all:
  assumes "pops pick (mheap mi) L" "mvalid mi" "yield_all_versions mi"
  shows "merge_entries ops pick mi = Some (Inr (mcur mi # L))"
  using assms
proof (induction L arbitrary: mi)
  case Nil
  then have "merge_next ops pick mi = Some (Inr (mi\<lparr>mvalid := False\<rparr>))" by (simp add: merge_next_def advance_def)
  then show ?case using Nil.prems
    by (subst merge_entries.simps) (simp add: merge_entries.simps [of _ _ "mi\<lparr>mvalid := False\<rparr>"])
next
  case (Cons e L)
  then obtain h' where h': "mheap mi \<noteq> []" "top_entry ops pick (mheap mi) = e" "pop_next ops pick (mheap mi) = Inr h'" "pops pick h' L"
    by auto
  define mi' where "mi' = mi\<lparr>mcur := e, mheap := h', mvalid := True\<rparr>"
  have "merge_next ops pick mi = Some (Inr mi')" using h' Cons.prems by (simp add: merge_next_def advance_def mi'_def)
  moreover have "merge_entries ops pick mi' = Some (Inr (e # L))" using Cons.IH [of mi'] h'(4) Cons.prems by (simp add: mi'_def)
  ultimately show ?case using Cons.prems(2) by (subst merge_entries.simps) simp
qed

lemma merge_run_pops:
  assumes "pops pick (filter (src_valid ops) sources) L"
  shows "merge_run ops pick sources keep snap True = Some (Inr L)"
    and "merge_run ops pick sources keep snap False = Some (Inr (newest_visible keep snap L))"
proof -
  let ?h = "filter (src_valid ops) sources"
  let ?mi = "\<lambda>ya. \<lparr>mheap = ?h, mcur = no_entry, keep_tombstones = keep, snapshot_seq = snap, yield_all_versions = ya, mvalid = False\<rparr>"
  show "merge_run ops pick sources keep snap True = Some (Inr L)"
  proof (cases L)
    case Nil
    then show ?thesis using assms by (simp add: merge_run_def merge_new_def advance_def merge_entries.simps)
  next
    case (Cons e M)
    then obtain h' where h': "?h \<noteq> []" "top_entry ops pick ?h = e" "pop_next ops pick ?h = Inr h'" "pops pick h' M" using assms by auto
    have "merge_new ops pick sources keep snap True = Some (Inr ((?mi True)\<lparr>mcur := e, mheap := h', mvalid := True\<rparr>))"
      using h' by (simp add: merge_new_def advance_def)
    then show ?thesis using h'(4) Cons by (simp add: merge_run_def merge_entries_all)
  qed
  show "merge_run ops pick sources keep snap False = Some (Inr (newest_visible keep snap L))"
  proof (cases "newest_visible keep snap L")
    case Nil
    with advance_loop_pops [OF assms, of keep snap] show ?thesis
      by (simp add: merge_run_def merge_new_def advance_def merge_entries.simps)
  next
    case (Cons b bs)
    with advance_loop_pops [OF assms, of keep snap] obtain h' L' where
      h': "advance_loop ops pick keep snap ?h = Some (Inr (Some b, h'))" "pops pick h' L'" "newest_visible keep snap L' = bs" by auto
    then have "merge_new ops pick sources keep snap False = Some (Inr ((?mi False)\<lparr>mcur := b, mheap := h', mvalid := True\<rparr>))"
      by (simp add: merge_new_def advance_def)
    then show ?thesis using h'(2,3) Cons merge_entries_dedup [of pick "(?mi False)\<lparr>mcur := b, mheap := h', mvalid := True\<rparr>" L']
      by (simp add: merge_run_def)
  qed
qed

lemma feeds_filter:
  assumes "list_all2 sees sources ess" "\<forall>es \<in> set ess. ent_sorted es"
  shows "feeds (filter (src_valid ops) sources) (filter (\<lambda>es. es \<noteq> []) ess)"
  using assms
proof (induction rule: list_all2_induct)
  case (Cons s ss es ess)
  from sees_valid [OF Cons(1)] Cons show ?case by (cases es) (auto simp: feeds_def)
qed (simp add: feeds_def)

lemma concat_filter_nonempty: "concat (filter (\<lambda>es. es \<noteq> []) ess) = concat ess"
  by (induction ess) auto

lemma merge_run_spec:
  assumes "top_ok ops pick" "list_all2 sees sources ess" "\<forall>es \<in> set ess. ent_sorted es"
  shows "\<exists>L. ent_sorted L \<and> mset L = mset (concat ess) \<and>
    merge_run ops pick sources keep snap True = Some (Inr L) \<and>
    merge_run ops pick sources keep snap False = Some (Inr (newest_visible keep snap L))"
proof -
  obtain L where "pops pick (filter (src_valid ops) sources) L" "ent_sorted L" "mset L = mset (concat ess)"
    using pops_exists [OF assms(1) feeds_filter [OF assms(2,3)]] unfolding concat_filter_nonempty by blast
  then show ?thesis using merge_run_pops by blast
qed

end

section \<open>The three sources keep it\<close>

fun source_sees :: "merge_source \<Rightarrow> entry list \<Rightarrow> bool" where
  "source_sees (MemtableSource h p cur v) es \<longleftrightarrow>
     (\<exists>x as. chain h 0 x as \<and> x < length h \<and> 0 < height h x \<and> p = hd_ptr as \<and> es = entries_at h as \<and>
       v = (as \<noteq> []) \<and> (as \<noteq> [] \<longrightarrow> cur = node_entry (h ! hd as)))"
| "source_sees (SSTableSource rp t it cur v) es \<longleftrightarrow>
     rp = healthy \<and> v = ivalid it \<and> (v \<longrightarrow> cur = icur it) \<and> (\<exists>bs. table_of t bs \<and> it_sees bs it es)"
| "source_sees (SnapshotSource xs i) es \<longleftrightarrow> es = drop i xs"

lemma it_sees_valid: "it_sees bs it es \<Longrightarrow> ivalid it \<longleftrightarrow> es \<noteq> []"
  by (auto simp: it_sees_def it_pos_def split: list.splits)

interpretation sources: merge_feed merge_source_ops source_sees
proof unfold_locales
  fix s es assume "source_sees s es"
  then show "src_valid merge_source_ops s \<longleftrightarrow> es \<noteq> []"
    by (cases s) (auto simp: merge_source_ops_def it_sees_valid)
next
  fix s e es assume sees: "source_sees s (e # es)"
  show "src_entry merge_source_ops s = e \<and> (\<exists>s'. src_next merge_source_ops s = Inr s' \<and> source_sees s' es)"
  proof (cases s)
    case (MemtableSource h p cur v)
    then obtain x a as where c: "chain h 0 x (a # as)" "p = Some a" "e = node_entry (h ! a)" "es = entries_at h as" "v" "cur = e"
      using sees by (auto simp: Cons_eq_map_conv)
    then have a: "chain h 0 a as" "a < length h" "0 < height h a" by (auto simp: chain_Cons)
    let ?s = "MemtableSource h (hd_ptr as) (if as = [] then cur else node_entry (h ! hd as)) (as \<noteq> [])"
    have "source_next s = Inr ?s" using MemtableSource c chain_load [OF a] by (cases as) auto
    moreover have "source_sees ?s es"
      unfolding source_sees.simps by (intro exI [of _ a] exI [of _ as]) (use a c(4) in simp)
    ultimately show ?thesis using MemtableSource c by (simp add: merge_source_ops_def)
  next
    case (SSTableSource rp t it cur v)
    then obtain bs where bs: "table_of t bs" "it_sees bs it (e # es)" "rp = healthy" "cur = icur it" "v"
      using sees it_sees_valid by fastforce
    from it_next_sees [OF bs(1,2)] obtain it' where it': "it_next healthy t it = Inr it'" "it_sees bs it' es" by blast
    have "source_next s = Inr (if ivalid it' then SSTableSource rp t it' (icur it') True else SSTableSource rp t it' cur False)"
      using SSTableSource bs it' by simp
    moreover have "source_sees (if ivalid it' then SSTableSource rp t it' (icur it') True else SSTableSource rp t it' cur False) es"
      using bs it' by auto
    moreover have "cur = e" using bs(2,4) by (simp add: it_sees_def)
    ultimately show ?thesis using SSTableSource by (simp add: merge_source_ops_def)
  next
    case (SnapshotSource xs i)
    then have i: "drop i xs = e # es" using sees by simp
    then have "i < length xs" by (metis drop_all leI list.distinct(1))
    then have "xs ! i = e \<and> drop (Suc i) xs = es" using i by (metis Cons_nth_drop_Suc list.inject)
    then show ?thesis using SnapshotSource by (simp add: merge_source_ops_def)
  qed
qed

text \<open>What freshly constructed sources see.\<close>

lemma mem_source_sees:
  assumes "mt_ok m"
  shows "\<exists>s. mem_source m = Inr s \<and> source_sees s (mt_versions m)"
proof -
  obtain ord where inv: "mt_inv m ord" using assms by (auto simp: mt_ok_def)
  have h: "0 < length (heap m)" "0 < height (heap m) 0" using inv by (auto simp: mt_inv_def)
  note c = chain_0 [OF inv] h
  show ?thesis
  proof (cases ord)
    case Nil
    then show ?thesis using chain_load [OF c] c mt_versions_inv [OF inv] by (auto simp: mem_source_def raw_begin_def)
  next
    case (Cons a as)
    have "mem_source m = Inr (MemtableSource (heap m) (Some a) (node_entry (heap m ! a)) True)"
      using chain_load [OF c] Cons by (simp add: mem_source_def raw_begin_def)
    moreover have "source_sees (MemtableSource (heap m) (Some a) (node_entry (heap m ! a)) True) (mt_versions m)"
      unfolding source_sees.simps using c Cons mt_versions_inv [OF inv] by (intro exI [of _ 0] exI [of _ ord]) simp
    ultimately show ?thesis by blast
  qed
qed

lemma sst_source_of_sees: "table_of t bs \<Longrightarrow> it_sees bs it es \<Longrightarrow> source_sees (sst_source_of healthy t it) es"
  by (auto simp: sst_source_of_def)

lemma sst_source_sees:
  assumes "table_of t bs"
  shows "\<exists>s. sst_source healthy t = Inr s \<and> source_sees s (map stored (concat bs))"
  using it_begin_sees [OF assms] sst_source_of_sees [OF assms] by (auto simp: sst_source_def)

lemma sst_source_at_sees:
  assumes "table_of t bs" "ent_sorted (concat bs)" "no_straddle bs"
  shows "\<exists>s. sst_source_at healthy t k = Some (Inr s) \<and> source_sees s (map stored (dropWhile (\<lambda>e. ekey e < k) (concat bs)))"
  using it_seek_sees [OF assms, of k] sst_source_of_sees [OF assms(1)] by (auto simp: sst_source_at_def)

lemma snapshot_source_sees: "source_sees (snapshot_source es) es"
  by (simp add: snapshot_source_def)

section \<open>Properties\<close>

text \<open>A choice of \<open>top()\<close> that keeps the library's promise: the first least element.\<close>

definition first_top :: "'s source_ops \<Rightarrow> 's list \<Rightarrow> nat" where
  "first_top ops h = (case filter (\<lambda>i. list_all (\<lambda>y. \<not> mcmp ops (h ! i) y) h) [0..<length h] of [] \<Rightarrow> 0 | i # _ \<Rightarrow> i)"

lemma mcmp_ent_less: "mcmp ops a b \<longleftrightarrow> ent_less (src_entry ops b) (src_entry ops a)"
  by (auto simp: mcmp_def ent_less_def)

lemma least_exists: "h \<noteq> [] \<Longrightarrow> \<exists>x \<in> set h. \<forall>y \<in> set h. \<not> mcmp ops x y"
proof (induction h)
  case (Cons a h)
  show ?case
  proof (cases "h = []")
    case False
    with Cons obtain x where x: "x \<in> set h" "\<forall>y \<in> set h. ent_le (src_entry ops x) (src_entry ops y)" by (auto simp: mcmp_ent_less)
    have "ent_le (src_entry ops x) (src_entry ops a) \<or> ent_le (src_entry ops a) (src_entry ops x)" by (rule ent_le_total)
    then show ?thesis
    proof
      assume "ent_le (src_entry ops a) (src_entry ops x)"
      with x have "\<forall>y \<in> set (a # h). ent_le (src_entry ops a) (src_entry ops y)" by (auto intro: ent_le_trans)
      then show ?thesis by (auto simp: mcmp_ent_less)
    qed (use x in \<open>auto simp: mcmp_ent_less\<close>)
  qed (simp add: mcmp_ent_less)
qed simp

lemma first_top_ok: "top_ok ops (first_top ops)"
  unfolding top_ok_def
proof (intro allI impI)
  fix h :: "'a list" assume "h \<noteq> []"
  then obtain x where "x \<in> set h" "\<forall>y \<in> set h. \<not> mcmp ops x y" using least_exists by blast
  then obtain i where i: "i < length h" "\<forall>y \<in> set h. \<not> mcmp ops (h ! i) y" by (metis in_set_conv_nth)
  define F where "F = filter (\<lambda>i. list_all (\<lambda>y. \<not> mcmp ops (h ! i) y) h) [0..<length h]"
  have "i \<in> set F" using i by (simp add: F_def list_all_iff)
  then obtain j js where F: "F = j # js" by (cases F) auto
  then have "j \<in> set F" by simp
  then have "j < length h \<and> (\<forall>y \<in> set h. \<not> mcmp ops (h ! j) y)" by (simp add: F_def list_all_iff)
  moreover have "first_top ops h = j" using F by (simp add: first_top_def F_def)
  ultimately show "first_top ops h < length h \<and> (\<forall>y \<in> set h. \<not> mcmp ops (h ! first_top ops h) y)" by simp
qed

text \<open>
  Merging all versions: from any sources whose runs are sorted, whichever of several least sources
  the queue returns, the merge ends without error and yields every entry of every run exactly once,
  in order.
\<close>

lemma merge_all_versions:
  assumes "top_ok merge_source_ops pick" "list_all2 source_sees srcs ess" "\<forall>es \<in> set ess. ent_sorted es"
  shows "\<exists>out. merge_run merge_source_ops pick srcs keep snap True = Some (Inr out) \<and>
    ent_sorted out \<and> mset out = mset (concat ess)"
  using sources.merge_run_spec [OF assms] by blast

text \<open>
  C34. Merging for a reader: the merge ends without error and yields, in strictly ascending order of
  the keys, of every key the newest version of all runs that the snapshot may see; a key whose newest
  visible version is a deletion is left out unless deletions are kept, and no other key is.
\<close>

theorem merge_newest_visible:
  assumes "top_ok merge_source_ops pick" "list_all2 source_sees srcs ess" "\<forall>es \<in> set ess. ent_sorted es"
  shows "\<exists>out. merge_run merge_source_ops pick srcs keep snap False = Some (Inr out) \<and>
    sorted_wrt (\<lambda>a b. ekey a < ekey b) out \<and>
    (\<forall>e \<in> set out. newest (set (concat ess)) (ekey e) snap e \<and> (keep \<or> \<not> etomb e)) \<and>
    (\<forall>k. visible (set (concat ess)) k snap \<noteq> {} \<longrightarrow>
       (\<exists>e \<in> set out. ekey e = k) \<or> \<not> keep \<and> (\<exists>e. newest (set (concat ess)) k snap e \<and> etomb e))"
proof -
  obtain L where L: "ent_sorted L" "mset L = mset (concat ess)"
    "merge_run merge_source_ops pick srcs keep snap False = Some (Inr (newest_visible keep snap L))"
    using sources.merge_run_spec [OF assms] by blast
  note nv = newest_visible_spec [OF L(1)]
  have set: "set L = set (concat ess)" using L(2) by (rule mset_eq_setD)
  have new: "newest (set (concat ess)) k snap e" if "lookup_run L k snap = Some e" for k e
    using lookup_run_newest [OF L(1) that] by (simp only: set)
  have "(\<exists>e \<in> set (newest_visible keep snap L). ekey e = k) \<or> \<not> keep \<and> (\<exists>e. newest (set (concat ess)) k snap e \<and> etomb e)"
    if "visible (set (concat ess)) k snap \<noteq> {}" for k
  proof -
    have "lookup_run L k snap \<noteq> None" unfolding lookup_run_None_iff set by (rule that)
    then obtain e where e: "lookup_run L k snap = Some e" by blast
    have "ekey e = k" using lookup_run_SomeD [OF e] by blast
    with e nv(2) [of e keep snap] new [OF e] show ?thesis by auto
  qed
  with L(3) nv(1) nv(2) new show ?thesis by blast
qed

theorem merge_newest_visible_witness:
  "\<exists>out. merge_run merge_source_ops (first_top merge_source_ops)
     [snapshot_source [\<lparr>ekey = [1], evalue = [7], etomb = False, eseq = 5\<rparr>],
      snapshot_source [\<lparr>ekey = [1], evalue = [8], etomb = False, eseq = 2\<rparr>]] False 3 False = Some (Inr out) \<and>
     (\<exists>e \<in> set out. ekey e = [1])"
proof -
  let ?e5 = "\<lparr>ekey = [1], evalue = [7], etomb = False, eseq = 5\<rparr> :: entry" and ?e2 = "\<lparr>ekey = [1], evalue = [8], etomb = False, eseq = 2\<rparr> :: entry"
  have sees: "list_all2 source_sees [snapshot_source [?e5], snapshot_source [?e2]] [[?e5], [?e2]]" by (simp add: snapshot_source_sees)
  have sorted: "\<forall>es \<in> set [[?e5], [?e2]]. ent_sorted es" by simp
  have "?e2 \<in> visible (set (concat [[?e5], [?e2]])) [1] 3" by (simp add: visible_def)
  moreover have "\<not> etomb e" if "newest (set (concat [[?e5], [?e2]])) [1] 3 e" for e
  proof -
    have "e \<in> set (concat [[?e5], [?e2]])" using that unfolding newest_def visible_def by blast
    then show ?thesis by auto
  qed
  moreover obtain out where out: "merge_run merge_source_ops (first_top merge_source_ops) [snapshot_source [?e5], snapshot_source [?e2]]
      False 3 False = Some (Inr out)"
    "\<forall>k. visible (set (concat [[?e5], [?e2]])) k 3 \<noteq> {} \<longrightarrow>
       (\<exists>e \<in> set out. ekey e = k) \<or> \<not> False \<and> (\<exists>e. newest (set (concat [[?e5], [?e2]])) k 3 e \<and> etomb e)"
    using merge_newest_visible [OF first_top_ok sees sorted, of False 3] by blast
  ultimately have "\<exists>e \<in> set out. ekey e = [1]" by blast
  with out(1) show ?thesis by blast
qed

end
