(* ===== verification/Db_Version.thy ===== *)
theory Db_Version
  imports Wal Manifest Merge_Iterator
begin

text \<open>
  \<open>include/keystone/version.h\<close>, the options of \<open>include/keystone/db.h\<close> and the helpers of
  \<open>src/db.cpp\<close> that look at one version: sizes, the manifest entries, and the choice of a compaction.
\<close>

section \<open>Data\<close>

text \<open>\<open>struct Options\<close>; the two level limits are multiplied and keep their 64 bits.\<close>

record options =
  opt_sync :: SyncMode
  flush_threshold_bytes :: nat
  compaction_trigger :: nat
  block_cache_bytes :: nat
  target_file_size :: nat
  l1_max_bytes :: u64
  level_size_multiplier :: u64

definition default_options :: options where
  "default_options =
     \<lparr>opt_sync = EveryWrite, flush_threshold_bytes = 4 * 1024 * 1024, compaction_trigger = 4,
      block_cache_bytes = 16 * 1024 * 1024, target_file_size = 2 * 1024 * 1024,
      l1_max_bytes = 8 * 1024 * 1024, level_size_multiplier = 10\<rparr>"

record file_meta =
  fm_number :: int
  fm_level :: int
  fm_smallest :: key
  fm_largest :: key
  fm_table :: sstable

definition kMaxLevels :: nat where "kMaxLevels = 7"

text \<open>\<open>std::vector<FileMeta> files[kMaxLevels]\<close>: the files of each level.\<close>

record version =
  files :: "nat \<Rightarrow> file_meta list"

definition empty_version :: version where
  "empty_version = \<lparr>files = \<lambda>_. []\<rparr>"

section \<open>Helpers\<close>

definition level_bytes :: "version \<Rightarrow> nat \<Rightarrow> u64" where
  "level_bytes ver level = sum_list (map (\<lambda>fm. fentry_count (tfooter (fm_table fm)) * 64) (files ver level))"

definition max_level_bytes :: "options \<Rightarrow> nat \<Rightarrow> u64" where
  "max_level_bytes opts level =
     (if level = 0 then 0 else fold (\<lambda>l limit. limit * level_size_multiplier opts) [2..<Suc level] (l1_max_bytes opts))"

definition needs_compaction :: "options \<Rightarrow> version \<Rightarrow> bool" where
  "needs_compaction opts ver \<longleftrightarrow>
     length (files ver 0) \<ge> compaction_trigger opts \<or>
     list_ex (\<lambda>level. level_bytes ver level > max_level_bytes opts level) [1..<kMaxLevels - 1]"

definition total_file_count :: "version \<Rightarrow> nat" where
  "total_file_count ver = sum_list (map (\<lambda>l. length (files ver l)) [0..<kMaxLevels])"

definition max_populated_level :: "version \<Rightarrow> nat" where
  "max_populated_level ver =
     (case find (\<lambda>l. files ver l \<noteq> []) (rev [0..<kMaxLevels]) of Some l \<Rightarrow> l | None \<Rightarrow> 0)"

definition version_to_manifest :: "version \<Rightarrow> manifest_entry list" where
  "version_to_manifest ver =
     concat (map (\<lambda>l. map (\<lambda>fm. \<lparr>mnumber = fm_number fm, mlevel = fm_level fm,
       smallest_key = fm_smallest fm, largest_key = fm_largest fm\<rparr>) (files ver l)) [0..<kMaxLevels])"

text \<open>\<open>live_snapshots_\<close> is a multiset; its least element.\<close>

definition oldest_live_snapshot :: "u64 list \<Rightarrow> u64" where
  "oldest_live_snapshot snaps = (case snaps of [] \<Rightarrow> UINT64_MAX | s # ss \<Rightarrow> fold min ss s)"

section \<open>Picking a compaction\<close>

record compaction_job =
  output_level :: nat
  job_inputs :: "file_meta list"
  is_bottommost :: bool

definition no_job :: compaction_job where
  "no_job = \<lparr>output_level = 0, job_inputs = [], is_bottommost = False\<rparr>"

text \<open>The key range of the level-0 files; the empty string stands for a bound not set yet.\<close>

fun l0_range :: "file_meta list \<Rightarrow> key \<times> key \<Rightarrow> key \<times> key" where
  "l0_range [] r = r"
| "l0_range (fm # fms) (range_min, range_max) =
     l0_range fms
       (if range_min = [] \<or> fm_smallest fm < range_min then fm_smallest fm else range_min,
        if range_max = [] \<or> fm_largest fm > range_max then fm_largest fm else range_max)"

text \<open>\<open>if (fm.largest_key < lo || fm.smallest_key > hi) continue;\<close>\<close>

definition overlaps :: "key \<Rightarrow> key \<Rightarrow> file_meta \<Rightarrow> bool" where
  "overlaps lo hi fm \<longleftrightarrow> \<not> (fm_largest fm < lo \<or> fm_smallest fm > hi)"

text \<open>The file with the least number, the first of them.\<close>

fun pick_lowest :: "file_meta option \<Rightarrow> file_meta list \<Rightarrow> file_meta option" where
  "pick_lowest pick [] = pick"
| "pick_lowest pick (fm # fms) =
     pick_lowest (case pick of None \<Rightarrow> Some fm | Some p \<Rightarrow> if fm_number fm < fm_number p then Some fm else Some p) fms"

fun pick_level :: "options \<Rightarrow> version \<Rightarrow> nat list \<Rightarrow> compaction_job" where
  "pick_level opts ver [] = no_job"
| "pick_level opts ver (level # levels) =
     (if level_bytes ver level \<le> max_level_bytes opts level then pick_level opts ver levels
      else case pick_lowest None (files ver level) of
        None \<Rightarrow> pick_level opts ver levels
      | Some pick \<Rightarrow>
          \<lparr>output_level = level + 1,
           job_inputs = pick # filter (overlaps (fm_smallest pick) (fm_largest pick)) (files ver (level + 1)),
           is_bottommost = (level + 1 \<ge> max_populated_level ver)\<rparr>)"

definition pick_compaction :: "bool \<Rightarrow> options \<Rightarrow> version \<Rightarrow> compaction_job" where
  "pick_compaction force opts ver =
     (if force then
        let ins = concat (map (files ver) [0..<kMaxLevels]) in
        if length ins \<ge> 2 then \<lparr>output_level = 1, job_inputs = ins, is_bottommost = True\<rparr>
        else no_job\<lparr>job_inputs := ins\<rparr>
      else if length (files ver 0) \<ge> compaction_trigger opts then
        let (range_min, range_max) = l0_range (files ver 0) ([], []) in
        \<lparr>output_level = 1,
         job_inputs = files ver 0 @ filter (overlaps range_min range_max) (files ver 1),
         is_bottommost = (1 \<ge> max_populated_level ver \<or> max_populated_level ver = 0)\<rparr>
      else pick_level opts ver [1..<kMaxLevels - 1])"

end
