(* ===== verification/Db.thy ===== *)
theory Db
  imports Db_Version
begin

text \<open>
  \<open>include/keystone/db.h\<close>, \<open>src/db.cpp\<close>: the database object and its readers. The state a lock protects
  is one record; a function that takes the lock is one step on it. The replies of the kernel to the
  reads of a file are an argument, by file number.
\<close>

section \<open>The object\<close>

text \<open>
  The fields of \<open>class DB\<close> that carry state; \<open>write_queue_\<close> is with the writers in \<open>Db_Write\<close>.
  \<open>disk\<close> are the installed table files of the directory.
\<close>

record db =
  opts :: options
  cache :: "block_cache option"
  mtable :: memtable
  db_wal :: wal
  db_manifest :: manifest
  current_version :: version
  next_sst_number :: int
  next_seq :: u64
  live_snapshots :: "u64 list"
  compaction_pending :: bool
  compaction_running :: bool
  force_compact :: bool
  disk :: "int \<rightharpoonup> afile"

definition kMemtableHeight :: nat where "kMemtableHeight = 12"

section \<open>Point reads\<close>

text \<open>\<open>if (!table->may_contain(key)) continue; auto result = table->get(key, snap_seq);\<close>\<close>

definition probe :: "sys_ret option \<Rightarrow> key \<Rightarrow> u64 \<Rightarrow> sstable \<Rightarrow> block_cache option
    \<Rightarrow> (sst_error + status) \<times> block_cache option" where
  "probe r k s t c = (if sst_may_contain t k then sst_get c r t k s else (Inr NotFound, c))"

text \<open>A loop over files that ends at the first answer.\<close>

fun get_files :: "(int \<Rightarrow> sys_ret option) \<Rightarrow> key \<Rightarrow> u64 \<Rightarrow> file_meta list \<Rightarrow> block_cache option
    \<Rightarrow> (sst_error + status) \<times> block_cache option" where
  "get_files rp k s [] c = (Inr NotFound, c)"
| "get_files rp k s (fm # fms) c =
     (case probe (rp (fm_number fm)) k s (fm_table fm) c of
        (Inr NotFound, c') \<Rightarrow> get_files rp k s fms c'
      | (res, c') \<Rightarrow> (res, c'))"

text \<open>
  \<open>std::upper_bound\<close> on a level sorted by \<open>smallest_key\<close>, the step back, and the test of \<open>largest_key\<close>:
  the one file that may hold the key.
\<close>

definition covering_file :: "key \<Rightarrow> file_meta list \<Rightarrow> file_meta option" where
  "covering_file k fms =
     (let n = length (takeWhile (\<lambda>f. \<not> k < fm_smallest f) fms) in
      if n = 0 then None
      else let f = fms ! (n - 1) in if k \<le> fm_largest f then Some f else None)"

definition level_candidates :: "key \<Rightarrow> version \<Rightarrow> file_meta list" where
  "level_candidates k ver =
     List.map_filter (\<lambda>level. covering_file k (files ver level)) [1..<kMaxLevels]"

definition get_impl :: "(int \<Rightarrow> sys_ret option) \<Rightarrow> key \<Rightarrow> u64 \<Rightarrow> db \<Rightarrow> ((sst_error + bytes option) \<times> db) option" where
  "get_impl rp k snap_seq d =
     (case mt_lookup k snap_seq (mtable d) of
        None \<Rightarrow> None
      | Some (Found v) \<Rightarrow> Some (Inr (Some v), d)
      | Some Deleted \<Rightarrow> Some (Inr None, d)
      | Some NotFound \<Rightarrow>
          (let ver = current_version d in
           case get_files rp k snap_seq (rev (files ver 0)) (cache d) of
             (Inl e, c) \<Rightarrow> Some (Inl e, d\<lparr>cache := c\<rparr>)
           | (Inr (Found v), c) \<Rightarrow> Some (Inr (Some v), d\<lparr>cache := c\<rparr>)
           | (Inr Deleted, c) \<Rightarrow> Some (Inr None, d\<lparr>cache := c\<rparr>)
           | (Inr NotFound, c) \<Rightarrow>
               (case get_files rp k snap_seq (level_candidates k ver) c of
                  (Inl e, c') \<Rightarrow> Some (Inl e, d\<lparr>cache := c'\<rparr>)
                | (Inr (Found v), c') \<Rightarrow> Some (Inr (Some v), d\<lparr>cache := c'\<rparr>)
                | (Inr _, c') \<Rightarrow> Some (Inr None, d\<lparr>cache := c'\<rparr>))))"

definition db_get :: "(int \<Rightarrow> sys_ret option) \<Rightarrow> key \<Rightarrow> db \<Rightarrow> ((sst_error + bytes option) \<times> db) option" where
  "db_get rp k d = get_impl rp k UINT64_MAX d"

definition db_get_at :: "(int \<Rightarrow> sys_ret option) \<Rightarrow> key \<Rightarrow> u64 \<Rightarrow> db \<Rightarrow> ((sst_error + bytes option) \<times> db) option" where
  "db_get_at rp k snap d = get_impl rp k snap d"

section \<open>Range reads\<close>

text \<open>The sources over tables, each a seek to \<open>start\<close>; a failing constructor throws.\<close>

fun seek_sources :: "(int \<Rightarrow> preads) \<Rightarrow> key \<Rightarrow> file_meta list \<Rightarrow> (sst_error + merge_source list) option" where
  "seek_sources rp start [] = Some (Inr [])"
| "seek_sources rp start (fm # fms) =
     (case sst_source_at (rp (fm_number fm)) (fm_table fm) start of
        None \<Rightarrow> None
      | Some (Inl e) \<Rightarrow> Some (Inl e)
      | Some (Inr s) \<Rightarrow>
          (case seek_sources rp start fms of
             None \<Rightarrow> None | Some (Inl e) \<Rightarrow> Some (Inl e) | Some (Inr ss) \<Rightarrow> Some (Inr (s # ss))))"

text \<open>The loop over the merge: what it emitted, and the exception that ended it.\<close>

partial_function (option) scan_loop ::
  "(merge_source list \<Rightarrow> nat) \<Rightarrow> key \<Rightarrow> merge_source merge_iter \<Rightarrow> ((key \<times> bytes) list \<times> sst_error option) option" where
  "scan_loop pick fin it =
     (if mvalid it \<and> ekey (mcur it) \<le> fin then
        Option.bind (merge_next merge_source_ops pick it)
          (\<lambda>r. case r of
             Inl e \<Rightarrow> Some ([(ekey (mcur it), evalue (mcur it))], Some e)
           | Inr it' \<Rightarrow> Option.bind (scan_loop pick fin it')
               (\<lambda>(out, e). Some ((ekey (mcur it), evalue (mcur it)) # out, e)))
      else Some ([], None))"

definition scan_files :: "key \<Rightarrow> key \<Rightarrow> version \<Rightarrow> file_meta list" where
  "scan_files start fin ver =
     files ver 0 @
     concat (map (\<lambda>level. filter (\<lambda>fm. \<not> (fm_largest fm < start \<or> fm_smallest fm > fin)) (files ver level)) [1..<kMaxLevels])"

definition scan_impl :: "(merge_source list \<Rightarrow> nat) \<Rightarrow> (int \<Rightarrow> preads) \<Rightarrow> key \<Rightarrow> key \<Rightarrow> u64 \<Rightarrow> db
    \<Rightarrow> ((key \<times> bytes) list \<times> sst_error option) option" where
  "scan_impl pick rp start fin snap_seq d =
     Option.bind (raw_entries_from start (mtable d)) (\<lambda>raw.
       let mt_snapshot = takeWhile (\<lambda>e. \<not> ekey e > fin) raw in
       Option.bind (seek_sources rp start (scan_files start fin (current_version d))) (\<lambda>r.
         case r of
           Inl e \<Rightarrow> Some ([], Some e)
         | Inr srcs \<Rightarrow>
             Option.bind (merge_new merge_source_ops pick (snapshot_source mt_snapshot # srcs) False snap_seq False) (\<lambda>r.
               case r of Inl e \<Rightarrow> Some ([], Some e) | Inr it \<Rightarrow> scan_loop pick fin it)))"

definition db_scan :: "(merge_source list \<Rightarrow> nat) \<Rightarrow> (int \<Rightarrow> preads) \<Rightarrow> key \<Rightarrow> key \<Rightarrow> db \<Rightarrow> ((key \<times> bytes) list \<times> sst_error option) option" where
  "db_scan pick rp start fin d = scan_impl pick rp start fin UINT64_MAX d"

definition db_scan_at :: "(merge_source list \<Rightarrow> nat) \<Rightarrow> (int \<Rightarrow> preads) \<Rightarrow> key \<Rightarrow> key \<Rightarrow> u64 \<Rightarrow> db
    \<Rightarrow> ((key \<times> bytes) list \<times> sst_error option) option" where
  "db_scan_at pick rp start fin snap d = scan_impl pick rp start fin snap d"

section \<open>Snapshots\<close>

definition get_snapshot :: "db \<Rightarrow> u64 \<times> db" where
  "get_snapshot d = (let s = next_seq d - 1 in (s, d\<lparr>live_snapshots := s # live_snapshots d\<rparr>))"

definition release_snapshot :: "u64 \<Rightarrow> db \<Rightarrow> db" where
  "release_snapshot s d = d\<lparr>live_snapshots := remove1 s (live_snapshots d)\<rparr>"

end
