(* ===== verification/Db_Inv.thy ===== *)
theory Db_Inv
  imports Db
begin

text \<open>
  The invariant of the database and what its readers return under it. The versions of the database
  are a list of runs, newest first: the memtable, the level-0 files from the last to the first, and
  each deeper level.
\<close>

section \<open>Runs\<close>

lemma run_status_append:
  "run_status (xs @ ys) k s = (if run_status xs k s = NotFound then run_status ys k s else run_status xs k s)"
  by (auto simp: run_status_def lookup_run_append status_of_def split: option.splits)

lemma run_status_Nil [simp]: "run_status [] k s = NotFound"
  by (simp add: run_status_def)

lemma run_status_no_key: "\<forall>e \<in> set es. ekey e \<noteq> k \<Longrightarrow> run_status es k s = NotFound"
  by (simp add: run_status_def lookup_run_no_key)

text \<open>
  \<open>recent xs ys\<close>: a version in \<open>ys\<close> is no newer than those of its key in \<open>xs\<close>, or is there as well
  (after a crash between the installation of a table and the truncation of the log, the log brings
  back versions that the table has).
\<close>

definition recent :: "entry list \<Rightarrow> entry list \<Rightarrow> bool" where
  "recent xs ys \<longleftrightarrow> (\<forall>x \<in> set xs. \<forall>y \<in> set ys. ekey x = ekey y \<longrightarrow> eseq y \<le> eseq x \<or> y \<in> set xs)"

lemma recent_newest:
  assumes "recent xs ys" "newest (set xs) k s e"
  shows "newest (set xs \<union> set ys) k s e"
proof -
  have e: "e \<in> set xs" "ekey e = k" "eseq e \<le> s" using assms(2) by (auto simp: newest_def visible_def)
  have "eseq y \<le> eseq e" if "y \<in> set ys" "ekey y = k" "eseq y \<le> s" for y
  proof -
    from assms(1) e that have "eseq y \<le> eseq e \<or> y \<in> set xs" by (auto simp: recent_def)
    with assms(2) that show ?thesis by (auto simp: newest_def visible_def)
  qed
  with assms(2) show ?thesis by (auto simp: newest_def visible_def)
qed

lemma recent_concat: "(\<forall>ys \<in> set yss. recent xs ys) \<Longrightarrow> recent xs (concat yss)"
  by (auto simp: recent_def)

lemma newest_older:
  assumes "newest es k s e" "visible es' k s = {}"
  shows "newest (es' \<union> es) k s e"
proof -
  have "visible (es' \<union> es) k s = visible es k s" using assms(2) by (auto simp: visible_def)
  with assms(1) show ?thesis by (simp add: newest_def)
qed

lemma lookup_runs_newest:
  assumes "sorted_wrt recent runs" "\<forall>r \<in> set runs. ent_sorted r" "lookup_run (concat runs) k s = Some e"
  shows "newest (set (concat runs)) k s e"
  using assms
proof (induction runs)
  case (Cons r runs)
  show ?case
  proof (cases "lookup_run r k s")
    case None
    then have "newest (set (concat runs)) k s e" using Cons by (auto simp: lookup_run_append)
    moreover have "visible (set r) k s = {}" using None by (simp add: lookup_run_None_iff)
    ultimately show ?thesis using newest_older by fastforce
  next
    case (Some e')
    then have e': "lookup_run r k s = Some e" using Cons.prems(3) by (simp add: lookup_run_append)
    have "newest (set r) k s e" using lookup_run_newest [OF _ e'] Cons.prems(2) by simp
    moreover have "recent r (concat runs)" using Cons.prems(1) by (intro recent_concat) simp
    ultimately show ?thesis using recent_newest by fastforce
  qed
qed simp

section \<open>Files\<close>

text \<open>The entries of a file: what an iterator over it sees.\<close>

definition fm_entries :: "file_meta \<Rightarrow> entry list" where
  "fm_entries fm =
     (case it_begin healthy (fm_table fm) of
        Inl _ \<Rightarrow> []
      | Inr it \<Rightarrow> (case it_entries healthy (fm_table fm) it of Some (Inr es) \<Rightarrow> es | _ \<Rightarrow> []))"

lemma fm_entries_table:
  assumes "table_of (fm_table fm) bs"
  shows "fm_entries fm = map stored (concat bs)"
  using it_begin_sees [OF assms] it_entries_sees [OF assms] by (auto simp: fm_entries_def)

definition fm_ok :: "file_meta \<Rightarrow> bool" where
  "fm_ok fm \<longleftrightarrow> (\<exists>bs. table_of (fm_table fm) bs \<and> ent_sorted (concat bs) \<and> no_straddle bs) \<and>
     tnumber (fm_table fm) = fm_number fm \<and> fm_entries fm \<noteq> [] \<and>
     (\<forall>e \<in> set (fm_entries fm). fm_smallest fm \<le> ekey e \<and> ekey e \<le> fm_largest fm)"

lemma fm_okE:
  assumes "fm_ok fm"
  obtains bs where "table_of (fm_table fm) bs" "ent_sorted (concat bs)" "no_straddle bs" "fm_entries fm = map stored (concat bs)"
  using assms fm_entries_table by (auto simp: fm_ok_def)

lemma ent_sorted_stored: "ent_sorted (map stored es) = ent_sorted es"
  unfolding sorted_wrt_map by (rule arg_cong [of _ _ "\<lambda>P. sorted_wrt P es"]) (simp add: ent_le_def fun_eq_iff)

lemma fm_ok_sorted: "fm_ok fm \<Longrightarrow> ent_sorted (fm_entries fm)"
  by (erule fm_okE) (simp add: ent_sorted_stored)

lemma fm_ok_range: "fm_ok fm \<Longrightarrow> e \<in> set (fm_entries fm) \<Longrightarrow> fm_smallest fm \<le> ekey e \<and> ekey e \<le> fm_largest fm"
  by (simp add: fm_ok_def)

lemma fm_ok_bounds: "fm_ok fm \<Longrightarrow> fm_smallest fm \<le> fm_largest fm"
  using fm_ok_range [of fm "hd (fm_entries fm)"] unfolding fm_ok_def by (meson hd_in_set order.trans)

section \<open>The cache\<close>

definition serves :: "(cache_key \<Rightarrow> bytes) \<Rightarrow> sstable \<Rightarrow> bool" where
  "serves src t \<longleftrightarrow> (\<forall>i < length (tindex t).
     block_loader None t i = Inr (src \<lparr>file_number = tnumber t, block_offset = ioffset (tindex t ! i)\<rparr>))"

definition cache_good :: "(cache_key \<Rightarrow> bytes) \<Rightarrow> block_cache option \<Rightarrow> bool" where
  "cache_good src c \<longleftrightarrow> (case c of None \<Rightarrow> True
     | Some c \<Rightarrow> cache_inv c \<and> coherent src c \<and> current_bytes c \<le> capacity c)"

lemma get_or_load_good:
  assumes "cache_good src (Some c)"
  shows "\<exists>c'. get_or_load key (Inr (src key)) c = (Inr (src key), c') \<and> cache_good src (Some c') \<and>
    (\<forall>e \<in> set (lru c'). e \<in> set (lru c) \<or> ckey e = key)"
proof (cases "cache_lookup key c")
  case (Pair r c1)
  have c: "cache_inv c" "coherent src c" "current_bytes c \<le> capacity c" using assms by (auto simp: cache_good_def)
  note l = cache_lookup_inv [OF c(1) Pair]
  show ?thesis
  proof (cases r)
    case (Some b)
    then have "b = src key" using l c(2) by (auto simp: coherent_def)
    moreover have "cache_good src (Some c1)" "set (lru c1) = set (lru c)" using l c by (auto simp: cache_good_def coherent_def)
    ultimately show ?thesis using Some Pair by (simp add: get_or_load_def)
  next
    case None
    obtain b c2 where i: "cache_insert key (src key) (count_miss c1) = (b, c2)" by force
    have m: "cache_inv (count_miss c1)" "current_bytes (count_miss c1) \<le> capacity (count_miss c1)" "set (lru (count_miss c1)) = set (lru c)"
      using l c(3) by (simp_all add: count_miss_def)
    note n = cache_insert_inv [OF m(1,2) i]
    have "b = src key" "cache_good src (Some c2)" "\<forall>e \<in> set (lru c2). e \<in> set (lru c) \<or> ckey e = key"
      using n c(2) m(3) by (auto simp: cache_good_def coherent_def)
    then show ?thesis using None Pair i by (simp add: get_or_load_def)
  qed
qed

text \<open>A lookup adds blocks of its table only.\<close>

definition cache_grows :: "int set \<Rightarrow> block_cache option \<Rightarrow> block_cache option \<Rightarrow> bool" where
  "cache_grows ns c c' \<longleftrightarrow> (case (c, c') of
     (Some c, Some c') \<Rightarrow> (\<forall>e \<in> set (lru c'). e \<in> set (lru c) \<or> file_number (ckey e) \<in> ns)
   | (None, None) \<Rightarrow> True | _ \<Rightarrow> False)"

lemma cache_grows_refl [simp]: "cache_grows ns c c"
  by (cases c) (auto simp: cache_grows_def)

lemma cache_grows_trans: "cache_grows ns c c' \<Longrightarrow> cache_grows ms c' c'' \<Longrightarrow> cache_grows (ns \<union> ms) c c''"
  by (cases c; cases c'; cases c'') (auto simp: cache_grows_def)

lemma sst_get_good:
  assumes "cache_good src c" "table_of t bs" "serves src t"
  shows "\<exists>c'. sst_get c None t k s = (fst (sst_get None None t k s), c') \<and> cache_good src c' \<and> cache_grows {tnumber t} c c'"
proof (cases "\<exists>cc i. c = Some cc \<and> sst_may_contain t k \<and> find_block_idx (tindex t) k = Some i")
  case False
  then show ?thesis using assms(1)
    by (cases c) (auto simp: sst_get_def read_block_def cache_grows_def split: option.splits sum.splits)
next
  case True
  then obtain cc i where c: "c = Some cc" and i: "find_block_idx (tindex t) k = Some i" by blast
  have "i < length (tindex t)" using find_block_idx_Some [OF i] by simp
  let ?key = "\<lparr>file_number = tnumber t, block_offset = ioffset (tindex t ! i)\<rparr>"
  have ld: "block_loader None t i = Inr (src ?key)" using assms(3) \<open>i < length (tindex t)\<close> by (simp add: serves_def)
  obtain c' where c': "get_or_load ?key (block_loader None t i) cc = (Inr (src ?key), c')" "cache_good src (Some c')"
      "\<forall>e \<in> set (lru c'). e \<in> set (lru cc) \<or> ckey e = ?key"
    using get_or_load_good [of src cc ?key] assms(1) unfolding c ld by blast
  then show ?thesis using True i ld c by (intro exI [of _ "Some c'"]) (auto simp: sst_get_def read_block_def cache_grows_def)
qed

section \<open>Reading files\<close>

text \<open>Every read of a file moves what was asked for.\<close>

abbreviation no_error :: "int \<Rightarrow> sys_ret option" where "no_error \<equiv> \<lambda>_. None"

definition readable :: "(cache_key \<Rightarrow> bytes) \<Rightarrow> file_meta \<Rightarrow> bool" where
  "readable src fm \<longleftrightarrow> fm_ok fm \<and> serves src (fm_table fm)"

lemma probe_entries:
  assumes "readable src fm" "cache_good src c"
  shows "\<exists>c'. probe None k s (fm_table fm) c = (Inr (run_status (fm_entries fm) k s), c') \<and>
    cache_good src c' \<and> cache_grows {fm_number fm} c c'"
proof -
  have ok: "fm_ok fm" "serves src (fm_table fm)" using assms(1) by (auto simp: readable_def)
  obtain bs where bs: "table_of (fm_table fm) bs" "ent_sorted (concat bs)" "no_straddle bs" "fm_entries fm = map stored (concat bs)"
    using ok(1) by (rule fm_okE)
  show ?thesis
  proof (cases "sst_may_contain (fm_table fm) k")
    case True
    have "fst (sst_get None None (fm_table fm) k s) = Inr (run_status (concat bs) k s)"
      using sst_get_block [OF bs(1,2)] lookup_one_block [OF bs(1-3)] by simp
    with sst_get_good [OF assms(2) bs(1) ok(2), of k s] True bs(4) ok(1) show ?thesis by (auto simp: probe_def fm_ok_def)
  next
    case False
    then have "\<forall>e \<in> set (fm_entries fm). ekey e \<noteq> k" using bs(1,4) by (auto simp: table_of_def)
    with False assms(2) show ?thesis by (auto simp: probe_def run_status_no_key)
  qed
qed

lemma get_files_entries:
  assumes "\<forall>fm \<in> set fms. readable src fm" "cache_good src c"
  shows "\<exists>c'. get_files no_error k s fms c = (Inr (run_status (concat (map fm_entries fms)) k s), c') \<and>
    cache_good src c' \<and> cache_grows (fm_number ` set fms) c c'"
  using assms
proof (induction fms arbitrary: c)
  case (Cons fm fms)
  obtain c1 where c1: "probe None k s (fm_table fm) c = (Inr (run_status (fm_entries fm) k s), c1)" "cache_good src c1"
    "cache_grows {fm_number fm} c c1"
    using probe_entries [of src fm c k s] Cons.prems by auto
  obtain c2 where c2: "get_files no_error k s fms c1 = (Inr (run_status (concat (map fm_entries fms)) k s), c2)" "cache_good src c2"
    "cache_grows (fm_number ` set fms) c1 c2" using Cons.IH [OF _ c1(2)] Cons.prems by auto
  have g: "cache_grows (fm_number ` set (fm # fms)) c c2" "cache_grows (fm_number ` set (fm # fms)) c c1"
    using cache_grows_trans [OF c1(3) c2(3)] cache_grows_trans [OF c1(3) cache_grows_refl, of "fm_number ` set fms"] by simp_all
  show ?case
  proof (cases "run_status (fm_entries fm) k s = NotFound")
    case True
    then show ?thesis using c1(1) c2 g(1) by (simp add: run_status_append)
  next
    case False
    then have "get_files no_error k s (fm # fms) c = (Inr (run_status (fm_entries fm) k s), c1)"
      using c1(1) by (cases "run_status (fm_entries fm) k s") simp_all
    then show ?thesis using False c1(2) g(2) by (simp add: run_status_append)
  qed
qed simp

text \<open>A level below 0: files in the order of their keys, without overlap.\<close>

definition disjoint_files :: "file_meta list \<Rightarrow> bool" where
  "disjoint_files fms \<longleftrightarrow> sorted_wrt (\<lambda>a b. fm_largest a < fm_smallest b) fms"

lemma disjoint_sorted:
  assumes "disjoint_files fms" "\<forall>fm \<in> set fms. fm_ok fm"
  shows "ent_sorted (concat (map fm_entries fms))"
  using assms
proof (induction fms)
  case (Cons fm fms)
  have "ent_le x y" if "x \<in> set (fm_entries fm)" "g \<in> set fms" "y \<in> set (fm_entries g)" for x g y
  proof -
    have "ekey x \<le> fm_largest fm" "fm_smallest g \<le> ekey y" using Cons.prems(2) that fm_ok_range by auto
    moreover have "fm_largest fm < fm_smallest g" using Cons.prems(1) that(2) by (simp add: disjoint_files_def)
    ultimately have "ekey x < ekey y" by (meson le_less_trans less_le_trans)
    then show ?thesis by (simp add: ent_le_def)
  qed
  with Cons show ?case by (auto simp: sorted_wrt_append fm_ok_sorted disjoint_files_def)
qed simp

lemma covering_file_entries:
  assumes "disjoint_files fms" "\<forall>fm \<in> set fms. fm_ok fm"
  shows "run_status (concat (map fm_entries fms)) k s =
      (case covering_file k fms of None \<Rightarrow> NotFound | Some f \<Rightarrow> run_status (fm_entries f) k s)"
    and "covering_file k fms = Some f \<Longrightarrow> f \<in> set fms"
proof -
  define as where "as = takeWhile (\<lambda>f. \<not> k < fm_smallest f) fms"
  define bs where "bs = dropWhile (\<lambda>f. \<not> k < fm_smallest f) fms"
  have fms: "fms = as @ bs" by (simp add: as_def bs_def)
  have sorted: "sorted_wrt (\<lambda>a b. fm_smallest a \<le> fm_smallest b) fms"
  proof (rule sorted_wrt_mono_rel [OF _ assms(1) [unfolded disjoint_files_def]])
    fix a b assume "a \<in> set fms" "b \<in> set fms" "fm_largest a < fm_smallest b"
    with fm_ok_bounds assms(2) show "fm_smallest a \<le> fm_smallest b" by fastforce
  qed
  have bs: "k < fm_smallest f" if "f \<in> set bs" for f
  proof (cases bs)
    case (Cons b bs')
    then have "k < fm_smallest b" by (metis bs_def dropWhile_eq_Cons_conv)
    moreover have "fm_smallest b \<le> fm_smallest f" using sorted that by (auto simp: fms Cons sorted_wrt_append)
    ultimately show ?thesis by simp
  qed (use that in simp)
  have nob: "run_status (concat (map fm_entries bs)) k s = NotFound"
    using bs fm_ok_range assms(2) by (intro run_status_no_key) (fastforce simp: fms)
  have cov: "covering_file k fms = (if as = [] then None else if k \<le> fm_largest (last as) then Some (last as) else None)"
  proof (cases "as = []")
    case False
    then have "fms ! (length as - 1) = last as" by (simp add: fms nth_append last_conv_nth)
    with False show ?thesis by (simp add: covering_file_def as_def [symmetric])
  qed (simp add: covering_file_def as_def [symmetric])
  then show "covering_file k fms = Some f \<Longrightarrow> f \<in> set fms" by (auto simp: fms split: if_splits)
  show "run_status (concat (map fm_entries fms)) k s =
      (case covering_file k fms of None \<Rightarrow> NotFound | Some f \<Rightarrow> run_status (fm_entries f) k s)"
  proof (cases as rule: rev_cases)
    case Nil
    then show ?thesis using nob cov by (simp add: fms)
  next
    case (snoc xs f)
    have f: "fm_smallest f \<le> k" using set_takeWhileD [of f "\<lambda>f. \<not> k < fm_smallest f" fms] snoc by (auto simp: as_def)
    have "fm_largest g < k" if "g \<in> set xs" for g
      using assms(1) that f unfolding disjoint_files_def fms snoc by (auto simp: sorted_wrt_append)
    then have nox: "run_status (concat (map fm_entries xs)) k s = NotFound"
      using fm_ok_range assms(2) by (intro run_status_no_key) (fastforce simp: fms snoc)
    have "run_status (fm_entries f) k s = NotFound" if "\<not> k \<le> fm_largest f"
      using fm_ok_range assms(2) that by (intro run_status_no_key) (fastforce simp: fms snoc)
    with nox nob cov show ?thesis by (simp add: fms snoc run_status_append)
  qed
qed

section \<open>The invariant\<close>

definition ver_files :: "version \<Rightarrow> file_meta list" where
  "ver_files ver = concat (map (files ver) [0..<kMaxLevels])"

definition level_entries :: "version \<Rightarrow> nat \<Rightarrow> entry list" where
  "level_entries ver level = concat (map fm_entries (files ver level))"

definition ver_runs :: "version \<Rightarrow> entry list list" where
  "ver_runs ver = map fm_entries (rev (files ver 0)) @ map (level_entries ver) [1..<kMaxLevels]"

definition db_runs :: "db \<Rightarrow> entry list list" where
  "db_runs d = mt_versions (mtable d) # ver_runs (current_version d)"

definition db_versions :: "db \<Rightarrow> entry set" where
  "db_versions d = set (concat (db_runs d))"

definition version_ok :: "version \<Rightarrow> bool" where
  "version_ok ver \<longleftrightarrow> (\<forall>fm \<in> set (ver_files ver). fm_ok fm) \<and> distinct (map fm_number (ver_files ver)) \<and>
     (\<forall>level \<in> {1..<kMaxLevels}. disjoint_files (files ver level))"

definition unique_versions :: "entry set \<Rightarrow> bool" where
  "unique_versions es \<longleftrightarrow> (\<forall>x \<in> es. \<forall>y \<in> es. ekey x = ekey y \<and> eseq x = eseq y \<longrightarrow> x = y)"

definition cached_numbers :: "block_cache option \<Rightarrow> int set" where
  "cached_numbers c = (case c of None \<Rightarrow> {} | Some c \<Rightarrow> file_number ` ckey ` set (lru c))"

definition cache_matches :: "block_cache option \<Rightarrow> version \<Rightarrow> bool" where
  "cache_matches c ver \<longleftrightarrow> (\<exists>src. cache_good src c \<and> (\<forall>fm \<in> set (ver_files ver). serves src (fm_table fm)))"

text \<open>A memtable made by writes: deletions carry no value, and its size is that of its versions.\<close>

definition mem_sized :: "memtable \<Rightarrow> bool" where
  "mem_sized m \<longleftrightarrow> (\<forall>e \<in> set (mt_versions m). stored e = e) \<and> approx_bytes m = sum_list (map write_bytes (mt_versions m))"

text \<open>
  The table files are well formed and numbered apart, the levels below 0 do not overlap, the runs are
  ordered by recency, a key and a sequence number name one version, cached blocks are those of
  the files, and both counters are ahead of what they have numbered.
\<close>

definition db_ok :: "db \<Rightarrow> bool" where
  "db_ok d \<longleftrightarrow> mt_ok (mtable d) \<and> mem_sized (mtable d) \<and> version_ok (current_version d) \<and>
     sorted_wrt recent (db_runs d) \<and> unique_versions (db_versions d) \<and>
     cache_matches (cache d) (current_version d) \<and>
     (\<forall>e \<in> db_versions d. eseq e < next_seq d) \<and>
     (\<forall>n \<in> fm_number ` set (ver_files (current_version d)) \<union> cached_numbers (cache d). n < next_sst_number d)"

lemma in_ver_files: "fm \<in> set (ver_files ver) \<longleftrightarrow> (\<exists>level < kMaxLevels. fm \<in> set (files ver level))"
  by (auto simp: ver_files_def)

lemma in_ver_filesI: "fm \<in> set (files ver level) \<Longrightarrow> level < kMaxLevels \<Longrightarrow> fm \<in> set (ver_files ver)"
  by (auto simp: in_ver_files)

lemma kMaxLevels_pos [simp]: "0 < kMaxLevels" "1 < kMaxLevels" "Suc 0 < kMaxLevels"
  by (simp_all add: kMaxLevels_def)

lemma version_ok_level:
  assumes "version_ok ver" "level < kMaxLevels"
  shows "\<forall>fm \<in> set (files ver level). fm_ok fm" "0 < level \<Longrightarrow> disjoint_files (files ver level)"
  using assms by (auto simp: version_ok_def in_ver_files)

lemma set_ver_runs: "set (concat (ver_runs ver)) = set (concat (map fm_entries (ver_files ver)))"
proof -
  have "[0..<kMaxLevels] = 0 # [1..<kMaxLevels]" by (simp add: kMaxLevels_def upt_rec)
  then show ?thesis by (auto simp: ver_runs_def ver_files_def level_entries_def)
qed

lemma db_versions_files:
  "db_versions d = set (mt_versions (mtable d)) \<union> set (concat (map fm_entries (ver_files (current_version d))))"
  using set_ver_runs [of "current_version d"] by (simp add: db_versions_def db_runs_def)

lemma ver_runs_sorted:
  assumes "version_ok ver" "r \<in> set (ver_runs ver)"
  shows "ent_sorted r"
proof -
  have ok: "fm_ok fm" if "fm \<in> set (files ver l)" "l < kMaxLevels" for fm l
    using assms(1) that by (auto simp: version_ok_def in_ver_files)
  show ?thesis
  proof (cases "\<exists>fm \<in> set (files ver 0). r = fm_entries fm")
    case True
    then show ?thesis using ok fm_ok_sorted by (auto simp: kMaxLevels_def)
  next
    case False
    then obtain l where "l \<in> {1..<kMaxLevels}" "r = level_entries ver l" using assms(2) by (auto simp: ver_runs_def)
    then show ?thesis using assms(1) ok disjoint_sorted by (auto simp: level_entries_def version_ok_def)
  qed
qed

lemma db_runs_sorted: "db_ok d \<Longrightarrow> r \<in> set (db_runs d) \<Longrightarrow> ent_sorted r"
  using ver_runs_sorted skiplist.versions_sorted by (auto simp: db_ok_def db_runs_def)

lemma db_lookup_newest:
  assumes "db_ok d" "lookup_run (concat (db_runs d)) k s = Some e"
  shows "newest (db_versions d) k s e"
  unfolding db_versions_def using db_runs_sorted [OF assms(1)] assms by (intro lookup_runs_newest) (auto simp: db_ok_def)

lemma db_ok_numbers:
  assumes "db_ok d"
  shows "fm \<in> set (ver_files (current_version d)) \<Longrightarrow> fm_number fm < next_sst_number d"
    and "n \<in> cached_numbers (cache d) \<Longrightarrow> n < next_sst_number d"
    and "fm \<in> set (ver_files (current_version d)) \<Longrightarrow> fm_ok fm"
  using assms unfolding db_ok_def version_ok_def by blast+

text \<open>The fields the invariant speaks of.\<close>

lemma db_ok_frame:
  assumes "db_ok d" "current_version d' = current_version d" "mtable d' = mtable d" "cache d' = cache d"
    and "next_seq d \<le> next_seq d'" "next_sst_number d \<le> next_sst_number d'"
  shows "db_ok d'" "db_runs d' = db_runs d"
proof -
  show runs: "db_runs d' = db_runs d" using assms(2,3) by (simp add: db_runs_def)
  have "\<forall>e \<in> db_versions d. eseq e < next_seq d'" "\<forall>n \<in> fm_number ` set (ver_files (current_version d)) \<union> cached_numbers (cache d). n < next_sst_number d'"
    using assms(1,5,6) unfolding db_ok_def by (blast intro: order.strict_trans2)+
  then show "db_ok d'" using assms(1-4) runs by (simp add: db_ok_def db_versions_def)
qed

section \<open>Reads return the newest visible version\<close>

definition status_value :: "status \<Rightarrow> bytes option" where
  "status_value st = (case st of Found v \<Rightarrow> Some v | _ \<Rightarrow> None)"

lemma candidates_entries:
  assumes "version_ok ver"
  shows "run_status (concat (map fm_entries (level_candidates k ver))) k s = run_status (concat (map (level_entries ver) [1..<kMaxLevels])) k s"
    and "set (level_candidates k ver) \<subseteq> set (ver_files ver)"
proof -
  have cov: "run_status (level_entries ver l) k s =
        (case covering_file k (files ver l) of None \<Rightarrow> NotFound | Some f \<Rightarrow> run_status (fm_entries f) k s)"
      "covering_file k (files ver l) = Some f \<Longrightarrow> f \<in> set (files ver l)" if "l \<in> {1..<kMaxLevels}" for l f
    unfolding level_entries_def
    using that version_ok_level [OF assms, of l] by (intro covering_file_entries; simp)+
  have "run_status (concat (map fm_entries (List.map_filter (\<lambda>l. covering_file k (files ver l)) ls))) k s =
      run_status (concat (map (level_entries ver) ls)) k s" if "set ls \<subseteq> {1..<kMaxLevels}" for ls
    using that cov(1) by (induction ls) (auto simp: List.map_filter_simps run_status_append split: option.splits)
  then show "run_status (concat (map fm_entries (level_candidates k ver))) k s = run_status (concat (map (level_entries ver) [1..<kMaxLevels])) k s"
    by (simp add: level_candidates_def)
  show "set (level_candidates k ver) \<subseteq> set (ver_files ver)"
  proof
    fix f assume "f \<in> set (level_candidates k ver)"
    then obtain l where "l \<in> {1..<kMaxLevels}" "covering_file k (files ver l) = Some f"
      by (auto simp: level_candidates_def List.map_filter_def)
    with cov(2) [of l f] show "f \<in> set (ver_files ver)" by (auto intro: in_ver_filesI [of _ _ l])
  qed
qed

lemma cache_grows_numbers: "cache_grows ns c c' \<Longrightarrow> cached_numbers c' \<subseteq> cached_numbers c \<union> ns"
  by (cases c; cases c') (auto simp: cached_numbers_def cache_grows_def)

lemma db_ok_cache:
  assumes "db_ok d" "cache_good src c" "\<forall>fm \<in> set (ver_files (current_version d)). serves src (fm_table fm)"
    and "cache_grows (fm_number ` set (ver_files (current_version d))) (cache d) c"
  shows "db_ok (d\<lparr>cache := c\<rparr>)"
proof -
  note cache_grows_numbers [OF assms(4)]
  with assms(1-3) show ?thesis unfolding db_ok_def cache_matches_def by (auto simp: db_runs_def db_versions_def)
qed

lemma get_impl_run:
  assumes "db_ok d"
  shows "\<exists>c. get_impl no_error k s d = Some (Inr (status_value (run_status (concat (db_runs d)) k s)), d\<lparr>cache := c\<rparr>) \<and>
    db_ok (d\<lparr>cache := c\<rparr>) \<and> cached_numbers c \<subseteq> cached_numbers (cache d) \<union> fm_number ` set (ver_files (current_version d))"
proof -
  let ?ver = "current_version d"
  have ok: "mt_ok (mtable d)" "version_ok ?ver" using assms by (auto simp: db_ok_def)
  obtain src where src: "cache_good src (cache d)" "\<forall>fm \<in> set (ver_files ?ver). serves src (fm_table fm)"
    using assms by (auto simp: db_ok_def cache_matches_def)
  then have rd: "\<forall>fm \<in> set (ver_files ?ver). readable src fm" using ok(2) by (auto simp: readable_def version_ok_def)
  have l0: "set (rev (files ?ver 0)) \<subseteq> set (ver_files ?ver)" by (auto intro: in_ver_filesI [of _ _ 0])
  note cand = candidates_entries [OF ok(2), of k]
  let ?r0 = "run_status (concat (map fm_entries (rev (files ?ver 0)))) k s"
  let ?r1 = "run_status (concat (map (level_entries ?ver) [1..<kMaxLevels])) k s"
  let ?N = "fm_number ` set (ver_files ?ver)"
  obtain c1 where c1: "get_files no_error k s (rev (files ?ver 0)) (cache d) = (Inr ?r0, c1)" "cache_good src c1" "cache_grows ?N (cache d) c1"
  proof -
    from get_files_entries [of "rev (files ?ver 0)" src "cache d" k s] rd l0 src(1) obtain c1 where
      c: "get_files no_error k s (rev (files ?ver 0)) (cache d) = (Inr ?r0, c1)" "cache_good src c1"
      "cache_grows (fm_number ` set (rev (files ?ver 0))) (cache d) c1" by blast
    with cache_grows_trans [OF c(3) cache_grows_refl, of ?N] l0 show thesis by (intro that [of c1]) (simp_all add: Un_absorb1 image_mono)
  qed
  obtain c2 where c2: "get_files no_error k s (level_candidates k ?ver) c1 = (Inr ?r1, c2)" "cache_good src c2" "cache_grows ?N (cache d) c2"
  proof -
    from get_files_entries [of "level_candidates k ?ver" src c1 k s] rd cand(2) c1(2) obtain c2 where
      c: "get_files no_error k s (level_candidates k ?ver) c1 = (Inr ?r1, c2)" "cache_good src c2"
      "cache_grows (fm_number ` set (level_candidates k ?ver)) c1 c2" unfolding cand(1) by blast
    with cache_grows_trans [OF c1(3) c(3)] cand(2) show thesis by (intro that [of c2]) (simp_all add: Un_absorb2 image_mono)
  qed
  have mt: "mt_lookup k s (mtable d) = Some (run_status (mt_versions (mtable d)) k s)" using ok(1) by (rule skiplist.lookup_versions)
  have run: "run_status (concat (db_runs d)) k s =
      (if run_status (mt_versions (mtable d)) k s = NotFound then if ?r0 = NotFound then ?r1 else ?r0
       else run_status (mt_versions (mtable d)) k s)"
    by (simp add: db_runs_def ver_runs_def run_status_append)
  have ok1: "db_ok (d\<lparr>cache := c1\<rparr>)" "db_ok (d\<lparr>cache := c2\<rparr>)" "db_ok (d\<lparr>cache := cache d\<rparr>)"
    using db_ok_cache [OF assms] c1(2,3) c2(2,3) src(2) assms by simp_all
  define c where "c = (if run_status (mt_versions (mtable d)) k s \<noteq> NotFound then cache d else if ?r0 \<noteq> NotFound then c1 else c2)"
  have "get_impl no_error k s d = Some (Inr (status_value (run_status (concat (db_runs d)) k s)), d\<lparr>cache := c\<rparr>)"
    unfolding get_impl_def mt run c_def Let_def c1(1)
    by (cases "run_status (mt_versions (mtable d)) k s"; cases ?r0; cases ?r1) (simp_all add: c2(1) status_value_def)
  moreover have "db_ok (d\<lparr>cache := c\<rparr>)" using ok1 assms by (auto simp: c_def)
  moreover have "cached_numbers c \<subseteq> cached_numbers (cache d) \<union> ?N" using cache_grows_numbers [OF c1(3)] cache_grows_numbers [OF c2(3)] by (auto simp: c_def)
  ultimately show ?thesis by blast
qed

end
