(* ===== verification/Sstable_Spec.thy ===== *)
theory Sstable_Spec
  imports Sstable_Read
begin

text \<open>
  The properties of SSTables: what was added is what is iterated, looked up and sought, with and
  without the block cache; where a key's versions span two blocks the lookup is stale; how
  corruption and read errors show.
\<close>

section \<open>A small example\<close>

lemma foldl_bloom_add_length: "length (bits (foldl bloom_add b ks)) = length (bits b)"
  by (induction ks arbitrary: b) (simp_all add: bloom_add_def)

lemma bloom_of_keys_length: "length (bits (bloom_of_keys ks)) = length (bits (bloom_new (length ks) 10))"
  by (simp add: bloom_of_keys_def foldl_bloom_add_length)

definition ex_entries :: "entry list" where
  "ex_entries = [\<lparr>ekey = [1], evalue = [2], etomb = False, eseq = 5\<rparr>, \<lparr>ekey = [3], evalue = [], etomb = True, eseq = 6\<rparr>]"

lemma enc_len: "length (enc e) = 17 + length (ekey e) + (if etomb e then 0 else length (evalue e))"
  by (simp add: enc_def block_entry_def)

lemma index_bytes_len: "length (index_bytes ie) = 20 + length (first_key ie)"
  by (simp add: index_bytes_def)

lemma ex_blocks: "split_blocks [] ex_entries = [ex_entries]"
  by (simp add: ex_entries_def enc_len kBlockTargetSize_def)

lemma ex_image_small: "length (sst_image ex_entries) < 2 ^ 63"
  unfolding image_length ex_blocks bloom_serialize_length bloom_of_keys_length
  by (simp add: ex_entries_def blocks_image_def block_image_length index_image_def enc_len index_bytes_len bloom_new_def kFooterSize_def)

lemma ex_fits: "\<forall>e \<in> set ex_entries. fits e"
  by (simp add: ex_entries_def fits_def)

lemma ex_sorted: "ent_sorted ex_entries"
  by (simp add: ex_entries_def ent_le_def)

lemma ex_no_straddle: "no_straddle (split_blocks [] ex_entries)"
  by (simp add: ex_blocks no_straddle_def)

lemma writer_run:
  obtains w w' where "add_all es (writer_new []) = Inr w" "sst_finish ok w = Inr w'"
  using add_all_ok [of "writer_new []" es] sst_finish_ok by (fastforce simp: writer_new_def)

section \<open>Round trip\<close>

text \<open>
  C35. Whatever entries a table is written from, on every run of the writer without exception: opening
  the file succeeds, iterating from \<open>begin\<close> yields exactly the entries in order and ends, the footer
  holds their number and greatest sequence number, the writer's smallest and largest key are those
  of the first and the last entry, and after an effective sync the whole file is durable.
\<close>

theorem sst_roundtrip:
  assumes "add_all es (writer_new rs) = Inr w" "sst_finish ok w = Inr w'"
    and "es \<noteq> []" "\<forall>e \<in> set es. fits e" "length (contents (snd (wfd w'))) < 2 ^ 63" "length es < 2 ^ 64"
  shows "\<exists>t it. sst_open None None None num (contents (snd (wfd w'))) = Inr t \<and>
    it_begin healthy t = Inr it \<and> it_entries healthy t it = Some (Inr (map stored es)) \<and>
    fentry_count (tfooter t) = to_u64 (length es) \<and> fmax_seq (tfooter t) = seq_max es \<and>
    smallest_key w' = ekey (hd es) \<and> largest_key w' = ekey (last es) \<and>
    (ok \<longrightarrow> durable (snd (wfd w')) = length (contents (snd (wfd w'))))"
proof -
  note img = writer_image [OF assms(1,2)]
  then have len: "length (sst_image es) < 2 ^ 63" using assms(5) by simp
  obtain t where t: "sst_open None None None num (sst_image es) = Inr t"
    using sst_open_image [OF assms(3,4) len] by simp
  note tab = sst_open_table [OF assms(3,4) len t]
  obtain it where it: "it_begin healthy t = Inr it" "it_sees (split_blocks [] es) it (map stored es)"
    using it_begin_sees [OF tab(1)] by (auto simp: concat_split_blocks)
  have "fentry_count (tfooter t) = to_u64 (length es)" "fmax_seq (tfooter t) = seq_max es"
    by (simp_all add: tab(3) image_footer_def Let_def)
  with t it it_entries_sees [OF tab(1) it(2)] img assms(3,6) show ?thesis
    by (auto simp: countable_def)
qed

theorem sst_roundtrip_witness:
  "\<exists>w w' t it. add_all ex_entries (writer_new []) = Inr w \<and> sst_finish True w = Inr w' \<and>
     sst_open None None None 7 (contents (snd (wfd w'))) = Inr t \<and>
     it_begin healthy t = Inr it \<and> it_entries healthy t it = Some (Inr (map stored ex_entries))"
proof -
  obtain w w' where w: "add_all ex_entries (writer_new []) = Inr w" "sst_finish True w = Inr w'" by (rule writer_run)
  have "length (contents (snd (wfd w'))) < 2 ^ 63" using writer_image [OF w] ex_image_small by simp
  moreover have "ex_entries \<noteq> []" "length ex_entries < 2 ^ 64" by (simp_all add: ex_entries_def)
  ultimately show ?thesis using sst_roundtrip [OF w _ ex_fits, of 7] w by blast
qed

section \<open>Lookups and seeks\<close>

text \<open>
  C36. In a sorted table in which no key has versions in two blocks, \<open>get\<close> at any snapshot is the lookup
  in the set of entries, and \<open>seek\<close> stands at the first entry not below its target.
\<close>

theorem sst_get_seek_correct:
  assumes "sst_open None None None num (sst_image es) = Inr t"
    and "es \<noteq> []" "\<forall>e \<in> set es. fits e" "length (sst_image es) < 2 ^ 63"
    and "ent_sorted es" "no_straddle (split_blocks [] es)"
  shows "fst (sst_get None None t k s) = Inr (run_status es k s) \<and>
    (\<exists>it. it_seek healthy t k = Some (Inr it) \<and>
      it_entries healthy t it = Some (Inr (map stored (dropWhile (\<lambda>e. ekey e < k) es))))"
proof -
  note tab = sst_open_table(1) [OF assms(2-4) assms(1)]
  have conc: "concat (split_blocks [] es) = es" by (simp add: concat_split_blocks)
  have "fst (sst_get None None t k s) = Inr (run_status es k s)"
    using sst_get_block [OF tab] lookup_one_block [OF tab] assms(5,6) by (simp add: conc)
  moreover obtain it where "it_seek healthy t k = Some (Inr it)"
    "it_sees (split_blocks [] es) it (map stored (dropWhile (\<lambda>e. ekey e < k) es))"
    using it_seek_sees [OF tab] assms(5,6) by (auto simp: conc)
  ultimately show ?thesis using it_entries_sees [OF tab] by blast
qed

theorem sst_get_seek_correct_witness:
  "\<exists>t. sst_open None None None 7 (sst_image ex_entries) = Inr t \<and> fst (sst_get None None t [3] 9) = Inr Deleted \<and>
     fst (sst_get None None t [1] 4) = Inr NotFound"
proof -
  have ne: "ex_entries \<noteq> []" by (simp add: ex_entries_def)
  obtain t where t: "sst_open None None None 7 (sst_image ex_entries) = Inr t"
    using sst_open_image [OF ne ex_fits ex_image_small] by simp
  note c = sst_get_seek_correct [OF t ne ex_fits ex_image_small ex_sorted ex_no_straddle]
  have "run_status ex_entries [3] 9 = Deleted" "run_status ex_entries [1] 4 = NotFound"
    by (simp_all add: ex_entries_def run_status_def status_of_def)
  with t c [of "[3]" 9] c [of "[1]" 4] show ?thesis by auto
qed

text \<open>
  The binary search over a sorted index is the linear one: the last block whose first key is not
  above the key, or none when all are.
\<close>

lemma find_block_idx_correct:
  assumes "sorted (map first_key idx)"
  shows "find_block_idx idx k =
    (let n = length (takeWhile (\<lambda>ie. first_key ie \<le> k) idx) in if n = 0 then None else Some (n - 1))"
proof (cases "find_block_idx idx k")
  case None
  then have "takeWhile (\<lambda>ie. first_key ie \<le> k) idx = []" by (cases idx) (auto simp: find_block_idx_None)
  with None show ?thesis by simp
next
  case (Some i)
  note f = find_block_idx_Some [OF Some]
  have "first_key (idx ! j) \<le> k" if "j < Suc i" for j
    using sorted_nth_mono [OF assms, of j i] f that by (simp add: less_Suc_eq_le order.trans)
  moreover have "Suc i < length idx \<Longrightarrow> \<not> first_key (idx ! Suc i) \<le> k" using f by (simp add: not_le)
  ultimately have "takeWhile (\<lambda>ie. first_key ie \<le> k) idx = take (Suc i) idx"
    using f by (intro takeWhile_eq_take_P_nth) (auto simp: less_Suc_eq_le)
  with Some f show ?thesis by (simp add: Let_def)
qed

section \<open>Versions of a key in two blocks\<close>

text \<open>
  C37. A block ends as soon as it is large enough and the next key differs from the block's first key.
  When the next entry is an older version of the block's last key, the key then starts the next
  block as well, the search returns that block, and \<open>get\<close> answers with the older version: a read of
  the current state returns overwritten data.
\<close>

theorem sst_get_stale:
  assumes "sst_open None None None num (sst_image [a, b2, b1]) = Inr t"
    and "fits a" "fits b1" "fits b2" "length (sst_image [a, b2, b1]) < 2 ^ 63"
    and "ekey a < ekey b2" "ekey b1 = ekey b2" "eseq b1 < eseq b2"
    and "length (enc a) < kBlockTargetSize" "kBlockTargetSize \<le> length (enc a) + length (enc b2)"
  shows "fst (sst_get None None t (ekey b2) UINT64_MAX) = Inr (status_of b1) \<and>
    newest {a, b2, b1} (ekey b2) UINT64_MAX b2"
proof -
  have bs: "split_blocks [] [a, b2, b1] = [[a, b2], [b1]]" using assms(6,7,9,10) by simp
  have "table_of t (split_blocks [] [a, b2, b1])" by (rule sst_open_table(1) [OF _ _ assms(5,1)]) (use assms(2-4) in simp_all)
  then have tab: "table_of t [[a, b2], [b1]]" unfolding bs .
  have sorted: "ent_sorted (concat [[a, b2], [b1]])" using assms(6-8) by (simp add: ent_le_def)
  note keys = table_of_block(1,2) [OF tab, of 0] table_of_block(2) [OF tab, of 1]
  have "tindex t \<noteq> []" "\<not> ekey b2 < ekey a" using keys assms(6) by auto
  then obtain i where i: "find_block_idx (tindex t) (ekey b2) = Some i"
    using keys by (simp add: find_block_idx_def)
  have "i = 1" using find_block_idx_Some [OF i] keys assms(7) by (cases i) auto
  then have "fst (sst_get None None t (ekey b2) UINT64_MAX) = Inr (run_status [b1] (ekey b2) UINT64_MAX)"
    using sst_get_block [OF tab sorted, of "ekey b2" UINT64_MAX] i by simp
  moreover have "newest {a, b2, b1} (ekey b2) UINT64_MAX b2" using assms(6-8) by (auto simp: newest_def visible_def)
  ultimately show ?thesis using assms(7) by (simp add: run_status_def)
qed

definition ex_old :: entry where "ex_old = \<lparr>ekey = [2], evalue = [1], etomb = False, eseq = 2\<rparr>"
definition ex_new :: entry where "ex_new = \<lparr>ekey = [2], evalue = replicate 4096 0, etomb = False, eseq = 3\<rparr>"
definition ex_first :: entry where "ex_first = \<lparr>ekey = [1], evalue = [], etomb = False, eseq = 1\<rparr>"

lemmas ex_stale_defs = ex_old_def ex_new_def ex_first_def

lemma ex_stale_len: "length (enc ex_first) = 18" "length (enc ex_new) = 4114" "length (enc ex_old) = 19"
  by (simp_all add: ex_stale_defs enc_len)

lemma ex_stale_small: "length (sst_image [ex_first, ex_new, ex_old]) < 2 ^ 63"
proof -
  have bs: "split_blocks [] [ex_first, ex_new, ex_old] = [[ex_first, ex_new], [ex_old]]"
    by (simp add: ex_stale_len kBlockTargetSize_def) (simp add: ex_stale_defs)
  show ?thesis
    unfolding image_length bs bloom_serialize_length bloom_of_keys_length
    by (simp add: blocks_image_def block_image_length index_image_def index_bytes_len bloom_new_def kFooterSize_def ex_stale_len)
      (simp add: ex_first_def ex_old_def)
qed

theorem sst_get_stale_witness:
  "\<exists>t. sst_open None None None 1 (sst_image [ex_first, ex_new, ex_old]) = Inr t \<and>
     fst (sst_get None None t [2] UINT64_MAX) = Inr (Found [1]) \<and> newest {ex_first, ex_new, ex_old} [2] UINT64_MAX ex_new"
proof -
  have fits: "fits ex_first" "fits ex_old" "fits ex_new" by (simp_all add: fits_def ex_stale_defs)
  obtain t where t: "sst_open None None None 1 (sst_image [ex_first, ex_new, ex_old]) = Inr t"
    using sst_open_image [OF _ _ ex_stale_small] fits by auto
  have k: "ekey ex_first < ekey ex_new" "ekey ex_old = ekey ex_new" "eseq ex_old < eseq ex_new" "ekey ex_new = [2]"
    "status_of ex_old = Found [1]"
    by (simp_all add: ex_stale_defs status_of_def)
  from sst_get_stale [OF t fits ex_stale_small k(1-3)] t k(4,5) show ?thesis
    by (simp add: ex_stale_len kBlockTargetSize_def)
qed

section \<open>The cache, read errors and corruption\<close>

text \<open>
  A table reads the same through a block cache as without one, in whatever state an
  interleaving of readers has left the cache, and leaves the cache in such a state.
\<close>

lemma sst_get_cached:
  assumes "cache_run cap src c" "table_of t bs"
    and "\<forall>i < length bs. src \<lparr>file_number = tnumber t, block_offset = ioffset (tindex t ! i)\<rparr> = enc_block (bs ! i)"
  shows "fst (sst_get (Some c) None t k s) = fst (sst_get None None t k s) \<and>
    (\<exists>c'. snd (sst_get (Some c) None t k s) = Some c' \<and> cache_run cap src c')"
proof (cases "find_block_idx (tindex t) k")
  case None
  then show ?thesis using assms(1) by (simp add: sst_get_def)
next
  case (Some i)
  then have i: "i < length bs" using find_block_idx_Some [OF Some] table_of_length [OF assms(2)] by simp
  let ?key = "\<lparr>file_number = tnumber t, block_offset = ioffset (tindex t ! i)\<rparr>"
  have ld: "block_loader None t i = Inr (src ?key)" using table_of_block(3) [OF assms(2) i] assms(3) i by simp
  from get_or_load_run [OF assms(1), of ?key] obtain c' where
    "get_or_load ?key (block_loader None t i) c = (Inr (src ?key), c')" "cache_run cap src c'" by (auto simp: ld)
  with Some ld assms(1) show ?thesis by (simp add: sst_get_def read_block_def)
qed

text \<open>
  C38. A block that cannot be read is not an error for \<open>get\<close>: the key is reported as not found. Worse,
  the empty block is cached, so that the key stays not found when the device answers again.
\<close>

theorem sst_read_error_sticks:
  assumes "table_of t bs" "find_block_idx (tindex t) k = Some i" "cache_inv c" "current_bytes c \<le> capacity c"
    and "cmap c \<lparr>file_number = tnumber t, block_offset = ioffset (tindex t ! i)\<rparr> = None" "0 < unat (ilength (tindex t ! i))"
  shows "fst (sst_get None (Some EFail) t k s) = Inr NotFound \<and>
    fst (sst_get (snd (sst_get (Some c) (Some EFail) t k s)) None t k s) = Inr NotFound"
proof -
  have i: "i < length bs" using find_block_idx_Some [OF assms(2)] table_of_length [OF assms(1)] by simp
  let ?key = "\<lparr>file_number = tnumber t, block_offset = ioffset (tindex t ! i)\<rparr>"
  let ?e = "\<lparr>ckey = ?key, cblock = [], csize = 0\<rparr>"
  have "unat (ilength (tindex t ! i)) < 2 ^ 63"
  proof (rule ccontr)
    assume "\<not> unat (ilength (tindex t ! i)) < 2 ^ 63"
    then have "block_loader None t i = Inl LengthError" by (simp add: block_loader_def Let_def)
    with table_of_block(3) [OF assms(1) i] show False by simp
  qed
  then have ld: "block_loader (Some EFail) t i = Inr []" by (simp add: block_loader_def pread_def Let_def)
  define c' where "c' = (count_miss c)\<lparr>lru := ?e # lru c, cmap := (cmap c)(?key \<mapsto> ?e)\<rparr>"
  have "evict c' = c'" using assms(4) by (subst evict.simps) (simp add: c'_def count_miss_def)
  then have miss: "get_or_load ?key (block_loader (Some EFail) t i) c = (Inr [], c')"
    using assms(5) unfolding ld
    by (simp add: get_or_load_def cache_lookup_def cache_insert_def c'_def count_miss_def Let_def)
  have hit: "\<exists>c''. get_or_load ?key (block_loader None t i) c' = (Inr [], c'')"
    by (simp add: get_or_load_def cache_lookup_def c'_def)
  have "fst (sst_get None (Some EFail) t k s) = Inr NotFound" using ld assms(2) by (simp add: sst_get_def read_block_def)
  moreover have "fst (sst_get (snd (sst_get (Some c) (Some EFail) t k s)) None t k s) = Inr NotFound"
    using miss hit assms(2) by (auto simp: sst_get_def read_block_def)
  ultimately show ?thesis ..
qed

theorem sst_read_error_sticks_witness:
  "\<exists>t. sst_open None None None 7 (sst_image ex_entries) = Inr t \<and>
     fst (sst_get (snd (sst_get (Some (cache_new 1000)) (Some EFail) t [3] 9)) None t [3] 9) = Inr NotFound"
proof -
  have ne: "ex_entries \<noteq> []" by (simp add: ex_entries_def)
  let ?t = "\<lparr>tbytes = sst_image ex_entries, tnumber = 7, tfooter = image_footer ex_entries, tindex = index_of 0 [ex_entries],
         tbloom = Some (bloom_of_keys (map ekey ex_entries))\<rparr>"
  have t: "sst_open None None None 7 (sst_image ex_entries) = Inr ?t"
    using sst_open_image [OF ne ex_fits ex_image_small] by (simp add: ex_blocks)
  have tab: "table_of ?t [ex_entries]" using sst_open_table(1) [OF ne ex_fits ex_image_small t] by (simp add: ex_blocks)
  have "find_block_idx (tindex ?t) [3] = Some 0"
    by (simp add: find_block_idx_def bsearch.simps ex_entries_def)
  moreover have "0 < unat (ilength (tindex ?t ! 0))"
    by (simp add: block_image_length ex_entries_def enc_len)
  ultimately show ?thesis
    using t sst_read_error_sticks [OF tab, of "[3]" 0 "cache_new 1000" 9] cache_inv_new [of 1000] by (auto simp: cache_new_def)
qed



end
