(* ===== verification/Db_Reads.thy ===== *)
theory Db_Reads
  imports Db_Inv Sstable_Spec
begin

text \<open>
  What \<open>get\<close> and \<open>scan\<close> return: the newest version a snapshot may see, over the memtable and all files,
  and the same answer from both.
\<close>

section \<open>Scans\<close>

lemma sorted_dropWhile_below:
  assumes "ent_sorted es"
  shows "set (dropWhile (\<lambda>e. ekey e < k) es) = {e \<in> set es. k \<le> ekey e}"
  using assms
proof (induction es)
  case (Cons x es)
  have "k \<le> ekey y" if "k \<le> ekey x" "y \<in> set es" for y using Cons.prems that ent_le_key [of x y] by auto
  with Cons show ?case by auto
qed simp

lemma sorted_takeWhile_upto:
  assumes "sorted_wrt (\<lambda>a b. ekey a \<le> ekey b) es"
  shows "takeWhile (\<lambda>e. \<not> fin < ekey e) es = filter (\<lambda>e. ekey e \<le> fin) es"
  using assms
proof (induction es)
  case (Cons x es)
  have "filter (\<lambda>e. ekey e \<le> fin) es = []" if "fin < ekey x" using Cons.prems that by (fastforce simp: filter_empty_conv)
  with Cons show ?case by auto
qed simp

lemma ent_sorted_keys: "ent_sorted es \<Longrightarrow> sorted_wrt (\<lambda>a b. ekey a \<le> ekey b) es"
  by (erule sorted_wrt_mono_rel [rotated]) (rule ent_le_key)

lemma ent_sorted_dropWhile: "ent_sorted es \<Longrightarrow> ent_sorted (dropWhile P es)"
  by (metis sorted_wrt_append takeWhile_dropWhile_id)

lemma seek_sources_see:
  assumes "\<forall>fm \<in> set fms. fm_ok fm"
  shows "\<exists>ss. seek_sources (\<lambda>_. healthy) start fms = Some (Inr ss) \<and>
    list_all2 source_sees ss (map (\<lambda>fm. dropWhile (\<lambda>e. ekey e < start) (fm_entries fm)) fms)"
  using assms
proof (induction fms)
  case (Cons fm fms)
  then obtain ss where ss: "seek_sources (\<lambda>_. healthy) start fms = Some (Inr ss)"
    "list_all2 source_sees ss (map (\<lambda>fm. dropWhile (\<lambda>e. ekey e < start) (fm_entries fm)) fms)" by auto
  obtain bs where bs: "table_of (fm_table fm) bs" "ent_sorted (concat bs)" "no_straddle bs" "fm_entries fm = map stored (concat bs)"
    using Cons.prems by (auto elim: fm_okE)
  from sst_source_at_sees [OF bs(1-3), of start] obtain s where s: "sst_source_at healthy (fm_table fm) start = Some (Inr s)"
    "source_sees s (dropWhile (\<lambda>e. ekey e < start) (fm_entries fm))" by (auto simp: bs(4) dropWhile_map comp_def)
  with ss show ?case by simp
qed simp

lemma scan_loop_entries:
  assumes "merge_entries merge_source_ops pick mi = Some (Inr es)"
  shows "scan_loop pick fin mi = Some (map (\<lambda>e. (ekey e, evalue e)) (takeWhile (\<lambda>e. ekey e \<le> fin) es), None)"
  using assms
proof (induction es arbitrary: mi)
  case Nil
  then have "\<not> mvalid mi" by (subst (asm) merge_entries.simps) (auto split: if_splits bind_splits sum.splits)
  then show ?case by (subst scan_loop.simps) simp
next
  case (Cons e es)
  from Cons.prems obtain mi' where mi': "mvalid mi" "mcur mi = e" "merge_next merge_source_ops pick mi = Some (Inr mi')"
      "merge_entries merge_source_ops pick mi' = Some (Inr es)"
    by (subst (asm) merge_entries.simps) (auto split: if_splits bind_splits sum.splits)
  with Cons.IH [OF mi'(4)] show ?case by (subst scan_loop.simps) simp
qed

text \<open>The entries the scan merges are those of the database in the range, and perhaps some behind it.\<close>

definition scan_runs :: "key \<Rightarrow> key \<Rightarrow> db \<Rightarrow> entry list list" where
  "scan_runs start fin d =
     takeWhile (\<lambda>e. \<not> ekey e > fin) (dropWhile (\<lambda>e. ekey e < start) (mt_versions (mtable d)))
     # map (\<lambda>fm. dropWhile (\<lambda>e. ekey e < start) (fm_entries fm)) (scan_files start fin (current_version d))"

lemma scan_files_sub: "set (scan_files start fin ver) \<subseteq> set (ver_files ver)"
  by (auto simp: scan_files_def intro: in_ver_filesI)

lemma scan_runs_sorted:
  assumes "db_ok d"
  shows "\<forall>es \<in> set (scan_runs start fin d). ent_sorted es"
proof -
  have "ent_sorted (mt_versions (mtable d))" using assms skiplist.versions_sorted by (auto simp: db_ok_def)
  then have "ent_sorted (takeWhile (\<lambda>e. \<not> ekey e > fin) (dropWhile (\<lambda>e. ekey e < start) (mt_versions (mtable d))))"
    using ent_sorted_dropWhile sorted_wrt_takeWhile by blast
  moreover have "fm_ok fm" if "fm \<in> set (scan_files start fin (current_version d))" for fm
    using that scan_files_sub assms by (fastforce simp: db_ok_def version_ok_def)
  ultimately show ?thesis by (auto simp: scan_runs_def fm_ok_sorted ent_sorted_dropWhile)
qed

lemma scan_runs_ge:
  assumes "db_ok d" "e \<in> set (concat (scan_runs start fin d))"
  shows "start \<le> ekey e"
proof (cases "e \<in> set (dropWhile (\<lambda>e. ekey e < start) (mt_versions (mtable d)))")
  case True
  then show ?thesis using assms(1) sorted_dropWhile_below [OF skiplist.versions_sorted] by (auto simp: db_ok_def)
next
  case False
  then obtain fm where fm: "fm \<in> set (scan_files start fin (current_version d))"
      "e \<in> set (dropWhile (\<lambda>e. ekey e < start) (fm_entries fm))"
    using assms(2) by (auto simp: scan_runs_def dest: set_takeWhileD)
  then have "fm_ok fm" using scan_files_sub assms(1) by (fastforce simp: db_ok_def version_ok_def)
  then show ?thesis using fm(2) sorted_dropWhile_below [OF fm_ok_sorted] by blast
qed

lemma scan_runs_versions:
  assumes "db_ok d" "start \<le> k" "k \<le> fin"
  shows "visible (set (concat (scan_runs start fin d))) k s = visible (db_versions d) k s"
proof -
  let ?ver = "current_version d"
  have ok: "fm_ok fm" if "fm \<in> set (ver_files ?ver)" for fm using assms(1) that by (auto simp: db_ok_def version_ok_def)
  have mt: "ent_sorted (mt_versions (mtable d))" using assms(1) skiplist.versions_sorted by (auto simp: db_ok_def)
  have "fm \<in> set (scan_files start fin ?ver)" if fm: "fm \<in> set (ver_files ?ver)" "e \<in> set (fm_entries fm)" "ekey e = k" for fm e
  proof -
    have "\<not> fm_largest fm < start" "\<not> fm_smallest fm > fin"
      using fm_ok_range [OF ok [OF fm(1)] fm(2)] fm(3) assms(2,3) by (auto simp: not_less intro: order.trans)
    moreover obtain l where "l < kMaxLevels" "fm \<in> set (files ?ver l)" using fm(1) unfolding in_ver_files by blast
    ultimately show ?thesis by (cases l) (auto simp: scan_files_def)
  qed
  then have files: "(\<exists>fm \<in> set (scan_files start fin ?ver). e \<in> set (dropWhile (\<lambda>e. ekey e < start) (fm_entries fm))) \<longleftrightarrow>
      (\<exists>fm \<in> set (ver_files ?ver). e \<in> set (fm_entries fm))" if "ekey e = k" for e
    using that scan_files_sub [of start fin ?ver] assms(2) ok sorted_dropWhile_below [OF fm_ok_sorted] by fastforce
  have mem: "e \<in> set (takeWhile (\<lambda>e. \<not> ekey e > fin) (dropWhile (\<lambda>e. ekey e < start) (mt_versions (mtable d)))) \<longleftrightarrow>
      e \<in> set (mt_versions (mtable d))" if "ekey e = k" for e
    unfolding sorted_takeWhile_upto [OF ent_sorted_keys [OF ent_sorted_dropWhile [OF mt]]]
    using that assms(2,3) sorted_dropWhile_below [OF mt] by auto
  show ?thesis using files mem by (auto simp: visible_def scan_runs_def db_versions_files)
qed

text \<open>Two sets with the same visible versions have the same newest one.\<close>

lemma newest_unique:
  assumes "newest es k s e" "newest es' k s e'" "visible es k s = visible es' k s" "unique_versions es"
  shows "e = e'"
proof -
  have v: "e \<in> visible es k s" "e' \<in> visible es k s" using assms by (auto simp: newest_def)
  then have "eseq e = eseq e'" using assms(1-3) by (auto simp: newest_def intro: antisym)
  with v assms(4) show ?thesis by (auto simp: unique_versions_def visible_def)
qed

lemma lookup_same_newest:
  assumes "db_ok d" "visible (set es) k s = visible (db_versions d) k s"
    and "\<And>e. lookup_run es k s = Some e \<Longrightarrow> newest (set es) k s e"
  shows "lookup_run es k s = lookup_run (concat (db_runs d)) k s"
proof (cases "lookup_run (concat (db_runs d)) k s")
  case None
  then have "lookup_run es k s = None" using assms(2) unfolding lookup_run_None_iff db_versions_def by simp
  with None show ?thesis by simp
next
  case (Some e)
  then have "\<not> lookup_run (concat (db_runs d)) k s = None" by simp
  then have "lookup_run es k s \<noteq> None" using assms(2) unfolding lookup_run_None_iff db_versions_def by simp
  then obtain e' where e': "lookup_run es k s = Some e'" by blast
  have "e = e'" using newest_unique [OF db_lookup_newest [OF assms(1) Some] assms(3) [OF e']] assms(1,2)
    by (simp add: db_ok_def)
  with Some e' show ?thesis by simp
qed

lemma lookup_same_visible:
  assumes "db_ok d" "ent_sorted es" "visible (set es) k s = visible (db_versions d) k s"
  shows "lookup_run es k s = lookup_run (concat (db_runs d)) k s"
  using assms(1,3) lookup_run_newest [OF assms(2)] by (rule lookup_same_newest)

lemma get_same_visible:
  assumes "db_ok d" "db_ok d'" "visible (db_versions d') k s = visible (db_versions d) k s"
  shows "map_option fst (get_impl no_error k s d') = map_option fst (get_impl no_error k s d)"
proof -
  have "lookup_run (concat (db_runs d')) k s = lookup_run (concat (db_runs d)) k s"
    using assms(3) db_lookup_newest [OF assms(2), of k s]
    by (intro lookup_same_newest [OF assms(1)]) (simp_all add: db_versions_def)
  then show ?thesis using get_impl_run [OF assms(1), of k s] get_impl_run [OF assms(2), of k s] by (auto simp: run_status_def)
qed

lemma get_of_newest:
  assumes "db_ok d" "newest (db_versions d) k s e"
  shows "map_option fst (get_impl no_error k s d) = Some (Inr (if etomb e then None else Some (evalue e)))"
proof -
  have "visible (db_versions d) k s \<noteq> {}" using assms(2) by (auto simp: newest_def)
  then have "lookup_run (concat (db_runs d)) k s \<noteq> None" unfolding db_versions_def lookup_run_None_iff .
  then obtain e' where e': "lookup_run (concat (db_runs d)) k s = Some e'" by blast
  have "e' = e" using newest_unique [OF db_lookup_newest [OF assms(1) e'] assms(2)] assms(1) by (simp add: db_ok_def)
  with e' get_impl_run [OF assms(1), of k s] show ?thesis by (auto simp: run_status_def status_of_def status_value_def)
qed

lemma status_value_Some:
  "status_value (run_status es k s) = Some v \<longleftrightarrow> (\<exists>e. lookup_run es k s = Some e \<and> \<not> etomb e \<and> evalue e = v)"
  by (auto simp: status_value_def run_status_def status_of_def split: option.splits)

lemma scan_impl_spec:
  assumes "db_ok d" "top_ok merge_source_ops pick"
  shows "\<exists>out. scan_impl pick (\<lambda>_. healthy) start fin s d = Some (map (\<lambda>e. (ekey e, evalue e)) out, None) \<and>
    sorted_wrt (\<lambda>a b. ekey a < ekey b) out \<and>
    (\<forall>e. e \<in> set out \<longleftrightarrow> start \<le> ekey e \<and> ekey e \<le> fin \<and> lookup_run (concat (db_runs d)) (ekey e) s = Some e \<and> \<not> etomb e)"
proof -
  let ?mt = "takeWhile (\<lambda>e. \<not> ekey e > fin) (dropWhile (\<lambda>e. ekey e < start) (mt_versions (mtable d)))"
  let ?fms = "scan_files start fin (current_version d)"
  obtain ord where ord: "mt_inv (mtable d) ord" using assms(1) by (auto simp: db_ok_def mt_ok_def)
  have raw: "raw_entries_from start (mtable d) = Some (dropWhile (\<lambda>e. ekey e < start) (mt_versions (mtable d)))"
    using raw_entries_spec(2) [OF ord] by (simp add: mt_versions_inv [OF ord])
  have "\<forall>fm \<in> set ?fms. fm_ok fm" using scan_files_sub assms(1) by (fastforce simp: db_ok_def version_ok_def)
  from seek_sources_see [OF this] obtain ss where ss: "seek_sources (\<lambda>_. healthy) start ?fms = Some (Inr ss)"
    "list_all2 source_sees ss (map (\<lambda>fm. dropWhile (\<lambda>e. ekey e < start) (fm_entries fm)) ?fms)" by blast
  then have "list_all2 source_sees (snapshot_source ?mt # ss) (scan_runs start fin d)"
    by (simp add: scan_runs_def snapshot_source_sees)
  from sources.merge_run_spec [OF assms(2) this scan_runs_sorted [OF assms(1)], of False s] obtain L where
    L: "ent_sorted L" "mset L = mset (concat (scan_runs start fin d))"
      "merge_run merge_source_ops pick (snapshot_source ?mt # ss) False s False = Some (Inr (newest_visible False s L))" by blast
  then obtain mi where mi: "merge_new merge_source_ops pick (snapshot_source ?mt # ss) False s False = Some (Inr mi)"
      "merge_entries merge_source_ops pick mi = Some (Inr (newest_visible False s L))"
    by (auto simp: merge_run_def split: bind_splits sum.splits)
  define out where "out = takeWhile (\<lambda>e. ekey e \<le> fin) (newest_visible False s L)"
  have set: "set L = set (concat (scan_runs start fin d))" using L(2) by (rule mset_eq_setD)
  note nv = newest_visible_spec [OF L(1), where keep = False and s = s]
  have out: "out = filter (\<lambda>e. ekey e \<le> fin) (newest_visible False s L)"
    unfolding out_def using sorted_takeWhile_upto [OF sorted_wrt_mono_rel [OF _ nv(1)], of fin] by (simp add: not_less)
  have "scan_impl pick (\<lambda>_. healthy) start fin s d = Some (map (\<lambda>e. (ekey e, evalue e)) out, None)"
    using raw ss(1) mi(1) scan_loop_entries [OF mi(2), of fin] by (simp add: scan_impl_def out_def)
  moreover have "sorted_wrt (\<lambda>a b. ekey a < ekey b) out" unfolding out using nv(1) by (rule sorted_wrt_filter)
  moreover have "e \<in> set out \<longleftrightarrow> start \<le> ekey e \<and> ekey e \<le> fin \<and> lookup_run (concat (db_runs d)) (ekey e) s = Some e \<and> \<not> etomb e" for e
  proof -
    have "start \<le> ekey e" if "lookup_run L (ekey e) s = Some e"
      using lookup_run_SomeD [OF that] scan_runs_ge [OF assms(1), of e start fin] unfolding set by blast
    moreover have "lookup_run L (ekey e) s = lookup_run (concat (db_runs d)) (ekey e) s" if "start \<le> ekey e" "ekey e \<le> fin"
      using scan_runs_versions [OF assms(1) that] by (intro lookup_same_visible [OF assms(1) L(1)]) (simp only: set)
    ultimately show ?thesis unfolding out using nv(2) [of e] by auto
  qed
  ultimately show ?thesis by blast
qed

section \<open>Properties\<close>

text \<open>A database of one level-0 file and an empty memtable.\<close>

definition ex_fm :: file_meta where
  "ex_fm = \<lparr>fm_number = 7, fm_level = 0, fm_smallest = [1], fm_largest = [3],
     fm_table = \<lparr>tbytes = sst_image ex_entries, tnumber = 7, tfooter = image_footer ex_entries, tindex = index_of 0 [ex_entries],
         tbloom = Some (bloom_of_keys (map ekey ex_entries))\<rparr>\<rparr>"

definition ex_db :: db where
  "ex_db = \<lparr>opts = default_options, cache = Some (cache_new 1000), mtable = memtable_new kMemtableHeight,
     db_wal = wal_open \<lparr>contents = [], durable = 0\<rparr> EveryWrite, db_manifest = \<lparr>mlog = \<lparr>contents = [], durable = 0\<rparr>\<rparr>,
     current_version = \<lparr>files = (\<lambda>_. [])(0 := [ex_fm])\<rparr>, next_sst_number = 8, next_seq = 7, live_snapshots = [],
     compaction_pending = False, compaction_running = False, force_compact = False, disk = Map.empty\<rparr>"

lemma ex_fm_table: "table_of (fm_table ex_fm) [ex_entries]"
proof -
  have ne: "ex_entries \<noteq> []" by (simp add: ex_entries_def)
  have "sst_open None None None 7 (sst_image ex_entries) = Inr (fm_table ex_fm)"
    using sst_open_image [OF ne ex_fits ex_image_small] by (simp add: ex_blocks ex_fm_def)
  from sst_open_table(1) [OF ne ex_fits ex_image_small this] show ?thesis by (simp add: ex_blocks)
qed

lemma ex_fm_entries: "fm_entries ex_fm = ex_entries"
  using fm_entries_table [OF ex_fm_table] by (simp add: ex_entries_def stored_def)

lemma ex_fm_ok: "fm_ok ex_fm"
  unfolding fm_ok_def ex_fm_entries
proof (intro conjI)
  show "\<exists>bs. table_of (fm_table ex_fm) bs \<and> ent_sorted (concat bs) \<and> no_straddle bs"
    using ex_fm_table ex_sorted by (intro exI [of _ "[ex_entries]"]) (simp add: no_straddle_def)
qed (simp_all add: ex_fm_def ex_entries_def)

lemma ex_serves: "serves (\<lambda>_. enc_block ex_entries) (fm_table ex_fm)"
  using table_of_block(3) [OF ex_fm_table] table_of_length [OF ex_fm_table] by (simp add: serves_def)

lemma upt_levels: "[0..<kMaxLevels] = [0, 1, 2, 3, 4, 5, 6]" "[Suc 0..<kMaxLevels] = [1, 2, 3, 4, 5, 6]"
  by (simp_all add: kMaxLevels_def upt_rec)

lemma ex_db_runs: "db_runs ex_db = [[], ex_entries, [], [], [], [], [], []]" "ver_files (current_version ex_db) = [ex_fm]"
  by (simp_all add: db_runs_def ver_runs_def ver_files_def level_entries_def upt_levels ex_db_def ex_fm_entries
      mt_versions_new kMemtableHeight_def)

lemma ex_db_ok: "db_ok ex_db"
  unfolding db_ok_def
proof (intro conjI)
  show "mt_ok (mtable ex_db)" by (simp add: ex_db_def kMemtableHeight_def mt_ok_new)
  show "mem_sized (mtable ex_db)" by (simp add: ex_db_def kMemtableHeight_def mem_sized_def mt_versions_new) (simp add: memtable_new_def)
  show "version_ok (current_version ex_db)"
    unfolding version_ok_def ex_db_runs using ex_fm_ok by (simp add: ex_db_def disjoint_files_def)
  show "cache_matches (cache ex_db) (current_version ex_db)" unfolding cache_matches_def ex_db_runs
    using ex_serves cache_inv_new [of 1000] by (auto simp: cache_good_def ex_db_def coherent_def) (auto simp: cache_new_def)
qed (simp_all add: ex_db_runs db_versions_def recent_def unique_versions_def cached_numbers_def,
    simp_all add: ex_entries_def ex_db_def ex_fm_def cache_new_def)

text \<open>
  C11. A read at any snapshot returns the newest version the snapshot may see among the memtable and
  all files of all levels: its value, or nothing when there is none or it is a deletion. No read of
  a healthy database throws, and the block cache keeps serving the files' blocks.
\<close>

theorem get_newest:
  assumes "db_ok d"
  shows "\<exists>r c. get_impl no_error k s d = Some (Inr r, d\<lparr>cache := c\<rparr>) \<and> db_ok (d\<lparr>cache := c\<rparr>) \<and>
    (case r of
       Some v \<Rightarrow> \<exists>e. newest (db_versions d) k s e \<and> \<not> etomb e \<and> evalue e = v
     | None \<Rightarrow> visible (db_versions d) k s = {} \<or> (\<exists>e. newest (db_versions d) k s e \<and> etomb e))"
proof -
  obtain c where c: "get_impl no_error k s d = Some (Inr (status_value (run_status (concat (db_runs d)) k s)), d\<lparr>cache := c\<rparr>)"
    "db_ok (d\<lparr>cache := c\<rparr>)" using get_impl_run [OF assms] by blast
  show ?thesis
  proof (cases "lookup_run (concat (db_runs d)) k s")
    case None
    moreover from this have "visible (db_versions d) k s = {}" unfolding db_versions_def lookup_run_None_iff .
    moreover have "get_impl no_error k s d = Some (Inr None, d\<lparr>cache := c\<rparr>)"
      using c(1) None by (simp add: run_status_def status_value_def)
    ultimately show ?thesis using c(2) by (intro exI [of _ None] exI [of _ c]) simp
  next
    case (Some e)
    with c db_lookup_newest [OF assms Some] show ?thesis by (auto simp: run_status_def status_value_def status_of_def)
  qed
qed

theorem get_newest_witness:
  "\<exists>c. get_impl no_error [1] 6 ex_db = Some (Inr (Some [2]), ex_db\<lparr>cache := c\<rparr>)"
proof -
  obtain r c where r: "get_impl no_error [1] 6 ex_db = Some (Inr r, ex_db\<lparr>cache := c\<rparr>)"
    "case r of Some v \<Rightarrow> \<exists>e. newest (db_versions ex_db) [1] 6 e \<and> \<not> etomb e \<and> evalue e = v
     | None \<Rightarrow> visible (db_versions ex_db) [1] 6 = {} \<or> (\<exists>e. newest (db_versions ex_db) [1] 6 e \<and> etomb e)"
    using get_newest [OF ex_db_ok, of "[1]" 6] by blast
  have v: "visible (db_versions ex_db) [1] 6 = {\<lparr>ekey = [1], evalue = [2], etomb = False, eseq = 5\<rparr>}"
    unfolding db_versions_def ex_db_runs by (auto simp: visible_def ex_entries_def)
  with r(2) have "r = Some [2]" by (auto simp: newest_def split: option.splits)
  with r(1) show ?thesis by blast
qed

text \<open>
  C12. A scan ends without an exception, emits its keys in strictly ascending order, and emits
  exactly the keys of the range for which \<open>get\<close> at the same snapshot has a value, with that value;
  whichever of several equal sources the merge's queue prefers.
\<close>

theorem scan_agrees_with_get:
  assumes "db_ok d" "top_ok merge_source_ops pick"
  shows "\<exists>out. scan_impl pick (\<lambda>_. healthy) start fin s d = Some (out, None) \<and> sorted_wrt (<) (map fst out) \<and>
    (\<forall>k v. (k, v) \<in> set out \<longleftrightarrow>
       start \<le> k \<and> k \<le> fin \<and> map_option fst (get_impl no_error k s d) = Some (Inr (Some v)))"
proof -
  obtain out where out: "scan_impl pick (\<lambda>_. healthy) start fin s d = Some (map (\<lambda>e. (ekey e, evalue e)) out, None)"
    "sorted_wrt (\<lambda>a b. ekey a < ekey b) out"
    "\<forall>e. e \<in> set out \<longleftrightarrow> start \<le> ekey e \<and> ekey e \<le> fin \<and> lookup_run (concat (db_runs d)) (ekey e) s = Some e \<and> \<not> etomb e"
    using scan_impl_spec [OF assms] by blast
  have get: "map_option fst (get_impl no_error k s d) = Some (Inr (status_value (run_status (concat (db_runs d)) k s)))" for k
    using get_impl_run [OF assms(1), of k s] by auto
  have "(k, v) \<in> set (map (\<lambda>e. (ekey e, evalue e)) out) \<longleftrightarrow>
      start \<le> k \<and> k \<le> fin \<and> map_option fst (get_impl no_error k s d) = Some (Inr (Some v))" for k v
    unfolding get using out(3) lookup_run_SomeD [of "concat (db_runs d)" k s] by (auto simp: status_value_Some image_iff)
  moreover have "sorted_wrt (<) (map fst (map (\<lambda>e. (ekey e, evalue e)) out))" using out(2) by (simp add: sorted_wrt_map)
  ultimately show ?thesis using out(1) by blast
qed

theorem scan_agrees_with_get_witness:
  "\<exists>out. scan_impl (first_top merge_source_ops) (\<lambda>_. healthy) [0] [2] 6 ex_db = Some (out, None) \<and>
     ([3], []) \<notin> set out \<and> (([1], [2]) \<in> set out \<longleftrightarrow> map_option fst (get_impl no_error [1] 6 ex_db) = Some (Inr (Some [2])))"
proof -
  obtain out where out: "scan_impl (first_top merge_source_ops) (\<lambda>_. healthy) [0] [2] 6 ex_db = Some (out, None)"
    "\<forall>k v. (k, v) \<in> set out \<longleftrightarrow> [0] \<le> k \<and> k \<le> [2] \<and> map_option fst (get_impl no_error k 6 ex_db) = Some (Inr (Some v))"
    using scan_agrees_with_get [OF ex_db_ok first_top_ok, of "[0]" "[2]" 6] by blast
  have "\<not> [3] \<le> ([2] :: key)" "[0] \<le> ([1] :: key)" "[1] \<le> ([2] :: key)" by simp_all
  with out show ?thesis by blast
qed

end
