(* ===== verification/Db_Write.thy ===== *)
theory Db_Write
  imports Db
begin

text \<open>
  \<open>src/db.cpp\<close>: the writers. A flush, the pieces of \<open>write\<close> between its lock operations, and the group
  commit of any number of threads as a step relation.
\<close>

section \<open>Installing a table\<close>

datatype db_error =
    TableError sst_error
  | RenameFailed
  | ManifestError io_error
  | WalError io_error
  | BadPointer

text \<open>How the system answers while one table is written, renamed and opened.\<close>

record table_io =
  tio_writes :: "sys_ret list"
  tio_sync :: bool
  tio_rename :: bool
  tio_open1 :: "sys_ret option"
  tio_open2 :: "sys_ret option"
  tio_open3 :: "sys_ret option"

text \<open>
  \<open>finish\<close>, \<open>SSTableWriter::install\<close> and \<open>SSTable::open\<close> of the table numbered \<open>num\<close>; the files of the directory
  after it. A rename that took effect is taken to be durable.
\<close>

definition install_table :: "table_io \<Rightarrow> int \<Rightarrow> sst_writer \<Rightarrow> (int \<rightharpoonup> afile)
    \<Rightarrow> (db_error + sst_writer \<times> sstable) \<times> (int \<rightharpoonup> afile)" where
  "install_table io num w dk =
     (case sst_finish (tio_sync io) w of
        Inl e \<Rightarrow> (Inl (TableError e), dk)
      | Inr w' \<Rightarrow>
          if \<not> tio_rename io then (Inl RenameFailed, dk)
          else let dk' = dk(num \<mapsto> snd (wfd w')) in
            case sst_open (tio_open1 io) (tio_open2 io) (tio_open3 io) num (contents (snd (wfd w'))) of
              Inl e \<Rightarrow> (Inl (TableError e), dk')
            | Inr t \<Rightarrow> (Inr (w', t), dk'))"

section \<open>flush\<close>

record flush_io =
  fio_table :: table_io
  fio_writes :: "sys_ret list"
  fio_sync :: bool

definition add_l0 :: "file_meta \<Rightarrow> version \<Rightarrow> version" where
  "add_l0 fm ver = \<lparr>files = (files ver)(0 := files ver 0 @ [fm])\<rparr>"

text \<open>\<open>DB::flush\<close>, under the lock. Truncating and reopening the log does not fail here.\<close>

definition flush :: "flush_io \<Rightarrow> db \<Rightarrow> (db_error + unit) \<times> db" where
  "flush io d =
     (if approx_bytes (mtable d) = 0 then (Inr (), d)
      else let new_num = next_sst_number d; d1 = d\<lparr>next_sst_number := new_num + 1\<rparr> in
      case raw_entries (mtable d) of None \<Rightarrow> (Inl BadPointer, d1) | Some es \<Rightarrow>
      case add_all es (writer_new (tio_writes (fio_table io))) of Inl e \<Rightarrow> (Inl (TableError e), d1) | Inr w \<Rightarrow>
      case install_table (fio_table io) new_num w (disk d) of
        (Inl e, dk) \<Rightarrow> (Inl e, d1\<lparr>disk := dk\<rparr>)
      | (Inr (w', t), dk) \<Rightarrow>
          let new_ver = add_l0 \<lparr>fm_number = new_num, fm_level = 0, fm_smallest = sst_writer.smallest_key w',
                fm_largest = sst_writer.largest_key w', fm_table = t\<rparr> (current_version d) in
          case append_snapshot (fio_writes io) (fio_sync io) (version_to_manifest new_ver) (db_manifest d) of
            (m, Some e) \<Rightarrow> (Inl (ManifestError e), d1\<lparr>disk := dk, db_manifest := m\<rparr>)
          | (m, None) \<Rightarrow>
              (Inr (), d1\<lparr>disk := dk, db_manifest := m, current_version := new_ver,
                 db_wal := wal_open \<lparr>contents = [], durable = 0\<rparr> (opt_sync (opts d)),
                 mtable := memtable_new kMemtableHeight,
                 compaction_pending :=
                   (if length (files new_ver 0) \<ge> compaction_trigger (opts d) \<and> \<not> compaction_pending d \<and> \<not> compaction_running d
                    then True else compaction_pending d)\<rparr>))"

definition maybe_flush :: "flush_io \<Rightarrow> db \<Rightarrow> (db_error + unit) \<times> db" where
  "maybe_flush io d =
     (if approx_bytes (mtable d) \<ge> flush_threshold_bytes (opts d) then flush io d else (Inr (), d))"

section \<open>write\<close>

record write_request =
  wr_type :: RecType
  wr_key :: key
  wr_value :: bytes
  wr_done :: bool
  wr_seq :: u64

text \<open>\<open>for (auto* r : batch) r->seq = next_seq_++;\<close>\<close>

fun assign_seqs :: "write_request list \<Rightarrow> u64 \<Rightarrow> write_request list \<times> u64" where
  "assign_seqs [] n = ([], n)"
| "assign_seqs (r # rs) n = (let (rs', n') = assign_seqs rs (n + 1) in (r\<lparr>wr_seq := n\<rparr> # rs', n'))"

definition wal_record :: "write_request \<Rightarrow> wal_rec" where
  "wal_record r = \<lparr>rtype = wr_type r, rseq = wr_seq r, rkey = wr_key r, rval = wr_value r\<rparr>"

text \<open>The loop over the batch that fills the memtable; a level comes from a list of coin flips.\<close>

fun apply_batch :: "(bool list \<times> write_request) list \<Rightarrow> memtable \<Rightarrow> memtable option" where
  "apply_batch [] m = Some m"
| "apply_batch ((c, r) # rs) m =
     (case (if wr_type r = Put then mt_put c (wr_key r) (wr_value r) (wr_seq r) m else mt_del c (wr_key r) (wr_seq r) m) of
        None \<Rightarrow> None | Some m' \<Rightarrow> apply_batch rs m')"

text \<open>The leader's critical section: log, then memtable.\<close>

definition commit_batch :: "sys_ret list \<Rightarrow> bool \<Rightarrow> (bool list \<times> write_request) list \<Rightarrow> db \<Rightarrow> (db_error + unit) \<times> db" where
  "commit_batch rs ok batch d =
     (case append_batch rs ok (map (wal_record \<circ> snd) batch) (db_wal d) of
        (w, Some e) \<Rightarrow> (Inl (WalError e), d\<lparr>db_wal := w\<rparr>)
      | (w, None) \<Rightarrow>
          (case apply_batch batch (mtable d) of
             None \<Rightarrow> (Inl BadPointer, d\<lparr>db_wal := w\<rparr>)
           | Some m \<Rightarrow> (Inr (), d\<lparr>db_wal := w, mtable := m\<rparr>)))"

section \<open>Group commit\<close>

text \<open>
  Where a thread is in \<open>write\<close>. A leader keeps its local \<open>batch\<close>; the requests of a batch are named by their
  threads, as the queue holds pointers into the threads' stacks. \<open>Thrown\<close> is a call that ended with an
  exception.
\<close>

datatype phase =
    Idle
  | Waiting
  | Assigned "nat list"
  | Applied "nat list"
  | Flushed "nat list"
  | Returned
  | Thrown

record writers =
  wdb :: db
  write_queue :: "nat list"
  requests :: "nat \<Rightarrow> write_request"
  phases :: "nat \<Rightarrow> phase"

definition enqueue :: "nat \<Rightarrow> RecType \<Rightarrow> key \<Rightarrow> bytes \<Rightarrow> writers \<Rightarrow> writers" where
  "enqueue i ty k v ws = ws\<lparr>write_queue := write_queue ws @ [i],
     requests := (requests ws)(i := \<lparr>wr_type = ty, wr_key = k, wr_value = v, wr_done = False, wr_seq = 0\<rparr>),
     phases := (phases ws)(i := Waiting)\<rparr>"

text \<open>The predicate of \<open>write_cv_.wait\<close>.\<close>

definition may_wake :: "nat \<Rightarrow> writers \<Rightarrow> bool" where
  "may_wake i ws \<longleftrightarrow> wr_done (requests ws i) \<or> (write_queue ws \<noteq> [] \<and> hd (write_queue ws) = i)"

definition update_requests :: "nat list \<Rightarrow> write_request list \<Rightarrow> (nat \<Rightarrow> write_request) \<Rightarrow> nat \<Rightarrow> write_request" where
  "update_requests is rs req = fold (\<lambda>(i, r) f. f(i := r)) (zip is rs) req"

definition lead :: "nat \<Rightarrow> writers \<Rightarrow> writers" where
  "lead i ws =
     (let batch = write_queue ws;
          (rs, n) = assign_seqs (map (requests ws) batch) (next_seq (wdb ws)) in
      ws\<lparr>wdb := (wdb ws)\<lparr>next_seq := n\<rparr>, requests := update_requests batch rs (requests ws),
         phases := (phases ws)(i := Assigned batch)\<rparr>)"

definition commit :: "sys_ret list \<Rightarrow> bool \<Rightarrow> bool list list \<Rightarrow> nat \<Rightarrow> nat list \<Rightarrow> writers \<Rightarrow> writers" where
  "commit rs ok coins i batch ws =
     (case commit_batch rs ok (zip coins (map (requests ws) batch)) (wdb ws) of
        (Inl e, d) \<Rightarrow> ws\<lparr>wdb := d, phases := (phases ws)(i := Thrown)\<rparr>
      | (Inr _, d) \<Rightarrow> ws\<lparr>wdb := d, phases := (phases ws)(i := Applied batch)\<rparr>)"

definition leader_flush :: "flush_io \<Rightarrow> nat \<Rightarrow> nat list \<Rightarrow> writers \<Rightarrow> writers" where
  "leader_flush io i batch ws =
     (case maybe_flush io (wdb ws) of
        (Inl e, d) \<Rightarrow> ws\<lparr>wdb := d, phases := (phases ws)(i := Thrown)\<rparr>
      | (Inr _, d) \<Rightarrow> ws\<lparr>wdb := d, phases := (phases ws)(i := Flushed batch)\<rparr>)"

definition finish_batch :: "nat \<Rightarrow> nat list \<Rightarrow> writers \<Rightarrow> writers" where
  "finish_batch i batch ws =
     ws\<lparr>write_queue := drop (length batch) (write_queue ws),
        requests := (\<lambda>j. if j \<in> set batch then (requests ws j)\<lparr>wr_done := True\<rparr> else requests ws j),
        phases := (phases ws)(i := Returned)\<rparr>"

text \<open>
  One step of some thread: of a writer between two lock operations, of a thread that flushes, or of one
  that takes or releases a snapshot. The reads in \<open>SSTable::open\<close> after an installation are complete. A thread
  whose call threw makes no further call.
\<close>

definition complete_opens :: "flush_io \<Rightarrow> bool" where
  "complete_opens io \<longleftrightarrow> tio_open1 (fio_table io) = None \<and> tio_open2 (fio_table io) = None \<and> tio_open3 (fio_table io) = None"

inductive wstep :: "writers \<Rightarrow> writers \<Rightarrow> bool" where
  enq: "phases ws i \<in> {Idle, Returned} \<Longrightarrow> ty \<in> {Put, Delete} \<Longrightarrow> wstep ws (enqueue i ty k v ws)"
| follow: "phases ws i = Waiting \<Longrightarrow> may_wake i ws \<Longrightarrow> wr_done (requests ws i) \<Longrightarrow>
     wstep ws (ws\<lparr>phases := (phases ws)(i := Returned)\<rparr>)"
| lead: "phases ws i = Waiting \<Longrightarrow> may_wake i ws \<Longrightarrow> \<not> wr_done (requests ws i) \<Longrightarrow> wstep ws (lead i ws)"
| commit: "phases ws i = Assigned batch \<Longrightarrow> length coins = length batch \<Longrightarrow> wstep ws (commit rs ok coins i batch ws)"
| flush: "phases ws i = Applied batch \<Longrightarrow> complete_opens io \<Longrightarrow> wstep ws (leader_flush io i batch ws)"
| finish: "phases ws i = Flushed batch \<Longrightarrow> wstep ws (finish_batch i batch ws)"
| user_flush: "complete_opens io \<Longrightarrow> wstep ws (ws\<lparr>wdb := snd (flush io (wdb ws))\<rparr>)"
| snapshot: "wstep ws (ws\<lparr>wdb := snd (get_snapshot (wdb ws))\<rparr>)"
| release: "wstep ws (ws\<lparr>wdb := release_snapshot s (wdb ws)\<rparr>)"

definition no_writers :: "db \<Rightarrow> writers" where
  "no_writers d = \<lparr>wdb = d, write_queue = [],
     requests = (\<lambda>_. \<lparr>wr_type = Put, wr_key = [], wr_value = [], wr_done = False, wr_seq = 0\<rparr>), phases = (\<lambda>_. Idle)\<rparr>"

text \<open>A call with no other writer: its steps in order.\<close>

definition write_alone :: "sys_ret list \<Rightarrow> bool \<Rightarrow> bool list \<Rightarrow> flush_io \<Rightarrow> RecType \<Rightarrow> key \<Rightarrow> bytes \<Rightarrow> db \<Rightarrow> (db_error + unit) \<times> db" where
  "write_alone rs ok coins io ty k v d =
     (let (reqs, n) = assign_seqs [\<lparr>wr_type = ty, wr_key = k, wr_value = v, wr_done = False, wr_seq = 0\<rparr>] (next_seq d) in
      case commit_batch rs ok (zip [coins] reqs) (d\<lparr>next_seq := n\<rparr>) of
        (Inl e, d') \<Rightarrow> (Inl e, d')
      | (Inr _, d') \<Rightarrow> maybe_flush io d')"

definition db_put :: "sys_ret list \<Rightarrow> bool \<Rightarrow> bool list \<Rightarrow> flush_io \<Rightarrow> key \<Rightarrow> bytes \<Rightarrow> db \<Rightarrow> (db_error + unit) \<times> db" where
  "db_put rs ok coins io k v d = write_alone rs ok coins io Put k v d"

definition db_del :: "sys_ret list \<Rightarrow> bool \<Rightarrow> bool list \<Rightarrow> flush_io \<Rightarrow> key \<Rightarrow> db \<Rightarrow> (db_error + unit) \<times> db" where
  "db_del rs ok coins io k d = write_alone rs ok coins io Delete k [] d"

end
