(* ===== verification/Db_Compact.thy ===== *)
theory Db_Compact
  imports Db_Write
begin

text \<open>
  \<open>src/db.cpp\<close>: the background compaction. One round of \<open>compaction_loop\<close> in its three parts (pick under the lock,
  merge without it, commit under it) and the loop of \<open>compact\<close> that waits for rounds. An exception in
  the thread ends the process, so a failed merge or commit has no state after it.
\<close>

section \<open>Which versions are kept\<close>

text \<open>\<open>prev_key\<close> and \<open>kept_anchor\<close>, and the decision for one entry.\<close>

definition keep_entry :: "u64 \<Rightarrow> bool \<Rightarrow> key \<times> bool \<Rightarrow> entry \<Rightarrow> bool \<times> key \<times> bool" where
  "keep_entry oldest_snap bottommost st e =
     (let (prev_key, kept_anchor) = st;
          is_new_key = (ekey e \<noteq> prev_key);
          prev_key = (if is_new_key then ekey e else prev_key);
          kept_anchor = (if is_new_key then False else kept_anchor) in
      if eseq e > oldest_snap then (True, prev_key, kept_anchor)
      else if \<not> kept_anchor then (if etomb e \<and> bottommost then False else True, prev_key, True)
      else (False, prev_key, kept_anchor))"

section \<open>Writing the outputs\<close>

text \<open>The locals of the merge: the writer with the number of its file, \<open>cur_bytes\<close>, \<open>outputs\<close>, and the decision's state.\<close>

record merge_state =
  ms_writer :: "(int \<times> sst_writer) option"
  cur_bytes :: nat
  outputs :: "file_meta list"
  ms_keep :: "key \<times> bool"
  ms_started :: nat
  ms_disk :: "int \<rightharpoonup> afile"

definition merge_start :: "(int \<rightharpoonup> afile) \<Rightarrow> merge_state" where
  "merge_start dk = \<lparr>ms_writer = None, cur_bytes = 0, outputs = [], ms_keep = ([], False), ms_started = 0, ms_disk = dk\<rparr>"

text \<open>
  \<open>ios n\<close> answers the system calls for table \<open>n\<close>; \<open>num i\<close> is what the \<open>i\<close>-th call of \<open>alloc_sst_number\<close> returns, which other
  threads may call in between.
\<close>

definition finish_writer :: "(int \<Rightarrow> table_io) \<Rightarrow> nat \<Rightarrow> merge_state \<Rightarrow> db_error + merge_state" where
  "finish_writer ios output_lv st =
     (case ms_writer st of
        None \<Rightarrow> Inr st
      | Some (cur_num, w) \<Rightarrow>
          (case install_table (ios cur_num) cur_num w (ms_disk st) of
             (Inl e, _) \<Rightarrow> Inl e
           | (Inr (w', t), dk) \<Rightarrow>
               Inr (st\<lparr>outputs := outputs st @ [\<lparr>fm_number = cur_num, fm_level = int output_lv, fm_smallest = sst_writer.smallest_key w',
                      fm_largest = sst_writer.largest_key w', fm_table = t\<rparr>],
                    ms_writer := None, ms_disk := dk\<rparr>)))"

definition start_writer :: "(int \<Rightarrow> table_io) \<Rightarrow> (nat \<Rightarrow> int) \<Rightarrow> merge_state \<Rightarrow> merge_state" where
  "start_writer ios num st =
     (let cur_num = num (ms_started st) in
      st\<lparr>ms_writer := Some (cur_num, writer_new (tio_writes (ios cur_num))), cur_bytes := 0, ms_started := Suc (ms_started st)\<rparr>)"

text \<open>The body of the loop for one entry of the merge.\<close>

definition merge_entry :: "(int \<Rightarrow> table_io) \<Rightarrow> (nat \<Rightarrow> int) \<Rightarrow> nat \<Rightarrow> compaction_job \<Rightarrow> u64 \<Rightarrow> entry \<Rightarrow> merge_state \<Rightarrow> db_error + merge_state" where
  "merge_entry ios num limit job oldest_snap e st =
     (case keep_entry oldest_snap (is_bottommost job) (ms_keep st) e of
        (keep, ks) \<Rightarrow>
          let st = st\<lparr>ms_keep := ks\<rparr> in
          if \<not> keep then Inr st
          else let st = (if ms_writer st = None then start_writer ios num st else st) in
            case ms_writer st of
              None \<Rightarrow> Inl BadPointer
            | Some (n, w) \<Rightarrow>
                (case sst_add (ekey e) (evalue e) (etomb e) (eseq e) w of
                   Inl x \<Rightarrow> Inl (TableError x)
                 | Inr w' \<Rightarrow>
                     let st = st\<lparr>ms_writer := Some (n, w'), cur_bytes := cur_bytes st + (17 + length (ekey e) + length (evalue e))\<rparr> in
                     if cur_bytes st \<ge> limit then finish_writer ios (output_level job) st else Inr st))"

partial_function (option) merge_loop ::
  "(merge_source list \<Rightarrow> nat) \<Rightarrow> (int \<Rightarrow> table_io) \<Rightarrow> (nat \<Rightarrow> int) \<Rightarrow> nat \<Rightarrow> compaction_job \<Rightarrow> u64
     \<Rightarrow> merge_source merge_iter \<Rightarrow> merge_state \<Rightarrow> (db_error + merge_state) option" where
  "merge_loop pick ios num limit job oldest_snap it st =
     (if \<not> mvalid it then Some (finish_writer ios (output_level job) st)
      else case merge_entry ios num limit job oldest_snap (mcur it) st of
        Inl e \<Rightarrow> Some (Inl e)
      | Inr st' \<Rightarrow>
          Option.bind (merge_next merge_source_ops pick it)
            (\<lambda>r. case r of
               Inl e \<Rightarrow> Some (Inl (TableError e))
             | Inr it' \<Rightarrow> merge_loop pick ios num limit job oldest_snap it' st'))"

fun table_sources :: "(int \<Rightarrow> preads) \<Rightarrow> file_meta list \<Rightarrow> sst_error + merge_source list" where
  "table_sources rp [] = Inr []"
| "table_sources rp (fm # fms) =
     (case sst_source (rp (fm_number fm)) (fm_table fm) of
        Inl e \<Rightarrow> Inl e
      | Inr s \<Rightarrow> (case table_sources rp fms of Inl e \<Rightarrow> Inl e | Inr ss \<Rightarrow> Inr (s # ss)))"

definition merge_inputs :: "(merge_source list \<Rightarrow> nat) \<Rightarrow> (int \<Rightarrow> preads) \<Rightarrow> (int \<Rightarrow> table_io) \<Rightarrow> (nat \<Rightarrow> int) \<Rightarrow> nat
    \<Rightarrow> compaction_job \<Rightarrow> u64 \<Rightarrow> (int \<rightharpoonup> afile) \<Rightarrow> (db_error + merge_state) option" where
  "merge_inputs pick rp ios num limit job oldest_snap dk =
     (case table_sources rp (job_inputs job) of
        Inl e \<Rightarrow> Some (Inl (TableError e))
      | Inr srcs \<Rightarrow>
          Option.bind (merge_new merge_source_ops pick srcs True UINT64_MAX True)
            (\<lambda>r. case r of
               Inl e \<Rightarrow> Some (Inl (TableError e))
             | Inr it \<Rightarrow> merge_loop pick ios num limit job oldest_snap it (merge_start dk)))"

section \<open>A round\<close>

text \<open>The first critical section: the job, if there is one, and the oldest snapshot.\<close>

definition begin_round :: "db \<Rightarrow> (compaction_job \<times> u64) option \<times> db" where
  "begin_round d =
     (let d = d\<lparr>compaction_pending := False, compaction_running := True\<rparr>;
          job = pick_compaction (force_compact d) (opts d) (current_version d);
          oldest_snap = oldest_live_snapshot (live_snapshots d) in
      if job_inputs job = [] then (None, d\<lparr>compaction_running := False\<rparr>) else (Some (job, oldest_snap), d))"

text \<open>
  The new version: the inputs are gone from every level, the outputs are at theirs, which is sorted
  by smallest key when it is not level 0. (\<open>std::sort\<close> on keys that are all different.)
\<close>

definition replace_files :: "compaction_job \<Rightarrow> file_meta list \<Rightarrow> version \<Rightarrow> version" where
  "replace_files job outs ver =
     \<lparr>files = (\<lambda>l.
        let rest = filter (\<lambda>fm. fm_number fm \<notin> fm_number ` set (job_inputs job)) (files ver l) in
        if l \<noteq> output_level job then rest
        else if l \<ge> 1 then sort_key fm_smallest (rest @ outs) else rest @ outs)\<rparr>"

text \<open>
  The second critical section. The input files are unlinked when their last reader is gone, here at once.
\<close>

definition commit_round :: "sys_ret list \<Rightarrow> bool \<Rightarrow> compaction_job \<Rightarrow> merge_state \<Rightarrow> db \<Rightarrow> db_error + db" where
  "commit_round rs ok job st d =
     (let finish = (\<lambda>d. d\<lparr>compaction_pending := (if needs_compaction (opts d) (current_version d) then True else compaction_pending d),
                          compaction_running := False\<rparr>) in
      if outputs st = [] then Inr (finish d)
      else let new_ver = replace_files job (outputs st) (current_version d) in
        case append_snapshot rs ok (version_to_manifest new_ver) (db_manifest d) of
          (_, Some e) \<Rightarrow> Inl (ManifestError e)
        | (m, None) \<Rightarrow>
            Inr (finish (d\<lparr>db_manifest := m, current_version := new_ver,
                   disk := (\<lambda>n. if n \<in> fm_number ` set (job_inputs job) then None else disk d n)\<rparr>)))"

text \<open>A round with no other thread in between.\<close>

definition round_alone :: "(merge_source list \<Rightarrow> nat) \<Rightarrow> (int \<Rightarrow> preads) \<Rightarrow> (int \<Rightarrow> table_io) \<Rightarrow> sys_ret list \<Rightarrow> bool \<Rightarrow> db \<Rightarrow> (db_error + db) option" where
  "round_alone pick rp ios rs ok d =
     (case begin_round d of
        (None, d') \<Rightarrow> Some (Inr d')
      | (Some (job, oldest_snap), d') \<Rightarrow>
          Option.bind (merge_inputs pick rp ios (\<lambda>i. next_sst_number d' + int i) (target_file_size (opts d')) job oldest_snap (disk d'))
            (\<lambda>r. Some (case r of
               Inl e \<Rightarrow> Inl e
             | Inr st \<Rightarrow> commit_round rs ok job st (d'\<lparr>disk := ms_disk st, next_sst_number := next_sst_number d' + int (ms_started st)\<rparr>))))"

section \<open>compact\<close>

definition compact_done :: "version \<Rightarrow> bool" where
  "compact_done ver \<longleftrightarrow> total_file_count ver \<le> 1 \<or>
     files ver 0 = [] \<and> length (filter (\<lambda>l. files ver l \<noteq> []) [1..<kMaxLevels]) \<le> 1"

text \<open>
  \<open>DB::compact\<close>: ask for a round and wait for it, until everything is in one file or one level. \<open>round\<close> is what
  the background thread does with a pending request.
\<close>

partial_function (option) compact_wait :: "(db \<Rightarrow> (db_error + db) option) \<Rightarrow> db \<Rightarrow> (db_error + db) option" where
  "compact_wait round d =
     (if compact_done (current_version d) then Some (Inr d)
      else Option.bind (round (d\<lparr>compaction_pending := True\<rparr>))
        (\<lambda>r. case r of Inl e \<Rightarrow> Some (Inl e) | Inr d' \<Rightarrow> compact_wait round d'))"

definition compact :: "(db \<Rightarrow> (db_error + db) option) \<Rightarrow> db \<Rightarrow> (db_error + db) option" where
  "compact round d =
     Option.bind (compact_wait round (d\<lparr>force_compact := True\<rparr>))
       (\<lambda>r. Some (case r of Inl e \<Rightarrow> Inl e | Inr d' \<Rightarrow> Inr (d'\<lparr>force_compact := False\<rparr>)))"

end
