(* ===== verification/Compact_Runs.thy ===== *)
theory Compact_Runs
  imports Db_Reads Db_Compact
begin

text \<open>
  Why a compaction may drop what it drops: the versions it keeps of a sorted merge, and what happens to
  reads when the inputs among the runs of a database are replaced by the kept versions at a deeper
  run.
\<close>

section \<open>The kept versions\<close>

fun keep_list :: "u64 \<Rightarrow> bool \<Rightarrow> key \<times> bool \<Rightarrow> entry list \<Rightarrow> entry list" where
  "keep_list old bm st [] = []"
| "keep_list old bm st (e # es) =
     (case keep_entry old bm st e of (keep, st') \<Rightarrow> if keep then e # keep_list old bm st' es else keep_list old bm st' es)"

definition keep_after :: "u64 \<Rightarrow> bool \<Rightarrow> key \<times> bool \<Rightarrow> entry list \<Rightarrow> key \<times> bool" where
  "keep_after old bm st es = fold (\<lambda>e st. snd (keep_entry old bm st e)) es st"

lemma keep_list_append: "keep_list old bm st (xs @ ys) = keep_list old bm st xs @ keep_list old bm (keep_after old bm st xs) ys"
  by (induction xs arbitrary: st) (auto simp: keep_after_def split: prod.splits)

lemma keep_after_snoc: "keep_after old bm st (xs @ [x]) = snd (keep_entry old bm (keep_after old bm st xs) x)"
  by (simp add: keep_after_def)

text \<open>The flag that an anchor of the current key was seen.\<close>

lemma keep_after_anchor:
  assumes "ent_sorted (pre @ [e])"
  shows "ekey e = fst (keep_after old bm ([], False) pre) \<and> snd (keep_after old bm ([], False) pre) \<longleftrightarrow>
    (\<exists>a \<in> set pre. ekey a = ekey e \<and> eseq a \<le> old)"
  using assms
proof (induction pre arbitrary: e rule: rev_induct)
  case Nil
  then show ?case by (simp add: keep_after_def)
next
  case (snoc x pre)
  obtain pk ka where st: "keep_after old bm ([], False) pre = (pk, ka)" by force
  have sorted: "ent_sorted (pre @ [x])" "ekey x \<le> ekey e" "\<forall>a \<in> set pre. ekey a \<le> ekey x"
    using snoc.prems by (auto simp: sorted_wrt_append dest: ent_le_key)
  have IH: "ekey x = pk \<and> ka \<longleftrightarrow> (\<exists>a \<in> set pre. ekey a = ekey x \<and> eseq a \<le> old)" using snoc.IH [OF sorted(1)] st by simp
  have "keep_after old bm ([], False) (pre @ [x]) = (ekey x, eseq x \<le> old \<or> ekey x = pk \<and> ka)"
    by (auto simp: keep_after_snoc st keep_entry_def Let_def not_less)
  then have st': "ekey e = fst (keep_after old bm ([], False) (pre @ [x])) \<and> snd (keep_after old bm ([], False) (pre @ [x])) \<longleftrightarrow>
      ekey e = ekey x \<and> (eseq x \<le> old \<or> (\<exists>a \<in> set pre. ekey a = ekey x \<and> eseq a \<le> old))" using IH by simp
  have "ekey e = ekey x" if "a \<in> set pre" "ekey a = ekey e" for a using sorted(2,3) that by force
  then show ?case unfolding st' by (cases "ekey e = ekey x") auto
qed

lemma keep_entry_fst:
  "fst (keep_entry old bm st e) \<longleftrightarrow> eseq e > old \<or> \<not> (ekey e = fst st \<and> snd st) \<and> \<not> (etomb e \<and> bm)"
  by (auto simp: keep_entry_def Let_def split: prod.splits)

lemma snoc_split: "(\<exists>pre post. L @ [x] = pre @ e # post \<and> P pre) \<longleftrightarrow> e = x \<and> P L \<or> (\<exists>pre post. L = pre @ e # post \<and> P pre)"
proof (intro iffI; elim exE conjE disjE)
  fix pre post assume "L @ [x] = pre @ e # post" "P pre"
  then show "e = x \<and> P L \<or> (\<exists>pre post. L = pre @ e # post \<and> P pre)" by (cases post rule: rev_cases) auto
qed auto

lemma keep_list_mem:
  assumes "ent_sorted L"
  shows "e \<in> set (keep_list old bm ([], False) L) \<longleftrightarrow>
    (\<exists>pre post. L = pre @ e # post \<and> (eseq e > old \<or> (\<forall>a \<in> set pre. ekey a = ekey e \<longrightarrow> eseq a > old) \<and> \<not> (etomb e \<and> bm)))"
  using assms
proof (induction L rule: rev_induct)
  case (snoc x L)
  let ?st = "keep_after old bm ([], False) L"
  have "keep_list old bm ([], False) (L @ [x]) = keep_list old bm ([], False) L @ (if fst (keep_entry old bm ?st x) then [x] else [])"
    by (auto simp: keep_list_append split: prod.splits)
  moreover have "fst (keep_entry old bm ?st x) \<longleftrightarrow> eseq x > old \<or> (\<forall>a \<in> set L. ekey a = ekey x \<longrightarrow> eseq a > old) \<and> \<not> (etomb x \<and> bm)"
    unfolding keep_entry_fst keep_after_anchor [OF snoc.prems] by (auto simp: not_le)
  moreover note snoc_split [of L x e "\<lambda>pre. eseq e > old \<or> (\<forall>a \<in> set pre. ekey a = ekey e \<longrightarrow> eseq a > old) \<and> \<not> (etomb e \<and> bm)"]
  moreover have "ent_sorted L" using snoc.prems by (simp add: sorted_wrt_append)
  ultimately show ?case using snoc.IH by auto
qed simp

lemma keep_list_sub: "set (keep_list old bm st L) \<subseteq> set L"
proof (induction L arbitrary: st)
  case (Cons e L)
  then show ?case by (cases "keep_entry old bm st e") (auto simp: subset_iff)
qed simp

lemma keep_list_sorted: "ent_sorted L \<Longrightarrow> ent_sorted (keep_list old bm st L)"
proof (induction L arbitrary: st)
  case (Cons e L)
  then show ?case using keep_list_sub by (fastforce split: prod.splits)
qed simp

lemma sorted_later:
  assumes "ent_sorted (pre @ e # post)" "a \<in> set post" "ekey a = ekey e"
  shows "eseq a \<le> eseq e"
  using assms by (auto simp: sorted_wrt_append ent_le_def)

lemma sorted_earlier:
  assumes "ent_sorted (pre @ e # post)" "a \<in> set pre" "ekey a = ekey e"
  shows "eseq e \<le> eseq a"
  using assms by (auto simp: sorted_wrt_append ent_le_def)

text \<open>
  With a version its newer ones are kept; a kept version that the oldest snapshot may see is the
  newest such; and the newest one that it may see is dropped only if it is a deletion at the bottom.
\<close>

lemma keep_newer:
  assumes "ent_sorted L" "x \<in> set (keep_list old bm ([], False) L)" "y \<in> set L" "ekey y = ekey x" "eseq x < eseq y"
  shows "y \<in> set (keep_list old bm ([], False) L)"
proof (cases "eseq y > old")
  case True
  then show ?thesis using assms(3) split_list [of y L] unfolding keep_list_mem [OF assms(1)] by blast
next
  case False
  obtain pre post where L: "L = pre @ x # post" "eseq x > old \<or> (\<forall>a \<in> set pre. ekey a = ekey x \<longrightarrow> eseq a > old)"
    using assms(2) unfolding keep_list_mem [OF assms(1)] by blast
  have "y \<in> set pre" using assms(3-5) sorted_later [of pre x post y] assms(1) unfolding L(1) by auto
  with L(2) False assms(4,5) show ?thesis by auto
qed

lemma keep_anchor:
  assumes "ent_sorted L" "x \<in> set (keep_list old bm ([], False) L)" "y \<in> set L" "ekey y = ekey x" "eseq x \<le> old" "eseq y \<le> old"
  shows "eseq y \<le> eseq x"
proof -
  obtain pre post where L: "L = pre @ x # post" "eseq x > old \<or> (\<forall>a \<in> set pre. ekey a = ekey x \<longrightarrow> eseq a > old)"
    using assms(2) unfolding keep_list_mem [OF assms(1)] by blast
  have "y \<notin> set pre" using L(2) assms(4-6) by auto
  then show ?thesis using assms(3,4) sorted_later [of pre x post y] assms(1) unfolding L(1) by auto
qed

lemma drop_newest:
  assumes "ent_sorted L" "unique_versions (set L)" "e \<in> set L" "e \<notin> set (keep_list old bm ([], False) L)"
    and "\<And>a. a \<in> set L \<Longrightarrow> ekey a = ekey e \<Longrightarrow> eseq a \<le> old \<Longrightarrow> eseq a \<le> eseq e"
  shows "etomb e" "bm" "eseq e \<le> old"
proof -
  obtain pre post where L: "L = pre @ e # post" "e \<notin> set pre" using assms(3) by (meson split_list_first)
  have "eseq a > old" if a: "a \<in> set pre" "ekey a = ekey e" for a
  proof (rule ccontr)
    assume "\<not> eseq a > old"
    then have "eseq a \<le> eseq e" "eseq e \<le> eseq a" using assms(5) [of a] sorted_earlier [of pre e post a] assms(1) a L(1) by auto
    then have "a = e" using assms(2) a L(1) by (auto simp: unique_versions_def)
    with a L(2) show False by simp
  qed
  then show "etomb e" "bm" "eseq e \<le> old" using assms(4) L(1) unfolding keep_list_mem [OF assms(1)] by force+
qed

section \<open>Replacing the inputs\<close>

text \<open>
  The merged inputs \<open>L\<close>, the runs that remain before the place of the output, the one at its place,
  and those behind it.
\<close>

definition replaceable :: "entry list list \<Rightarrow> entry list \<Rightarrow> entry list list \<Rightarrow> entry list \<Rightarrow> bool \<Rightarrow> bool" where
  "replaceable as mid bs L bm \<longleftrightarrow> (\<forall>r \<in> set as. recent r L) \<and> (\<forall>x \<in> set mid. \<forall>y \<in> set L. ekey x \<noteq> ekey y) \<and>
     (\<forall>r \<in> set bs. recent L r) \<and> (bm \<longrightarrow> concat bs = [])"

lemma replaced_recent:
  assumes "sorted_wrt recent (as @ mid # bs)" "ent_sorted L" "replaceable as mid bs L bm"
    and "set out = set mid \<union> set (keep_list old bm ([], False) L)"
  shows "sorted_wrt recent (as @ out # bs)"
proof -
  let ?K = "keep_list old bm ([], False) L"
  have sub: "set ?K \<subseteq> set L" by (rule keep_list_sub)
  have rests: "sorted_wrt recent as" "sorted_wrt recent bs" "\<forall>r \<in> set as. recent r mid" "\<forall>r \<in> set bs. recent mid r"
      "\<forall>a \<in> set as. \<forall>b \<in> set bs. recent a b"
    using assms(1) by (auto simp: sorted_wrt_append)
  have rp: "\<forall>r \<in> set as. recent r L" "\<forall>r \<in> set bs. recent L r" using assms(3) by (auto simp: replaceable_def)
  have "recent r out" if "r \<in> set as" for r
    using that rests(3) rp(1) sub unfolding recent_def assms(4) by blast
  moreover have "recent out r" if r: "r \<in> set bs" for r
    unfolding recent_def assms(4)
  proof (intro ballI impI)
    fix x y assume xy: "x \<in> set mid \<union> set ?K" "y \<in> set r" "ekey x = ekey y"
    show "eseq y \<le> eseq x \<or> y \<in> set mid \<union> set ?K"
    proof (cases "x \<in> set ?K")
      case True
      then have "eseq y \<le> eseq x \<or> y \<in> set L" using rp(2) r xy(2,3) sub unfolding recent_def by blast
      then show ?thesis using keep_newer [OF assms(2) True, of y] xy(3) by (cases "eseq y \<le> eseq x") auto
    next
      case False
      then show ?thesis using xy rests(4) r unfolding recent_def by blast
    qed
  qed
  ultimately show ?thesis using rests by (auto simp: sorted_wrt_append)
qed

text \<open>The newest version of a key is still there, or it is a deletion and nothing of the key is left to see.\<close>

lemma replaced_newest:
  assumes "ent_sorted L" "replaceable as mid bs L bm" "unique_versions (set (concat as) \<union> set mid \<union> set (concat bs) \<union> set L)"
    and "newest (set (concat as) \<union> set mid \<union> set (concat bs) \<union> set L) k s e" "old \<le> s \<or> (\<forall>x \<in> set L. eseq x \<le> s)"
    and "e \<notin> set (concat as) \<union> set mid \<union> set (concat bs) \<union> set (keep_list old bm ([], False) L)"
  shows "etomb e" "visible (set (concat as) \<union> set mid \<union> set (concat bs) \<union> set (keep_list old bm ([], False) L)) k s = {}"
proof -
  let ?K = "keep_list old bm ([], False) L" and ?V = "set (concat as) \<union> set mid \<union> set (concat bs) \<union> set L"
  have e: "e \<in> set L" "e \<notin> set ?K" "e \<in> ?V" "ekey e = k" "eseq e \<le> s" "\<And>a. a \<in> ?V \<Longrightarrow> ekey a = k \<Longrightarrow> eseq a \<le> s \<Longrightarrow> eseq a \<le> eseq e"
    using assms(4,6) by (auto simp: newest_def visible_def)
  have uni: "y = e" if "y \<in> ?V" "ekey y = k" "eseq y = eseq e" for y using assms(3) e(3,4) that unfolding unique_versions_def by blast
  have uniL: "unique_versions (set L)" using assms(3) unfolding unique_versions_def by blast
  have new: "eseq a \<le> eseq e" if "a \<in> set L" "ekey a = ekey e" "eseq a \<le> old" for a
    using that e(4) e(6) [of a] assms(5) order.trans [of "eseq a" old s] by auto
  note d = drop_newest [OF assms(1) uniL e(1,2) new]
  show "etomb e" by (rule d(1))
  have False if y: "y \<in> set (concat as) \<union> set mid \<union> set (concat bs) \<union> set ?K" "ekey y = k" "eseq y \<le> s" for y
  proof -
    have "y \<in> ?V" using y(1) keep_list_sub [of old bm "([], False)" L] by blast
    then have ye: "eseq y \<le> eseq e" "eseq y = eseq e \<Longrightarrow> y = e" using e(6) uni y by blast+
    consider r where "r \<in> set as" "y \<in> set r" | "y \<in> set mid" | "y \<in> set (concat bs)" | "y \<in> set ?K" using y(1) by auto
    then show False
    proof cases
      case 1
      then have "recent r L" using assms(2) by (simp add: replaceable_def)
      then have "eseq e \<le> eseq y \<or> e \<in> set r" using 1 e(1,4) y(2) unfolding recent_def by blast
      then show False using ye assms(6) 1 by auto
    next
      case 2
      then show False using assms(2) e(1,4) y(2) by (auto simp: replaceable_def)
    next
      case 3
      then show False using assms(2) d(2) by (auto simp: replaceable_def)
    next
      case 4
      have "eseq e \<le> eseq y" using keep_anchor [OF assms(1) 4 e(1)] ye(1) d(3) e(4) y(2) by simp
      then show False using ye 4 e(2) by auto
    qed
  qed
  then show "visible (set (concat as) \<union> set mid \<union> set (concat bs) \<union> set ?K) k s = {}" by (auto simp: visible_def)
qed

text \<open>Databases that differ in this way return the same.\<close>

lemma get_same_live:
  assumes "db_ok d" "db_ok d'" "db_versions d' \<subseteq> db_versions d"
    and "\<And>e. newest (db_versions d) k s e \<Longrightarrow> e \<notin> db_versions d' \<Longrightarrow> etomb e \<and> visible (db_versions d') k s = {}"
  shows "map_option fst (get_impl no_error k s d') = map_option fst (get_impl no_error k s d)"
proof (cases "visible (db_versions d) k s = {}")
  case True
  then have "visible (db_versions d') k s = visible (db_versions d) k s" using assms(3) by (auto simp: visible_def)
  then show ?thesis by (rule get_same_visible [OF assms(1,2)])
next
  case False
  then have "lookup_run (concat (db_runs d)) k s \<noteq> None" unfolding db_versions_def lookup_run_None_iff .
  then obtain e where "lookup_run (concat (db_runs d)) k s = Some e" by blast
  from db_lookup_newest [OF assms(1) this] have e: "newest (db_versions d) k s e" .
  show ?thesis
  proof (cases "e \<in> db_versions d'")
    case True
    then have "newest (db_versions d') k s e" using e assms(3) by (auto simp: newest_def visible_def)
    from get_of_newest [OF assms(1) e] get_of_newest [OF assms(2) this] show ?thesis by (simp only:)
  next
    case False
    with assms(4) [OF e] have t: "etomb e" "visible (db_versions d') k s = {}" by auto
    then have "lookup_run (concat (db_runs d')) k s = None" unfolding db_versions_def lookup_run_None_iff by blast
    then show ?thesis using get_of_newest [OF assms(1) e] get_impl_run [OF assms(2), of k s] t(1)
      by (auto simp: run_status_def status_value_def)
  qed
qed

end
