(* ===== verification/Db_Flush.thy ===== *)
theory Db_Flush
  imports Db_Reads Db_Write
begin

text \<open>
  What installing a table and a flush do to the database: the new file holds the memtable's versions,
  the invariant is kept and no read changes, whatever step of the flush fails.
\<close>

section \<open>A freshly installed table\<close>

lemma blocks_image_take_mono:
  assumes "i < j" "j \<le> length bs"
  shows "length (blocks_image (take i bs)) < length (blocks_image (take j bs))"
proof -
  have "take j bs = take i bs @ bs ! i # drop (Suc i) (take j bs)"
    using assms id_take_nth_drop [of i "take j bs"] by simp
  then have "blocks_image (take j bs) = blocks_image (take i bs) @ block_image (bs ! i) @ blocks_image (drop (Suc i) (take j bs))"
    by (metis blocks_image_def concat.simps(2) concat_append list.map(2) map_append)
  then show ?thesis by (simp add: block_image_length)
qed

lemma index_offsets_inj:
  assumes "length (blocks_image bs) < 2 ^ 63"
  shows "inj_on (\<lambda>i. ioffset (index_of 0 bs ! i)) {..<length bs}"
proof (rule inj_onI)
  let ?n = "\<lambda>i. length (blocks_image (take i bs))"
  fix i j assume ij: "i \<in> {..<length bs}" "j \<in> {..<length bs}" and eq: "ioffset (index_of 0 bs ! i) = ioffset (index_of 0 bs ! j)"
  have small: "?n i < 2 ^ 64" if "i < length bs" for i
    using blocks_image_take_mono [of i "length bs" bs] that assms by simp
  have "unat (to_u64 (?n i)) = unat (to_u64 (?n j))" using eq ij by (simp add: index_of_nth)
  then have "?n i = ?n j" using small ij by simp
  then show "i = j" using blocks_image_take_mono [of i j bs] blocks_image_take_mono [of j i bs] ij
    by (metis lessThan_iff less_imp_le_nat less_irrefl linorder_neqE_nat)
qed

lemma table_source:
  assumes "es \<noteq> []" "\<forall>e \<in> set es. fits e" "length (sst_image es) < 2 ^ 63" "sst_open None None None num (sst_image es) = Inr t"
  shows "\<exists>f. \<forall>i < length (tindex t). block_loader None t i = Inr (f (ioffset (tindex t ! i)))"
proof -
  let ?bs = "split_blocks [] es"
  have t: "tindex t = index_of 0 ?bs" using sst_open_image [OF assms(1-3), of num] assms(4) by auto
  have len: "length (blocks_image ?bs) < 2 ^ 63" using assms(3) by (simp add: image_length)
  note inj = index_offsets_inj [OF len]
  define f where "f off = enc_block (?bs ! inv_into {..<length ?bs} (\<lambda>i. ioffset (tindex t ! i)) off)" for off
  have "block_loader None t i = Inr (f (ioffset (tindex t ! i)))" if "i < length (tindex t)" for i
  proof -
    have i: "i < length ?bs" using that t by simp
    then have "inv_into {..<length ?bs} (\<lambda>i. ioffset (tindex t ! i)) (ioffset (tindex t ! i)) = i"
      using inv_into_f_f [OF inj, of i] t by simp
    then show ?thesis using table_of_block(3) [OF sst_open_table(1) [OF assms] i] by (simp add: f_def)
  qed
  then show ?thesis by blast
qed

text \<open>What is needed of entries so that the file they make is read back correctly.\<close>

definition table_fit :: "entry list \<Rightarrow> bool" where
  "table_fit es \<longleftrightarrow> (\<forall>e \<in> set es. fits e) \<and> length (sst_image es) < 2 ^ 63 \<and> no_straddle (split_blocks [] es)"

lemma enc_block_count: "length es \<le> length (enc_block es)"
proof (induction es)
  case (Cons e es)
  then show ?case using enc_length [of e] by simp
qed simp

lemma image_count: "length es \<le> length (sst_image es)"
proof -
  have "length (concat bs) \<le> length (blocks_image bs)" for bs
  proof (induction bs)
    case (Cons b bs)
    then show ?case using enc_block_count [of b] by (simp add: blocks_image_def block_image_length)
  qed simp
  from this [of "split_blocks [] es"] show ?thesis by (simp add: image_length concat_split_blocks)
qed

lemma installed_file:
  assumes "add_all es (writer_new rs) = Inr w" "install_table io num w dk = (Inr (w', t), dk')"
    and "tio_open1 io = None" "tio_open2 io = None" "tio_open3 io = None"
    and "es \<noteq> []" "table_fit es" "ent_sorted es"
    and fm: "fm = \<lparr>fm_number = num, fm_level = lv, fm_smallest = sst_writer.smallest_key w',
                fm_largest = sst_writer.largest_key w', fm_table = t\<rparr>"
  shows "fm_ok fm" "fm_entries fm = map stored es" "dk' = dk(num \<mapsto> snd (wfd w'))" "contents (snd (wfd w')) = sst_image es"
    "tio_sync io \<Longrightarrow> durable (snd (wfd w')) = length (sst_image es)"
    "fm_smallest fm = ekey (hd es)" "fm_largest fm = ekey (last es)"
    "sst_open None None None num (sst_image es) = Inr t"
proof -
  have fin: "sst_finish (tio_sync io) w = Inr w'" and op: "sst_open None None None num (contents (snd (wfd w'))) = Inr t"
    and dk: "dk' = dk(num \<mapsto> snd (wfd w'))"
    using assms(2-5) by (auto simp: install_table_def Let_def split: sum.splits if_splits)
  note img = writer_image [OF assms(1) fin]
  have fit: "\<forall>e \<in> set es. fits e" "length (sst_image es) < 2 ^ 63" "no_straddle (split_blocks [] es)"
    using assms(7) by (auto simp: table_fit_def)
  have "countable es" using image_count [of es] fit(2) by (simp add: countable_def)
  then have bounds: "sst_writer.smallest_key w' = ekey (hd es)" "sst_writer.largest_key w' = ekey (last es)"
    using img assms(6) by auto
  have op': "sst_open None None None num (sst_image es) = Inr t" using op img by simp
  note tab = sst_open_table [OF assms(6) fit(1,2) op']
  have ents: "fm_entries fm = map stored es" using fm_entries_table [of fm] tab(1) by (simp add: fm concat_split_blocks)
  have "ekey (hd es) \<le> ekey e \<and> ekey e \<le> ekey (last es)" if e: "e \<in> set es" for e
  proof -
    obtain xs ys where es: "es = xs @ e # ys" using split_list [OF e] by blast
    have "ent_le (hd es) e" using assms(8) by (cases xs) (auto simp: es sorted_wrt_append)
    moreover have "ent_le e (last es)" using assms(8) by (cases ys rule: rev_cases) (auto simp: es sorted_wrt_append)
    ultimately show ?thesis by (auto dest: ent_le_key)
  qed
  then have "\<forall>e \<in> set (fm_entries fm). fm_smallest fm \<le> ekey e \<and> ekey e \<le> fm_largest fm"
    unfolding ents using bounds by (auto simp: fm)
  moreover have "\<exists>bs. table_of (fm_table fm) bs \<and> ent_sorted (concat bs) \<and> no_straddle bs"
    using tab(1) fit(3) assms(8) by (intro exI [of _ "split_blocks [] es"]) (simp add: fm concat_split_blocks)
  ultimately show "fm_ok fm" unfolding fm_ok_def using tab(2) assms(6) ents by (simp add: fm)
  show "fm_entries fm = map stored es" "dk' = dk(num \<mapsto> snd (wfd w'))" "contents (snd (wfd w')) = sst_image es"
    "tio_sync io \<Longrightarrow> durable (snd (wfd w')) = length (sst_image es)"
    "fm_smallest fm = ekey (hd es)" "fm_largest fm = ekey (last es)" "sst_open None None None num (sst_image es) = Inr t"
    using ents dk img bounds op' by (simp_all add: fm)
qed

text \<open>A new file with a number of its own does not disturb the cache.\<close>

lemma cache_matches_new:
  assumes "cache_matches c ver" "\<forall>fm \<in> set (ver_files ver). fm_ok fm \<and> fm_number fm \<noteq> num" "num \<notin> cached_numbers c"
    and "\<forall>i < length (tindex t). block_loader None t i = Inr (f (ioffset (tindex t ! i)))" "tnumber t = num"
    and "set (ver_files ver') \<subseteq> insert fm (set (ver_files ver))" "fm_table fm = t"
  shows "cache_matches c ver'"
proof -
  obtain src where src: "cache_good src c" "\<forall>fm \<in> set (ver_files ver). serves src (fm_table fm)"
    using assms(1) by (auto simp: cache_matches_def)
  define src' where "src' key = (if file_number key = num then f (block_offset key) else src key)" for key
  have "cache_good src' c" using src(1) assms(3)
    by (cases c) (auto simp: cache_good_def coherent_def cached_numbers_def src'_def)
  moreover have "serves src' (fm_table g)" if "g \<in> set (ver_files ver')" for g
  proof (cases "g = fm")
    case True
    then show ?thesis using assms(4,5,7) by (simp add: serves_def src'_def)
  next
    case False
    then have g: "g \<in> set (ver_files ver)" using that assms(6) by blast
    then have "tnumber (fm_table g) \<noteq> num" using assms(2) by (auto simp: fm_ok_def)
    then show ?thesis using src(2) g by (simp add: serves_def src'_def)
  qed
  ultimately show ?thesis by (auto simp: cache_matches_def)
qed

section \<open>flush\<close>

lemma ver_files_add_l0: "ver_files (add_l0 fm ver) = files ver 0 @ fm # concat (map (files ver) [1..<kMaxLevels])"
proof -
  have "[0..<kMaxLevels] = 0 # [1..<kMaxLevels]" by (simp add: upt_levels)
  moreover have "map (files (add_l0 fm ver)) [1..<kMaxLevels] = map (files ver) [1..<kMaxLevels]"
    by (rule map_cong) (auto simp: add_l0_def)
  ultimately show ?thesis by (simp add: ver_files_def) (simp add: add_l0_def)
qed

lemma ver_files_0: "ver_files ver = files ver 0 @ concat (map (files ver) [1..<kMaxLevels])"
proof -
  have "[0..<kMaxLevels] = 0 # [1..<kMaxLevels]" by (simp add: upt_levels)
  then show ?thesis by (simp add: ver_files_def)
qed

lemma set_ver_files_add_l0: "set (ver_files (add_l0 fm ver)) = insert fm (set (ver_files ver))"
  unfolding ver_files_add_l0 ver_files_0 [of ver] by auto

lemma ver_runs_add_l0: "ver_runs (add_l0 fm ver) = fm_entries fm # ver_runs ver"
  by (simp add: ver_runs_def add_l0_def level_entries_def cong: map_cong)

lemma version_ok_add_l0:
  assumes "version_ok ver" "fm_ok fm" "\<forall>g \<in> set (ver_files ver). fm_number g \<noteq> fm_number fm"
  shows "version_ok (add_l0 fm ver)"
proof -
  have "distinct (map fm_number (ver_files ver))" using assms(1) by (simp add: version_ok_def)
  then have "distinct (map fm_number (ver_files (add_l0 fm ver)))"
    using assms(3) unfolding ver_files_add_l0 ver_files_0 [of ver] by auto
  moreover have "files (add_l0 fm ver) l = files ver l" if "l \<noteq> 0" for l using that by (simp add: add_l0_def)
  ultimately show ?thesis using assms(1,2) unfolding version_ok_def set_ver_files_add_l0 by auto
qed

lemma raw_entries_versions: "mt_ok m \<Longrightarrow> raw_entries m = Some (mt_versions m)"
  by (auto simp: mt_ok_def mt_versions_inv raw_entries_spec(1))

lemma mem_sized_empty: "mem_sized m \<Longrightarrow> approx_bytes m = 0 \<longleftrightarrow> mt_versions m = []"
  by (cases "mt_versions m") (auto simp: mem_sized_def write_bytes_def kNodeOverhead_def)

lemma map_stored_id: "mem_sized m \<Longrightarrow> map stored (mt_versions m) = mt_versions m"
  by (simp add: mem_sized_def map_idI)

text \<open>The answers to the reads of \<open>SSTable::open\<close> are complete.\<close>

definition opens :: "table_io \<Rightarrow> bool" where
  "opens io \<longleftrightarrow> tio_open1 io = None \<and> tio_open2 io = None \<and> tio_open3 io = None"

text \<open>The two ways a flush of a nonempty memtable can end.\<close>

lemma flush_cases:
  assumes "flush io d = (r, d')" "approx_bytes (mtable d) \<noteq> 0" "mt_ok (mtable d)"
  obtains (failed) e where "r = Inl e" "current_version d' = current_version d" "mtable d' = mtable d" "cache d' = cache d"
      "next_seq d' = next_seq d" "next_sst_number d' = next_sst_number d + 1" "live_snapshots d' = live_snapshots d" "db_wal d' = db_wal d" "opts d' = opts d"
  | (installed) w w' t dk m fm where "r = Inr ()"
      "add_all (mt_versions (mtable d)) (writer_new (tio_writes (fio_table io))) = Inr w"
      "install_table (fio_table io) (next_sst_number d) w (disk d) = (Inr (w', t), dk)"
      "fm = \<lparr>fm_number = next_sst_number d, fm_level = 0, fm_smallest = sst_writer.smallest_key w',
                fm_largest = sst_writer.largest_key w', fm_table = t\<rparr>"
      "append_snapshot (fio_writes io) (fio_sync io) (version_to_manifest (add_l0 fm (current_version d))) (db_manifest d) = (m, None)"
      "current_version d' = add_l0 fm (current_version d)" "mtable d' = memtable_new kMemtableHeight"
      "cache d' = cache d" "next_seq d' = next_seq d" "next_sst_number d' = next_sst_number d + 1" "live_snapshots d' = live_snapshots d"
      "db_manifest d' = m" "disk d' = dk" "contents (wlog (db_wal d')) = []" "opts d' = opts d"
      "db_wal d' = wal_open \<lparr>contents = [], durable = 0\<rparr> (opt_sync (opts d))"
proof -
  note raw = raw_entries_versions [OF assms(3)]
  show thesis
  proof (cases "add_all (mt_versions (mtable d)) (writer_new (tio_writes (fio_table io)))")
    case (Inl e)
    show thesis by (rule failed) (use Inl assms(1,2) raw in \<open>auto simp: flush_def Let_def\<close>)
  next
    case w: (Inr w)
    obtain res dk where res: "install_table (fio_table io) (next_sst_number d) w (disk d) = (res, dk)" by force
    show thesis
    proof (cases res)
      case (Inl e)
      show thesis by (rule failed) (use Inl assms(1,2) raw w res in \<open>auto simp: flush_def Let_def\<close>)
    next
      case (Inr wt)
      obtain w' t where wt: "wt = (w', t)" by force
      define fm where "fm = \<lparr>fm_number = next_sst_number d, fm_level = 0, fm_smallest = sst_writer.smallest_key w',
                fm_largest = sst_writer.largest_key w', fm_table = t\<rparr>"
      obtain m e where m: "append_snapshot (fio_writes io) (fio_sync io) (version_to_manifest (add_l0 fm (current_version d))) (db_manifest d) = (m, e)"
        by force
      show thesis
      proof (cases e)
        case (Some x)
        show thesis by (rule failed) (use Some assms(1,2) raw w res Inr wt m in \<open>auto simp: flush_def Let_def fm_def\<close>)
      next
        case None
        show thesis
          by (rule installed [OF _ w res [unfolded Inr wt] fm_def m [unfolded None]])
            (use assms(1,2) raw w res Inr wt m None in \<open>auto simp: flush_def Let_def fm_def wal_open_def\<close>)
      qed
    qed
  qed
qed

lemma flush_empty: "approx_bytes (mtable d) = 0 \<Longrightarrow> flush io d = (Inr (), d)"
  by (simp add: flush_def)

lemma flush_ok:
  assumes "db_ok d" "flush io d = (r, d')" "opens (fio_table io)" "table_fit (mt_versions (mtable d))"
  shows "db_ok d'" "db_versions d' = db_versions d"
    "r = Inr () \<Longrightarrow> mt_versions (mtable d') = []"
    "next_seq d' = next_seq d" "live_snapshots d' = live_snapshots d"
proof -
  have mt: "mt_ok (mtable d)" "mem_sized (mtable d)" using assms(1) by (auto simp: db_ok_def)
  have "db_ok d' \<and> db_versions d' = db_versions d \<and> (r = Inr () \<longrightarrow> mt_versions (mtable d') = []) \<and>
    next_seq d' = next_seq d \<and> live_snapshots d' = live_snapshots d"
  proof (cases "approx_bytes (mtable d) = 0")
    case True
    then show ?thesis using assms(1,2) mem_sized_empty [OF mt(2)] by (simp add: flush_empty)
  next
    case False
    let ?es = "mt_versions (mtable d)" and ?ver = "current_version d"
    have ne: "?es \<noteq> []" using False mem_sized_empty [OF mt(2)] by simp
    from assms(2) False mt(1) show ?thesis
    proof (cases rule: flush_cases)
      case failed
      then show ?thesis using db_ok_frame [OF assms(1), of d'] by (simp add: db_versions_def)
    next
      case (installed w w' t dk m fm)
      note f = installed_file [OF installed(2,3) _ _ _ ne assms(4) skiplist.versions_sorted [OF mt(1)] installed(4)]
      have fm: "fm_ok fm" "fm_entries fm = ?es" "fm_number fm = next_sst_number d" "fm_table fm = t"
        using f(1,2) assms(3) installed(4) by (simp_all add: opens_def map_stored_id [OF mt(2)])
      have num: "\<forall>g \<in> set (ver_files ?ver). fm_ok g \<and> fm_number g \<noteq> next_sst_number d" "next_sst_number d \<notin> cached_numbers (cache d)"
        using db_ok_numbers [OF assms(1)] by fastforce+
      have runs: "db_runs d' = [] # db_runs d"
        using installed(6,7) fm(2) by (simp add: db_runs_def ver_runs_add_l0 mt_versions_new kMemtableHeight_def)
      have "\<exists>f. \<forall>i < length (tindex t). block_loader None t i = Inr (f (ioffset (tindex t ! i)))"
        using table_source [OF ne _ _ f(8)] assms(3,4) by (simp add: opens_def table_fit_def)
      then obtain src where src: "\<forall>i < length (tindex t). block_loader None t i = Inr (src (ioffset (tindex t ! i)))" by blast
      have tn: "tnumber t = next_sst_number d" using fm(1,3,4) by (simp add: fm_ok_def)
      have "cache_matches (cache d) (current_version d)" using assms(1) by (simp add: db_ok_def)
      from cache_matches_new [OF this num src tn _ fm(4), of "add_l0 fm ?ver"]
      have "cache_matches (cache d') (current_version d')" using installed(6,8) by (simp add: set_ver_files_add_l0)
      moreover have "version_ok (current_version d')"
        using version_ok_add_l0 [OF _ fm(1)] num assms(1) fm(3) installed(6) by (simp add: db_ok_def)
      moreover have "mt_ok (mtable d')" "mem_sized (mtable d')" "mt_versions (mtable d') = []"
        using installed(7) by (simp_all add: mt_ok_new kMemtableHeight_def mem_sized_def mt_versions_new) (simp add: memtable_new_def)
      moreover have "\<forall>n \<in> fm_number ` set (ver_files (current_version d')) \<union> cached_numbers (cache d'). n < next_sst_number d'"
        using db_ok_numbers(1,2) [OF assms(1)] installed(6,8,10) fm(3) by (fastforce simp: set_ver_files_add_l0)
      moreover have "sorted_wrt recent (db_runs d')" "db_versions d' = db_versions d"
        using assms(1) runs by (simp_all add: db_ok_def recent_def db_versions_def)
      ultimately show ?thesis using assms(1) installed(9,11) by (simp add: db_ok_def)
    qed
  qed
  then show "db_ok d'" "db_versions d' = db_versions d" "r = Inr () \<Longrightarrow> mt_versions (mtable d') = []"
    "next_seq d' = next_seq d" "live_snapshots d' = live_snapshots d" by simp_all
qed

text \<open>No write fails and the rename takes effect; interrupted and short writes are allowed.\<close>

definition io_healthy :: "flush_io \<Rightarrow> bool" where
  "io_healthy io \<longleftrightarrow> EFail \<notin> set (tio_writes (fio_table io)) \<and> tio_rename (fio_table io) \<and> EFail \<notin> set (fio_writes io) \<and> opens (fio_table io)"

lemma install_table_succeeds:
  assumes "EFail \<notin> set (tio_writes io)" "tio_rename io" "opens io" "es \<noteq> []" "table_fit es"
  shows "\<exists>w w' t dk'. add_all es (writer_new (tio_writes io)) = Inr w \<and> install_table io num w dk = (Inr (w', t), dk')"
proof -
  obtain w where w: "add_all es (writer_new (tio_writes io)) = Inr w" "EFail \<notin> set (fst (wfd w))"
    using add_all_ok [of "writer_new (tio_writes io)" es] assms(1) by (auto simp: writer_new_def)
  obtain w' where w': "sst_finish (tio_sync io) w = Inr w'" using sst_finish_ok [OF w(2)] by blast
  then have "contents (snd (wfd w')) = sst_image es" using writer_image [OF w(1)] by blast
  then show ?thesis using w w' assms(2-5) sst_open_image [OF assms(4), of num]
    by (simp add: install_table_def opens_def table_fit_def)
qed

lemma append_snapshot_succeeds: "EFail \<notin> set rs \<Longrightarrow> \<exists>m'. append_snapshot rs ok es m = (m', None)"
  using write_fully_ok [of rs "snapshot_frame es"] by (auto simp: append_snapshot_def file_write_def)

lemma flush_succeeds:
  assumes "db_ok d" "io_healthy io" "table_fit (mt_versions (mtable d))"
  shows "fst (flush io d) = Inr ()"
proof (cases "approx_bytes (mtable d) = 0")
  case True
  then show ?thesis by (simp add: flush_empty)
next
  case False
  have mt: "mt_ok (mtable d)" "mem_sized (mtable d)" using assms(1) by (auto simp: db_ok_def)
  then have ne: "mt_versions (mtable d) \<noteq> []" using False mem_sized_empty [OF mt(2)] by simp
  have io: "EFail \<notin> set (tio_writes (fio_table io))" "tio_rename (fio_table io)" "opens (fio_table io)" "EFail \<notin> set (fio_writes io)"
    using assms(2) by (auto simp: io_healthy_def)
  obtain w w' t dk where w: "add_all (mt_versions (mtable d)) (writer_new (tio_writes (fio_table io))) = Inr w"
    "install_table (fio_table io) (next_sst_number d) w (disk d) = (Inr (w', t), dk)"
    using install_table_succeeds [OF io(1-3) ne assms(3)] by blast
  let ?fm = "\<lparr>fm_number = next_sst_number d, fm_level = 0, fm_smallest = sst_writer.smallest_key w',
                fm_largest = sst_writer.largest_key w', fm_table = t\<rparr>"
  obtain m where "append_snapshot (fio_writes io) (fio_sync io) (version_to_manifest (add_l0 ?fm (current_version d))) (db_manifest d) = (m, None)"
    using append_snapshot_succeeds [OF io(4)] by blast
  with w False show ?thesis by (simp add: flush_def raw_entries_versions [OF mt(1)] Let_def)
qed

lemma maybe_flush_ok:
  assumes "db_ok d" "maybe_flush io d = (r, d')" "opens (fio_table io)" "table_fit (mt_versions (mtable d))"
  shows "db_ok d'" "db_versions d' = db_versions d" "next_seq d' = next_seq d"
  using flush_ok [OF assms(1) _ assms(3,4)] assms(1,2) by (auto simp: maybe_flush_def split: if_splits)

lemma maybe_flush_errors: "maybe_flush io d = (r, d') \<Longrightarrow> r \<noteq> Inl (WalError e)"
  by (auto simp: maybe_flush_def flush_def install_table_def Let_def split: if_splits option.splits sum.splits prod.splits)

end
