(* ===== verification/Compact_Merge.thy ===== *)
theory Compact_Merge
  imports Compact_Runs Db_Flush
begin

text \<open>
  The merge of a compaction as a function of lists: the files it writes hold the kept versions of
  the merged inputs, cut into files at the target size.
\<close>

section \<open>The merged inputs\<close>

definition merged :: "entry list \<Rightarrow> entry list" where
  "merged es = foldr ins_version es []"

lemma merged_spec: "ent_sorted (merged es)" "mset (merged es) = mset es" "set (merged es) = set es"
proof -
  have "ent_sorted (merged es) \<and> mset (merged es) = mset es"
    unfolding merged_def by (induction es) (simp_all add: ins_version_sorted mset_ins_version)
  then show "ent_sorted (merged es)" "mset (merged es) = mset es" "set (merged es) = set es" by (auto dest: mset_eq_setD)
qed

text \<open>There is one way only to sort versions.\<close>

lemma sorted_versions_unique:
  assumes "ent_sorted xs" "ent_sorted ys" "mset xs = mset ys" "unique_versions (set xs)"
  shows "xs = ys"
  using assms
proof (induction xs arbitrary: ys)
  case (Cons x xs)
  obtain y ys' where ys: "ys = y # ys'" using Cons.prems(3) by (cases ys) auto
  have set: "set (x # xs) = set ys" using Cons.prems(3) by (rule mset_eq_setD)
  then have "ent_le x y" "ent_le y x" using Cons.prems(1,2) ys by (auto simp: ent_le_def)
  then have "ekey x = ekey y \<and> eseq x = eseq y" by (auto simp: ent_le_def)
  moreover have "y \<in> set (x # xs)" using set ys by simp
  ultimately have "x = y" using Cons.prems(4) unfolding unique_versions_def by (meson list.set_intros(1))
  moreover have "unique_versions (set xs)" using Cons.prems(4) by (auto simp: unique_versions_def)
  ultimately show ?case using Cons.IH [of ys'] Cons.prems(1-3) ys by simp
qed simp

section \<open>The loop over the entries\<close>

fun merge_list :: "(int \<Rightarrow> table_io) \<Rightarrow> (nat \<Rightarrow> int) \<Rightarrow> nat \<Rightarrow> compaction_job \<Rightarrow> u64 \<Rightarrow> entry list \<Rightarrow> merge_state \<Rightarrow> db_error + merge_state" where
  "merge_list ios num limit job old [] st = finish_writer ios (output_level job) st"
| "merge_list ios num limit job old (e # es) st =
     (case merge_entry ios num limit job old e st of Inl x \<Rightarrow> Inl x | Inr st' \<Rightarrow> merge_list ios num limit job old es st')"

lemma merge_loop_entries:
  assumes "merge_entries merge_source_ops pick it = Some (Inr es)"
  shows "merge_loop pick ios num limit job old it st = Some (merge_list ios num limit job old es st)"
  using assms
proof (induction es arbitrary: it st)
  case Nil
  then have "\<not> mvalid it" by (subst (asm) merge_entries.simps) (auto split: if_splits bind_splits sum.splits)
  then show ?case by (subst merge_loop.simps) simp
next
  case (Cons e es)
  from Cons.prems obtain it' where it': "mvalid it" "mcur it = e" "merge_next merge_source_ops pick it = Some (Inr it')"
      "merge_entries merge_source_ops pick it' = Some (Inr es)"
    by (subst (asm) merge_entries.simps) (auto split: if_splits bind_splits sum.splits)
  with Cons.IH [OF it'(4)] show ?case by (subst merge_loop.simps) (simp split: sum.splits)
qed

lemma table_sources_see:
  assumes "\<forall>fm \<in> set fms. fm_ok fm"
  shows "\<exists>ss. table_sources (\<lambda>_. healthy) fms = Inr ss \<and> list_all2 source_sees ss (map fm_entries fms)"
  using assms
proof (induction fms)
  case (Cons fm fms)
  then obtain ss where ss: "table_sources (\<lambda>_. healthy) fms = Inr ss" "list_all2 source_sees ss (map fm_entries fms)" by auto
  obtain bs where bs: "table_of (fm_table fm) bs" "ent_sorted (concat bs)" "no_straddle bs" "fm_entries fm = map stored (concat bs)"
    using Cons.prems by (auto elim: fm_okE)
  from sst_source_sees [OF bs(1)] obtain s where "sst_source healthy (fm_table fm) = Inr s" "source_sees s (fm_entries fm)"
    by (auto simp: bs(4))
  with ss show ?case by simp
qed simp

text \<open>The merge of the whole: it ends, and is the loop over the sorted versions.\<close>

definition job_versions :: "compaction_job \<Rightarrow> entry list" where
  "job_versions job = merged (concat (map fm_entries (job_inputs job)))"

lemma merge_inputs_list:
  assumes "top_ok merge_source_ops pick" "\<forall>fm \<in> set (job_inputs job). fm_ok fm"
    and "unique_versions (set (concat (map fm_entries (job_inputs job))))"
  shows "merge_inputs pick (\<lambda>_. healthy) ios num limit job old dk = Some (merge_list ios num limit job old (job_versions job) (merge_start dk))"
proof -
  let ?ess = "map fm_entries (job_inputs job)"
  obtain ss where ss: "table_sources (\<lambda>_. healthy) (job_inputs job) = Inr ss" "list_all2 source_sees ss ?ess"
    using table_sources_see [OF assms(2)] by blast
  have sorted: "\<forall>es \<in> set ?ess. ent_sorted es" using assms(2) fm_ok_sorted by simp
  from sources.merge_run_spec [OF assms(1) ss(2) sorted, of True UINT64_MAX] obtain L where
    L: "ent_sorted L" "mset L = mset (concat ?ess)" "merge_run merge_source_ops pick ss True UINT64_MAX True = Some (Inr L)" by blast
  have "L = job_versions job" unfolding job_versions_def
    using L(1,2) merged_spec [of "concat ?ess"] assms(3) mset_eq_setD [OF L(2)] by (intro sorted_versions_unique) simp_all
  with L(3) obtain mi where "merge_new merge_source_ops pick ss True UINT64_MAX True = Some (Inr mi)"
      "merge_entries merge_source_ops pick mi = Some (Inr (job_versions job))"
    by (auto simp: merge_run_def split: bind_splits sum.splits)
  with ss(1) show ?thesis by (simp add: merge_inputs_def merge_loop_entries)
qed

section \<open>The output files\<close>

text \<open>How the kept versions are cut into files.\<close>

fun split_outputs :: "nat \<Rightarrow> entry list \<Rightarrow> nat \<Rightarrow> entry list \<Rightarrow> entry list list" where
  "split_outputs limit cur n [] = (if cur = [] then [] else [cur])"
| "split_outputs limit cur n (e # es) =
     (let n' = n + (17 + length (ekey e) + length (evalue e)) in
      if n' \<ge> limit then (cur @ [e]) # split_outputs limit [] 0 es else split_outputs limit (cur @ [e]) n' es)"

lemma concat_split_outputs: "concat (split_outputs limit cur n es) = cur @ es"
  by (induction limit cur n es rule: split_outputs.induct) (auto simp: Let_def)

lemma split_outputs_nonempty: "[] \<notin> set (split_outputs limit cur n es)"
  by (induction limit cur n es rule: split_outputs.induct) (auto simp: Let_def)

text \<open>A file made of a list of versions, and the outputs made of the pieces, with numbers as allotted.\<close>

definition made :: "(int \<Rightarrow> table_io) \<Rightarrow> nat \<Rightarrow> int \<Rightarrow> entry list \<Rightarrow> file_meta \<Rightarrow> bool" where
  "made ios lv n es fm \<longleftrightarrow> (\<exists>w w' t dk dk'. add_all es (writer_new (tio_writes (ios n))) = Inr w \<and>
     install_table (ios n) n w dk = (Inr (w', t), dk') \<and>
     fm = \<lparr>fm_number = n, fm_level = int lv, fm_smallest = sst_writer.smallest_key w', fm_largest = sst_writer.largest_key w', fm_table = t\<rparr>)"

fun made_all :: "(int \<Rightarrow> table_io) \<Rightarrow> (nat \<Rightarrow> int) \<Rightarrow> nat \<Rightarrow> nat \<Rightarrow> entry list list \<Rightarrow> file_meta list \<Rightarrow> bool" where
  "made_all ios num lv i [] fms \<longleftrightarrow> fms = []"
| "made_all ios num lv i (ch # chs) fms \<longleftrightarrow>
     (\<exists>fm fms'. fms = fm # fms' \<and> made ios lv (num i) ch fm \<and> made_all ios num lv (Suc i) chs fms')"

text \<open>The same with the files that appear in the directory.\<close>

definition made_file :: "(int \<Rightarrow> table_io) \<Rightarrow> nat \<Rightarrow> int \<Rightarrow> entry list \<Rightarrow> file_meta \<Rightarrow> afile \<Rightarrow> bool" where
  "made_file ios lv n es fm f \<longleftrightarrow> (\<exists>w w' t dk. add_all es (writer_new (tio_writes (ios n))) = Inr w \<and>
     install_table (ios n) n w dk = (Inr (w', t), dk(n \<mapsto> f)) \<and>
     fm = \<lparr>fm_number = n, fm_level = int lv, fm_smallest = sst_writer.smallest_key w', fm_largest = sst_writer.largest_key w', fm_table = t\<rparr>)"

fun made_files :: "(int \<Rightarrow> table_io) \<Rightarrow> (nat \<Rightarrow> int) \<Rightarrow> nat \<Rightarrow> nat \<Rightarrow> entry list list \<Rightarrow> file_meta list \<Rightarrow> (int \<rightharpoonup> afile) \<Rightarrow> (int \<rightharpoonup> afile) \<Rightarrow> bool" where
  "made_files ios num lv i [] fms dk dk' \<longleftrightarrow> fms = [] \<and> dk' = dk"
| "made_files ios num lv i (ch # chs) fms dk dk' \<longleftrightarrow>
     (\<exists>fm fms' f. fms = fm # fms' \<and> made_file ios lv (num i) ch fm f \<and> made_files ios num lv (Suc i) chs fms' (dk(num i \<mapsto> f)) dk')"

lemma made_files_all: "made_files ios num lv i chs fms dk dk' \<Longrightarrow> made_all ios num lv i chs fms"
  by (induction chs arbitrary: i fms dk) (fastforce simp: made_def made_file_def)+

text \<open>The writer that is open holds \<open>cur\<close>.\<close>

definition writing :: "(int \<Rightarrow> table_io) \<Rightarrow> (nat \<Rightarrow> int) \<Rightarrow> entry list \<Rightarrow> nat \<Rightarrow> nat \<Rightarrow> merge_state \<Rightarrow> bool" where
  "writing ios num cur n i st \<longleftrightarrow>
     (case ms_writer st of
        None \<Rightarrow> cur = [] \<and> n = 0 \<and> ms_started st = i
      | Some (m, w) \<Rightarrow> cur \<noteq> [] \<and> n = cur_bytes st \<and> ms_started st = Suc i \<and> m = num i \<and>
          add_all cur (writer_new (tio_writes (ios m))) = Inr w)"

lemma add_all_snoc:
  "add_all (es @ [e]) w = (case add_all es w of Inl x \<Rightarrow> Inl x | Inr w' \<Rightarrow> sst_add (ekey e) (evalue e) (etomb e) (eseq e) w')"
  by (induction es arbitrary: w) (auto split: sum.splits)

lemma finish_writer_made:
  assumes "writing ios num cur n i st" "cur \<noteq> []" "finish_writer ios lv st = Inr st'"
  obtains fm f where "made_file ios lv (num i) cur fm f" "outputs st' = outputs st @ [fm]" "writing ios num [] 0 (Suc i) st'" "ms_keep st' = ms_keep st"
    "ms_disk st' = (ms_disk st)(num i \<mapsto> f)"
proof -
  obtain w where w: "ms_writer st = Some (num i, w)" "ms_started st = Suc i" "add_all cur (writer_new (tio_writes (ios (num i)))) = Inr w"
    using assms(1,2) by (auto simp: writing_def split: option.splits)
  obtain w' t dk where it: "install_table (ios (num i)) (num i) w (ms_disk st) = (Inr (w', t), dk)"
    using assms(3) w(1) by (auto simp: finish_writer_def split: sum.splits prod.splits)
  let ?fm = "\<lparr>fm_number = num i, fm_level = int lv, fm_smallest = sst_writer.smallest_key w', fm_largest = sst_writer.largest_key w', fm_table = t\<rparr>"
  obtain f where dk: "dk = (ms_disk st)(num i \<mapsto> f)" using it by (auto simp: install_table_def Let_def split: sum.splits if_splits)
  have "made_file ios lv (num i) cur ?fm f" unfolding made_file_def using w(3) it dk by blast
  moreover have "outputs st' = outputs st @ [?fm]" "writing ios num [] 0 (Suc i) st'" "ms_keep st' = ms_keep st" "ms_disk st' = (ms_disk st)(num i \<mapsto> f)"
    using assms(3) w it dk by (auto simp: finish_writer_def writing_def)
  ultimately show ?thesis by (rule that)
qed

text \<open>One entry: the writer to which it is added.\<close>

lemma merge_entry_writer:
  assumes "writing ios num cur n i st" "keep_entry old (is_bottommost job) (ms_keep st) e = (True, ks)"
  obtains w st1 where "merge_entry ios num limit job old e st =
      (case sst_add (ekey e) (evalue e) (etomb e) (eseq e) w of
         Inl x \<Rightarrow> Inl (TableError x)
       | Inr w' \<Rightarrow>
           let st2 = st1\<lparr>ms_writer := Some (num i, w')\<rparr> in
           if n + (17 + length (ekey e) + length (evalue e)) \<ge> limit then finish_writer ios (output_level job) st2 else Inr st2)"
    "add_all cur (writer_new (tio_writes (ios (num i)))) = Inr w"
    "\<And>w'. sst_add (ekey e) (evalue e) (etomb e) (eseq e) w = Inr w' \<Longrightarrow>
       writing ios num (cur @ [e]) (n + (17 + length (ekey e) + length (evalue e))) i (st1\<lparr>ms_writer := Some (num i, w')\<rparr>)"
    "outputs st1 = outputs st" "ms_keep st1 = ks" "ms_disk st1 = ms_disk st"
proof -
  let ?b = "17 + length (ekey e) + length (evalue e)"
  show thesis
  proof (cases "ms_writer st")
    case None
    then have st: "cur = []" "n = 0" "ms_started st = i" using assms(1) by (auto simp: writing_def)
    show thesis
      by (rule that [of "st\<lparr>ms_keep := ks, cur_bytes := ?b, ms_started := Suc i\<rparr>" "writer_new (tio_writes (ios (num i)))"])
        (use None st assms(2) in \<open>((cases st; simp add: merge_entry_def start_writer_def writing_def Let_def split: sum.splits)+)\<close>)
  next
    case (Some mw)
    then obtain w where st: "mw = (num i, w)" "cur \<noteq> []" "n = cur_bytes st" "ms_started st = Suc i"
        "add_all cur (writer_new (tio_writes (ios (num i)))) = Inr w" using assms(1) by (auto simp: writing_def)
    show thesis
      by (rule that [of "st\<lparr>ms_keep := ks, cur_bytes := cur_bytes st + ?b\<rparr>" w])
        (use Some st assms(2) in \<open>((cases st; simp add: merge_entry_def writing_def Let_def add_all_snoc split: sum.splits)+)\<close>)
  qed
qed

lemma merge_list_files:
  assumes "writing ios num cur n i st" "merge_list ios num limit job old es st = Inr st'"
  shows "\<exists>outs. outputs st' = outputs st @ outs \<and> ms_started st' = i + length outs \<and>
    made_files ios num (output_level job) i (split_outputs limit cur n (keep_list old (is_bottommost job) (ms_keep st) es)) outs (ms_disk st) (ms_disk st')"
  using assms
proof (induction es arbitrary: cur n i st)
  case Nil
  show ?case
  proof (cases "cur = []")
    case True
    then have "st' = st" "ms_started st = i" using Nil by (auto simp: writing_def finish_writer_def split: option.splits)
    with True show ?thesis by simp
  next
    case False
    then obtain fm f where "made_file ios (output_level job) (num i) cur fm f" "outputs st' = outputs st @ [fm]" "writing ios num [] 0 (Suc i) st'" "ms_disk st' = (ms_disk st)(num i \<mapsto> f)"
      using Nil(2) by (auto elim: finish_writer_made [OF Nil(1) False])
    with False show ?thesis by (auto simp: writing_def split: option.splits simp del: fun_upd_apply)
  qed
next
  case (Cons e es)
  obtain st1 where st1: "merge_entry ios num limit job old e st = Inr st1" "merge_list ios num limit job old es st1 = Inr st'"
    using Cons.prems(2) by (auto split: sum.splits)
  obtain keep ks where ks: "keep_entry old (is_bottommost job) (ms_keep st) e = (keep, ks)" by (rule prod.exhaust)
  let ?n = "n + (17 + length (ekey e) + length (evalue e))"
  show ?case
  proof (cases keep)
    case False
    then have "st1 = st\<lparr>ms_keep := ks\<rparr>" using st1(1) ks by (simp add: merge_entry_def)
    then have "writing ios num cur n i st1" "ms_keep st1 = ks" "outputs st1 = outputs st" "ms_disk st1 = ms_disk st" using Cons.prems(1) by (auto simp: writing_def split: option.splits)
    with Cons.IH [OF this(1) st1(2)] ks False show ?thesis by simp
  next
    case True
    obtain w st2 where me: "merge_entry ios num limit job old e st =
        (case sst_add (ekey e) (evalue e) (etomb e) (eseq e) w of
           Inl x \<Rightarrow> Inl (TableError x)
         | Inr w' \<Rightarrow> let st3 = st2\<lparr>ms_writer := Some (num i, w')\<rparr> in
             if ?n \<ge> limit then finish_writer ios (output_level job) st3 else Inr st3)"
      and wr: "\<And>w'. sst_add (ekey e) (evalue e) (etomb e) (eseq e) w = Inr w' \<Longrightarrow> writing ios num (cur @ [e]) ?n i (st2\<lparr>ms_writer := Some (num i, w')\<rparr>)"
      and st2: "outputs st2 = outputs st" "ms_keep st2 = ks" "ms_disk st2 = ms_disk st"
      by (rule merge_entry_writer [OF Cons.prems(1) ks [unfolded eqTrueI [OF True]]]) blast
    obtain w' where w': "sst_add (ekey e) (evalue e) (etomb e) (eseq e) w = Inr w'" using me st1(1) by (auto split: sum.splits)
    show ?thesis
    proof (cases "?n \<ge> limit")
      case False
      then have "st1 = st2\<lparr>ms_writer := Some (num i, w')\<rparr>" using me st1(1) w' by simp
      with Cons.IH [OF wr [OF w']] st1(2) ks True False st2 show ?thesis by simp
    next
      case ge: True
      then have "finish_writer ios (output_level job) (st2\<lparr>ms_writer := Some (num i, w')\<rparr>) = Inr st1" using me st1(1) w' by simp
      from finish_writer_made [OF wr [OF w'] _ this] obtain fm f where
        fm: "made_file ios (output_level job) (num i) (cur @ [e]) fm f" "outputs st1 = outputs st @ [fm]" "writing ios num [] 0 (Suc i) st1" "ms_keep st1 = ks"
        "ms_disk st1 = (ms_disk st)(num i \<mapsto> f)"
        using st2 by auto
      from Cons.IH [OF fm(3) st1(2)] obtain outs where "outputs st' = outputs st1 @ outs" "ms_started st' = Suc i + length outs"
          "made_files ios num (output_level job) (Suc i) (split_outputs limit [] 0 (keep_list old (is_bottommost job) ks es)) outs (ms_disk st1) (ms_disk st')"
        using fm(4) by auto
      then show ?thesis using ks True ge fm(1,2,5) by (intro exI [of _ "fm # outs"]) (auto simp del: fun_upd_apply)
    qed
  qed
qed

lemma merge_list_made:
  assumes "writing ios num cur n i st" "merge_list ios num limit job old es st = Inr st'"
  shows "\<exists>outs. outputs st' = outputs st @ outs \<and> ms_started st' = i + length outs \<and>
    made_all ios num (output_level job) i (split_outputs limit cur n (keep_list old (is_bottommost job) (ms_keep st) es)) outs"
  using merge_list_files [OF assms] made_files_all by blast

text \<open>If no system call fails, the merge succeeds.\<close>

definition table_healthy :: "table_io \<Rightarrow> bool" where
  "table_healthy io \<longleftrightarrow> EFail \<notin> set (tio_writes io) \<and> tio_rename io \<and> opens io"

lemma finish_writer_succeeds:
  assumes "writing ios num cur n i st" "\<forall>m. table_healthy (ios m)" "cur = [] \<or> table_fit cur"
  shows "\<exists>st'. finish_writer ios lv st = Inr st'"
proof (cases "cur = []")
  case True
  then show ?thesis using assms(1) by (auto simp: writing_def finish_writer_def split: option.splits)
next
  case False
  then obtain w where w: "ms_writer st = Some (num i, w)" "add_all cur (writer_new (tio_writes (ios (num i)))) = Inr w"
    using assms(1) by (auto simp: writing_def split: option.splits)
  have io: "EFail \<notin> set (tio_writes (ios (num i)))" "tio_rename (ios (num i))" "opens (ios (num i))"
    using assms(2) by (auto simp: table_healthy_def)
  from install_table_succeeds [OF io False, of "num i" "ms_disk st"] False assms(3) w show ?thesis by (auto simp: finish_writer_def)
qed

lemma merge_list_succeeds:
  assumes "writing ios num cur n i st" "\<forall>m. table_healthy (ios m)"
    and "\<forall>ch \<in> set (split_outputs limit cur n (keep_list old (is_bottommost job) (ms_keep st) es)). table_fit ch"
  shows "\<exists>st'. merge_list ios num limit job old es st = Inr st'"
  using assms
proof (induction es arbitrary: cur n i st)
  case Nil
  then show ?case using finish_writer_succeeds [OF Nil(1,2)] by (auto split: if_splits)
next
  case (Cons e es)
  obtain keep ks where ks: "keep_entry old (is_bottommost job) (ms_keep st) e = (keep, ks)" by (rule prod.exhaust)
  let ?n = "n + (17 + length (ekey e) + length (evalue e))"
  show ?case
  proof (cases keep)
    case False
    have "writing ios num cur n i (st\<lparr>ms_keep := ks\<rparr>)" using Cons.prems(1) by (auto simp: writing_def split: option.splits)
    from Cons.IH [OF this Cons.prems(2)] Cons.prems(3) ks False show ?thesis by (simp add: merge_entry_def)
  next
    case True
    obtain w st2 where me: "merge_entry ios num limit job old e st =
        (case sst_add (ekey e) (evalue e) (etomb e) (eseq e) w of
           Inl x \<Rightarrow> Inl (TableError x)
         | Inr w' \<Rightarrow> let st3 = st2\<lparr>ms_writer := Some (num i, w')\<rparr> in
             if ?n \<ge> limit then finish_writer ios (output_level job) st3 else Inr st3)"
      and w: "add_all cur (writer_new (tio_writes (ios (num i)))) = Inr w"
      and wr: "\<And>w'. sst_add (ekey e) (evalue e) (etomb e) (eseq e) w = Inr w' \<Longrightarrow> writing ios num (cur @ [e]) ?n i (st2\<lparr>ms_writer := Some (num i, w')\<rparr>)"
      and st2: "ms_keep st2 = ks"
      by (rule merge_entry_writer [OF Cons.prems(1) ks [unfolded eqTrueI [OF True]]]) blast
    have "EFail \<notin> set (fst (wfd (writer_new (tio_writes (ios (num i))))))" using Cons.prems(2) by (simp add: writer_new_def table_healthy_def)
    from add_all_ok [OF this, of "cur @ [e]"] w obtain w' where w': "sst_add (ekey e) (evalue e) (etomb e) (eseq e) w = Inr w'"
      by (auto simp: add_all_snoc)
    let ?st3 = "st2\<lparr>ms_writer := Some (num i, w')\<rparr>"
    show ?thesis
    proof (cases "?n \<ge> limit")
      case False
      from Cons.IH [OF wr [OF w'] Cons.prems(2)] Cons.prems(3) ks True False st2 w' me show ?thesis by simp
    next
      case ge: True
      have "table_fit (cur @ [e])" using Cons.prems(3) ks True ge by simp
      with finish_writer_succeeds [OF wr [OF w'] Cons.prems(2)] obtain st4 where st4: "finish_writer ios (output_level job) ?st3 = Inr st4" by blast
      have "writing ios num [] 0 (Suc i) st4" "ms_keep st4 = ks" by (rule finish_writer_made [OF wr [OF w'] _ st4]; simp add: st2)+
      from Cons.IH [OF this(1) Cons.prems(2)] this(2) Cons.prems(3) ks True ge w' me st4 show ?thesis by simp
    qed
  qed
qed

section \<open>What the outputs hold\<close>

lemma made_ok:
  assumes "made ios lv n es fm" "opens (ios n)" "es \<noteq> []" "table_fit es" "ent_sorted es" "\<forall>e \<in> set es. stored e = e"
  shows "fm_ok fm" "fm_entries fm = es" "fm_number fm = n" "fm_smallest fm = ekey (hd es)" "fm_largest fm = ekey (last es)"
    "\<exists>f. \<forall>i < length (tindex (fm_table fm)). block_loader None (fm_table fm) i = Inr (f (ioffset (tindex (fm_table fm) ! i)))"
proof -
  obtain w w' t dk dk' where m: "add_all es (writer_new (tio_writes (ios n))) = Inr w" "install_table (ios n) n w dk = (Inr (w', t), dk')"
      "fm = \<lparr>fm_number = n, fm_level = int lv, fm_smallest = sst_writer.smallest_key w', fm_largest = sst_writer.largest_key w', fm_table = t\<rparr>"
    using assms(1) by (auto simp: made_def)
  have o: "tio_open1 (ios n) = None" "tio_open2 (ios n) = None" "tio_open3 (ios n) = None" using assms(2) by (auto simp: opens_def)
  note f = installed_file [OF m(1,2) o assms(3-5) m(3)]
  show "fm_ok fm" "fm_smallest fm = ekey (hd es)" "fm_largest fm = ekey (last es)" by (rule f)+
  show "fm_entries fm = es" using f(2) assms(6) by (simp add: map_idI)
  show "fm_number fm = n" by (simp add: m(3))
  show "\<exists>f. \<forall>i < length (tindex (fm_table fm)). block_loader None (fm_table fm) i = Inr (f (ioffset (tindex (fm_table fm) ! i)))"
    using table_source [OF assms(3) _ _ f(8)] assms(4) by (simp add: table_fit_def m(3))
qed

text \<open>The pieces fit into files, and no key is in two of them.\<close>

definition pieces_fit :: "entry list list \<Rightarrow> bool" where
  "pieces_fit chs \<longleftrightarrow> (\<forall>ch \<in> set chs. table_fit ch) \<and> sorted_wrt (\<lambda>a b. ekey (last a) < ekey (hd b)) chs"

lemma made_all_ok:
  assumes "made_all ios num lv i chs fms" "\<forall>m. opens (ios m)" "pieces_fit chs" "[] \<notin> set chs" "ent_sorted (concat chs)"
    and "\<forall>e \<in> set (concat chs). stored e = e"
  shows "map fm_entries fms = chs \<and> map fm_number fms = map num [i..<i + length chs] \<and> disjoint_files fms \<and>
    (\<forall>fm \<in> set fms. fm_ok fm \<and> (\<exists>f. \<forall>i < length (tindex (fm_table fm)). block_loader None (fm_table fm) i = Inr (f (ioffset (tindex (fm_table fm) ! i))))) \<and>
    map fm_smallest fms = map (\<lambda>ch. ekey (hd ch)) chs \<and> map fm_largest fms = map (\<lambda>ch. ekey (last ch)) chs"
  using assms
proof (induction chs arbitrary: i fms)
  case Nil
  then show ?case by (simp add: disjoint_files_def)
next
  case (Cons ch chs)
  obtain fm fms' where fms: "fms = fm # fms'" "made ios lv (num i) ch fm" "made_all ios num lv (Suc i) chs fms'" using Cons.prems(1) by auto
  have ch: "ch \<noteq> []" "table_fit ch" "ent_sorted ch" "\<forall>e \<in> set ch. stored e = e" "opens (ios (num i))"
    using Cons.prems by (auto simp: pieces_fit_def sorted_wrt_append)
  note m = made_ok [OF fms(2) ch(5,1-4)]
  have "pieces_fit chs" "ent_sorted (concat chs)" using Cons.prems by (auto simp: pieces_fit_def sorted_wrt_append)
  with Cons.IH [OF fms(3) Cons.prems(2)] Cons.prems(4,6) have IH: "map fm_entries fms' = chs" "map fm_number fms' = map num [Suc i..<Suc i + length chs]"
      "disjoint_files fms'" "\<forall>fm \<in> set fms'. fm_ok fm \<and> (\<exists>f. \<forall>i < length (tindex (fm_table fm)). block_loader None (fm_table fm) i = Inr (f (ioffset (tindex (fm_table fm) ! i))))"
      "map fm_smallest fms' = map (\<lambda>ch. ekey (hd ch)) chs" "map fm_largest fms' = map (\<lambda>ch. ekey (last ch)) chs" by auto
  have "fm_largest fm < fm_smallest g" if "g \<in> set fms'" for g
  proof -
    have "fm_smallest g \<in> set (map fm_smallest fms')" using that by simp
    then show ?thesis unfolding IH(5) m(5) using Cons.prems(3) by (auto simp: pieces_fit_def)
  qed
  then have "disjoint_files fms" using IH(3) by (simp add: disjoint_files_def fms(1))
  moreover have "[i..<i + length (ch # chs)] = i # [Suc i..<Suc i + length chs]" by (simp add: upt_conv_Cons del: upt_Suc)
  ultimately show ?case using m IH by (auto simp: fms(1) simp del: upt_Suc)
qed

end
