(* ===== verification/Compact_Pick.thy ===== *)
theory Compact_Pick
  imports Compact_Runs Db_Flush
begin

text \<open>
  What the inputs of a compaction have to be so that the runs that remain and the merged inputs are
  \<open>replaceable\<close>, and that \<open>pick_compaction\<close> chooses such inputs, also when further files reach level 0 before the commit.
\<close>

section \<open>Parts of runs\<close>

lemma same_file:
  assumes "disjoint_files fms" "\<forall>fm \<in> set fms. fm_ok fm" "f \<in> set fms" "g \<in> set fms"
    and "x \<in> set (fm_entries f)" "y \<in> set (fm_entries g)" "ekey x = ekey y"
  shows "f = g"
proof -
  obtain i j where ij: "i < length fms" "fms ! i = f" "j < length fms" "fms ! j = g" using assms(3,4) by (auto simp: in_set_conv_nth)
  have r: "fm_smallest f \<le> ekey x" "ekey x \<le> fm_largest f" "fm_smallest g \<le> ekey x" "ekey x \<le> fm_largest g"
    using fm_ok_range assms(2-7) by metis+
  have "fm_largest (fms ! a) < fm_smallest (fms ! b)" if "a < b" "b < length fms" for a b
    using assms(1) that by (auto simp: disjoint_files_def sorted_wrt_iff_nth_less)
  then have "\<not> i < j" "\<not> j < i" using r ij by (metis leD order.trans)+
  then show ?thesis using ij by simp
qed

text \<open>\<open>part P fms\<close>: the versions in those of the files that satisfy \<open>P\<close>.\<close>

definition part :: "(file_meta \<Rightarrow> bool) \<Rightarrow> file_meta list \<Rightarrow> entry list" where
  "part P fms = concat (map fm_entries (filter P fms))"

lemma part_mem: "x \<in> set (part P fms) \<longleftrightarrow> (\<exists>f \<in> set fms. P f \<and> x \<in> set (fm_entries f))"
  by (auto simp: part_def)

lemma part_level: "part (\<lambda>_. True) (files ver l) = level_entries ver l"
  by (simp add: part_def level_entries_def)

lemma part_closed:
  assumes "disjoint_files fms" "\<forall>fm \<in> set fms. fm_ok fm" "x \<in> set (part P fms)" "y \<in> set (part Q fms)" "ekey x = ekey y"
  shows "y \<in> set (part P fms)"
  using same_file [OF assms(1,2)] assms(3-5) unfolding part_mem by blast

lemma recent_sub:
  assumes "recent xs ys" "set xs' \<subseteq> set xs" "set ys' \<subseteq> set ys"
    and "\<And>x y. x \<in> set xs' \<Longrightarrow> y \<in> set xs \<Longrightarrow> ekey x = ekey y \<Longrightarrow> y \<in> set xs'"
  shows "recent xs' ys'"
  unfolding recent_def
proof (intro ballI impI)
  fix x y assume xy: "x \<in> set xs'" "y \<in> set ys'" "ekey x = ekey y"
  then have "eseq y \<le> eseq x \<or> y \<in> set xs" using assms(1-3) unfolding recent_def by blast
  then show "eseq y \<le> eseq x \<or> y \<in> set xs'" using assms(4) xy by blast
qed

lemma recent_pieces:
  "set L = \<Union> (set ` Q) \<Longrightarrow> (\<And>q. q \<in> Q \<Longrightarrow> recent r q) \<Longrightarrow> recent r L"
  "set L = \<Union> (set ` Q) \<Longrightarrow> (\<And>q. q \<in> Q \<Longrightarrow> recent q r) \<Longrightarrow> recent L r"
  unfolding recent_def by auto (metis UN_E UN_I)

lemma recent_no_key: "(\<And>x y. x \<in> set xs \<Longrightarrow> y \<in> set ys \<Longrightarrow> ekey x \<noteq> ekey y) \<Longrightarrow> recent xs ys"
  unfolding recent_def by blast

section \<open>The runs of a version\<close>

lemma sorted_wrt_upt: "sorted_wrt R [a..<b] \<longleftrightarrow> (\<forall>i j. a \<le> i \<and> i < j \<and> j < b \<longrightarrow> R i j)"
proof (induction b)
  case (Suc b)
  then show ?case by (cases "a \<le> b") (auto simp: sorted_wrt_append less_Suc_eq)
qed simp

lemma runs_recent:
  "sorted_wrt recent (m # ver_runs ver) \<longleftrightarrow>
     (\<forall>fm \<in> set (files ver 0). recent m (fm_entries fm)) \<and> (\<forall>l \<in> {1..<kMaxLevels}. recent m (level_entries ver l)) \<and>
     sorted_wrt (\<lambda>f g. recent (fm_entries g) (fm_entries f)) (files ver 0) \<and>
     (\<forall>l l'. 1 \<le> l \<and> l < l' \<and> l' < kMaxLevels \<longrightarrow> recent (level_entries ver l) (level_entries ver l')) \<and>
     (\<forall>fm \<in> set (files ver 0). \<forall>l \<in> {1..<kMaxLevels}. recent (fm_entries fm) (level_entries ver l))"
  by (simp add: ver_runs_def sorted_wrt_append sorted_wrt_map sorted_wrt_rev sorted_wrt_upt ball_Un)

text \<open>
  The shape of a job: the inputs of level 0 are the oldest files there; above the output, only the
  level just before it (or, for output level 1, level 0) has inputs; the other files of the output level are
  below or above all inputs; and of the levels below, either all files are inputs or none.
\<close>

definition job_shape :: "version \<Rightarrow> compaction_job \<Rightarrow> bool" where
  "job_shape ver job \<longleftrightarrow> set (job_inputs job) \<subseteq> set (ver_files ver) \<and> 1 \<le> output_level job \<and> output_level job < kMaxLevels \<and>
     (\<exists>olds extra. files ver 0 = olds @ extra \<and> set olds \<subseteq> set (job_inputs job) \<and> set extra \<inter> set (job_inputs job) = {} \<and>
        (1 < output_level job \<longrightarrow> olds = [])) \<and>
     (\<forall>l \<ge> 1. l + 1 < output_level job \<longrightarrow> set (files ver l) \<inter> set (job_inputs job) = {}) \<and>
     (\<forall>f \<in> set (files ver (output_level job)) - set (job_inputs job).
        (\<forall>g \<in> set (job_inputs job). fm_largest f < fm_smallest g) \<or> (\<forall>g \<in> set (job_inputs job). fm_largest g < fm_smallest f)) \<and>
     ((\<forall>l \<in> {output_level job<..<kMaxLevels}. set (files ver l) \<subseteq> set (job_inputs job)) \<or>
      \<not> is_bottommost job \<and> (\<forall>l \<in> {output_level job<..<kMaxLevels}. set (files ver l) \<inter> set (job_inputs job) = {}))"

text \<open>The version without the inputs.\<close>

definition without :: "compaction_job \<Rightarrow> version \<Rightarrow> version" where
  "without job ver = \<lparr>files = \<lambda>l. filter (\<lambda>fm. fm \<notin> set (job_inputs job)) (files ver l)\<rparr>"

lemma level_entries_without: "level_entries (without job ver) l = part (\<lambda>fm. fm \<notin> set (job_inputs job)) (files ver l)"
  by (simp add: level_entries_def without_def part_def)

text \<open>Levels with some of their files.\<close>

lemma level_parts:
  assumes "version_ok ver" "sorted_wrt recent (m # ver_runs ver)" "l \<in> {1..<kMaxLevels}" "l' \<in> {1..<kMaxLevels}"
  shows "l < l' \<Longrightarrow> recent (part P (files ver l)) (part Q (files ver l'))"
    and "recent (part P (files ver l)) (part (\<lambda>fm. \<not> P fm) (files ver l))"
    and "recent (part (\<lambda>fm. \<not> P fm) (files ver l)) (part P (files ver l))"
    and "fm \<in> set (files ver 0) \<Longrightarrow> recent (fm_entries fm) (part P (files ver l))"
    and "recent m (part P (files ver l))"
proof -
  have dis: "disjoint_files (files ver l)" "\<forall>fm \<in> set (files ver l). fm_ok fm" using version_ok_level [OF assms(1), of l] assms(3) by auto
  have sub: "set (part P (files ver l)) \<subseteq> set (level_entries ver l)" for P l by (auto simp: part_def level_entries_def)
  have r: "recent m (level_entries ver l)" "fm \<in> set (files ver 0) \<Longrightarrow> recent (fm_entries fm) (level_entries ver l)"
      "l < l' \<Longrightarrow> recent (level_entries ver l) (level_entries ver l')"
    using assms(2-4) unfolding runs_recent by auto
  show "recent m (part P (files ver l))" using r(1) by (rule recent_sub) (auto simp: sub)
  show "recent (fm_entries fm) (part P (files ver l))" if "fm \<in> set (files ver 0)" using r(2) [OF that] by (rule recent_sub) (auto simp: sub)
  show "recent (part P (files ver l)) (part Q (files ver l'))" if "l < l'"
    using r(3) [OF that] sub sub by (rule recent_sub) (use part_closed [OF dis] part_level in metis)
  have "ekey x \<noteq> ekey y" if "x \<in> set (part P (files ver l))" "y \<in> set (part (\<lambda>fm. \<not> P fm) (files ver l))" for x y
    using same_file [OF dis] that unfolding part_mem by blast
  then show "recent (part P (files ver l)) (part (\<lambda>fm. \<not> P fm) (files ver l))"
    "recent (part (\<lambda>fm. \<not> P fm) (files ver l)) (part P (files ver l))" by (intro recent_no_key; metis)+
qed

lemma without_recent:
  assumes "version_ok ver" "sorted_wrt recent (m # ver_runs ver)"
  shows "sorted_wrt recent (m # ver_runs (without job ver))"
proof -
  let ?K = "\<lambda>fm. fm \<notin> set (job_inputs job)"
  note p = level_parts [OF assms, where P = ?K]
  have r: "\<forall>fm \<in> set (files ver 0). recent m (fm_entries fm)" "sorted_wrt (\<lambda>f g. recent (fm_entries g) (fm_entries f)) (files ver 0)"
    using assms(2) unfolding runs_recent by auto
  have "recent (level_entries (without job ver) l) (level_entries (without job ver) l')" if "1 \<le> l \<and> l < l' \<and> l' < kMaxLevels" for l l'
    using p(1) [of l l'] that unfolding level_entries_without by simp
  moreover have "recent m (level_entries (without job ver) l)" "fm \<in> set (files ver 0) \<Longrightarrow> recent (fm_entries fm) (level_entries (without job ver) l)"
    if "l \<in> {1..<kMaxLevels}" for l fm
    using p(4,5) [OF that that] unfolding level_entries_without by auto
  moreover have "files (without job ver) 0 = filter ?K (files ver 0)" by (simp add: without_def)
  ultimately show ?thesis using r(1) sorted_wrt_filter [OF r(2), of ?K] unfolding runs_recent by simp
qed

text \<open>The merged inputs may take the place of the inputs.\<close>

definition runs_before :: "entry list \<Rightarrow> version \<Rightarrow> nat \<Rightarrow> entry list list" where
  "runs_before m ver l = m # map fm_entries (rev (files ver 0)) @ map (level_entries ver) [1..<l]"

definition runs_behind :: "version \<Rightarrow> nat \<Rightarrow> entry list list" where
  "runs_behind ver l = map (level_entries ver) [Suc l..<kMaxLevels]"

lemma runs_split: "1 \<le> l \<Longrightarrow> l < kMaxLevels \<Longrightarrow> m # ver_runs ver = runs_before m ver l @ level_entries ver l # runs_behind ver l"
proof -
  assume l: "1 \<le> l" "l < kMaxLevels"
  then have "[1..<kMaxLevels] = [1..<l] @ l # [Suc l..<kMaxLevels]"
    by (metis less_imp_le_nat upt_add_eq_append le_add_diff_inverse upt_conv_Cons)
  then show ?thesis by (simp add: ver_runs_def runs_before_def runs_behind_def)
qed

text \<open>The inputs by their runs.\<close>

definition input_runs :: "compaction_job \<Rightarrow> version \<Rightarrow> entry list set" where
  "input_runs job ver = fm_entries ` (set (files ver 0) \<inter> set (job_inputs job)) \<union>
     (\<lambda>l. part (\<lambda>fm. \<not> fm \<notin> set (job_inputs job)) (files ver l)) ` {1..<kMaxLevels}"

lemma input_runs_all:
  assumes "set (job_inputs job) \<subseteq> set (ver_files ver)"
  shows "set (concat (map fm_entries (job_inputs job))) = \<Union> (set ` input_runs job ver)"
proof (intro equalityI subsetI)
  fix x assume "x \<in> set (concat (map fm_entries (job_inputs job)))"
  then obtain f where f: "f \<in> set (job_inputs job)" "x \<in> set (fm_entries f)" by auto
  then obtain l where l: "l < kMaxLevels" "f \<in> set (files ver l)" using assms in_ver_files [of f ver] by blast
  show "x \<in> \<Union> (set ` input_runs job ver)"
  proof (cases "l = 0")
    case True
    then show ?thesis using f l by (auto simp: input_runs_def)
  next
    case False
    then have "x \<in> set (part (\<lambda>fm. \<not> fm \<notin> set (job_inputs job)) (files ver l))" "l \<in> {1..<kMaxLevels}" using f l by (auto simp: part_mem)
    then show ?thesis unfolding input_runs_def by blast
  qed
qed (auto simp: input_runs_def part_mem)

lemma job_shapeE:
  assumes "job_shape ver job"
  obtains olds extra where "set (job_inputs job) \<subseteq> set (ver_files ver)" "1 \<le> output_level job" "output_level job < kMaxLevels"
    "files ver 0 = olds @ extra" "set olds \<subseteq> set (job_inputs job)" "set extra \<inter> set (job_inputs job) = {}" "1 < output_level job \<Longrightarrow> olds = []"
    "\<And>l. 1 \<le> l \<Longrightarrow> l + 1 < output_level job \<Longrightarrow> part (\<lambda>fm. \<not> fm \<notin> set (job_inputs job)) (files ver l) = []"
proof -
  obtain olds extra where l0: "files ver 0 = olds @ extra" "set olds \<subseteq> set (job_inputs job)" "set extra \<inter> set (job_inputs job) = {}"
      "1 < output_level job \<longrightarrow> olds = []" using assms unfolding job_shape_def by blast
  have sh: "set (job_inputs job) \<subseteq> set (ver_files ver)" "1 \<le> output_level job" "output_level job < kMaxLevels"
      "\<And>l. 1 \<le> l \<Longrightarrow> l + 1 < output_level job \<Longrightarrow> set (files ver l) \<inter> set (job_inputs job) = {}" using assms unfolding job_shape_def by blast+
  show thesis by (rule that [OF sh(1-3) l0(1-3)]) (use l0(4) sh(4) in \<open>auto simp: part_def filter_empty_conv\<close>)
qed

lemma input_runs_cases:
  assumes "q \<in> input_runs job ver" "files ver 0 = olds @ extra" "set extra \<inter> set (job_inputs job) = {}"
  obtains g where "q = fm_entries g" "g \<in> set olds"
    | l where "q = part (\<lambda>fm. \<not> fm \<notin> set (job_inputs job)) (files ver l)" "l \<in> {1..<kMaxLevels}"
  using assms unfolding input_runs_def by auto

lemma shape_before:
  assumes "version_ok ver" "sorted_wrt recent (m # ver_runs ver)" "job_shape ver job"
    and L: "set L = set (concat (map fm_entries (job_inputs job)))" and t: "t \<in> set (runs_before m (without job ver) (output_level job))"
  shows "recent t L"
proof -
  let ?in = "set (job_inputs job)" and ?lev = "\<lambda>P l. part P (files ver l)"
  let ?K = "\<lambda>fm. fm \<notin> ?in"
  obtain olds extra where sh: "?in \<subseteq> set (ver_files ver)" "output_level job < kMaxLevels"
      "\<And>l. 1 \<le> l \<Longrightarrow> l + 1 < output_level job \<Longrightarrow> ?lev (\<lambda>fm. \<not> ?K fm) l = []"
    and l0: "files ver 0 = olds @ extra" "set olds \<subseteq> ?in" "set extra \<inter> ?in = {}" "1 < output_level job \<Longrightarrow> olds = []"
    using assms(3) by (rule job_shapeE) blast
  note p = level_parts [OF assms(1,2)]
  have r: "\<And>f. f \<in> set (files ver 0) \<Longrightarrow> recent m (fm_entries f)" "sorted_wrt (\<lambda>f g. recent (fm_entries g) (fm_entries f)) (files ver 0)"
    using assms(2) unfolding runs_recent by auto
  have "recent t q" if q: "q \<in> input_runs job ver" for q
  proof -
    consider "t = m" | f where "t = fm_entries f" "f \<in> set extra" | l where "t = ?lev ?K l" "l \<in> {1..<output_level job}"
      using t l0 by (auto simp: runs_before_def level_entries_without) (auto simp: without_def)
    then show ?thesis
    proof cases
      case 1
      from q l0(1,3) show ?thesis by (cases rule: input_runs_cases) (use 1 r(1) p(5) l0(1) in auto)
    next
      case 2
      have "recent t (fm_entries g)" if "g \<in> set olds" for g using r(2) that 2 by (auto simp: l0(1) sorted_wrt_append)
      with q l0(1,3) show ?thesis by (cases rule: input_runs_cases) (use 2 p(4) l0(1) in auto)
    next
      case 3
      have "recent t (?lev (\<lambda>fm. \<not> ?K fm) l')" if l': "l' \<in> {1..<kMaxLevels}" for l'
        using p(1) [of l l' ?K] p(2) [OF l' l', of ?K] sh(3) [of l'] 3 l' sh(2) by (cases l l' rule: linorder_cases) (auto simp: recent_def)
      with q l0(1,3) show ?thesis by (cases rule: input_runs_cases) (use 3 l0(4) in auto)
    qed
  qed
  then show ?thesis by (rule recent_pieces(1) [OF L [unfolded input_runs_all [OF sh(1)]]])
qed

lemma shape_apart:
  assumes "version_ok ver" "job_shape ver job" "set L = set (concat (map fm_entries (job_inputs job)))"
    and "x \<in> set (level_entries (without job ver) (output_level job))" "y \<in> set L"
  shows "ekey x \<noteq> ekey y"
proof
  let ?o = "output_level job"
  assume eq: "ekey x = ekey y"
  obtain f where f: "f \<in> set (files ver ?o)" "f \<notin> set (job_inputs job)" "x \<in> set (fm_entries f)"
    using assms(4) by (auto simp: level_entries_without part_mem)
  obtain g where g: "g \<in> set (job_inputs job)" "y \<in> set (fm_entries g)" using assms(3,5) by auto
  have sh: "set (job_inputs job) \<subseteq> set (ver_files ver)" "?o < kMaxLevels" "fm_largest f < fm_smallest g \<or> fm_largest g < fm_smallest f"
    using assms(2) f(1,2) g(1) unfolding job_shape_def by blast+
  have "fm_ok f" "fm_ok g" using version_ok_level(1) [OF assms(1) sh(2)] f(1) g(1) sh(1) assms(1) by (auto simp: version_ok_def)
  then have "fm_smallest g \<le> ekey y" "ekey y \<le> fm_largest g" "fm_smallest f \<le> ekey y" "ekey y \<le> fm_largest f"
    using fm_ok_range f(3) g(2) eq by metis+
  then show False using sh(3) by (meson leD order.strict_trans1)
qed

lemma shape_behind:
  assumes "version_ok ver" "sorted_wrt recent (m # ver_runs ver)" "job_shape ver job"
    and L: "set L = set (concat (map fm_entries (job_inputs job)))" and t: "t \<in> set (runs_behind (without job ver) (output_level job))"
  shows "recent L t" "is_bottommost job \<Longrightarrow> t = []"
proof -
  let ?in = "set (job_inputs job)" and ?lev = "\<lambda>P l. part P (files ver l)" and ?o = "output_level job"
  let ?K = "\<lambda>fm. fm \<notin> ?in"
  obtain olds extra where sh: "?in \<subseteq> set (ver_files ver)" "1 \<le> ?o" and l0: "files ver 0 = olds @ extra" "set extra \<inter> ?in = {}"
    using assms(3) by (rule job_shapeE) blast
  have "(\<forall>l \<in> {?o<..<kMaxLevels}. set (files ver l) \<subseteq> ?in) \<or> \<not> is_bottommost job \<and> (\<forall>l \<in> {?o<..<kMaxLevels}. set (files ver l) \<inter> ?in = {})"
    using assms(3) unfolding job_shape_def by blast
  then have either: "(\<forall>l \<in> {?o<..<kMaxLevels}. ?lev ?K l = []) \<or> \<not> is_bottommost job \<and> (\<forall>l \<in> {?o<..<kMaxLevels}. ?lev (\<lambda>fm. \<not> ?K fm) l = [])"
    by (auto simp: part_def filter_empty_conv)
  obtain l where l: "t = ?lev ?K l" "l \<in> {?o<..<kMaxLevels}" using t by (auto simp: runs_behind_def level_entries_without)
  then have l1: "l \<in> {1..<kMaxLevels}" using sh(2) by auto
  note p = level_parts [OF assms(1,2)]
  have "recent (?lev (\<lambda>fm. \<not> ?K fm) l') t" if l': "l' \<in> {1..<kMaxLevels}" for l'
  proof (cases l l' rule: linorder_cases)
    case less
    then have "l' \<in> {?o<..<kMaxLevels}" using l l' by auto
    then have "?lev ?K l = [] \<or> ?lev (\<lambda>fm. \<not> ?K fm) l' = []" using either l(2) by blast
    then show ?thesis by (auto simp: l(1) recent_def)
  qed (use p(1) [OF l' l1] p(3) [OF l1 l1, of ?K] l(1) in simp_all)
  note lv = this
  have "recent q t" if "q \<in> input_runs job ver" for q
    using that l0 by (cases rule: input_runs_cases) (use l(1) p(4) [OF l1 l1] l0(1) lv in auto)
  then show "recent L t" by (rule recent_pieces(2) [OF L [unfolded input_runs_all [OF sh(1)]]])
  show "is_bottommost job \<Longrightarrow> t = []" using either l by blast
qed

lemma shape_replaceable:
  assumes "version_ok ver" "sorted_wrt recent (m # ver_runs ver)" "job_shape ver job"
    and "set L = set (concat (map fm_entries (job_inputs job)))"
  shows "replaceable (runs_before m (without job ver) (output_level job)) (level_entries (without job ver) (output_level job))
    (runs_behind (without job ver) (output_level job)) L (is_bottommost job)"
  unfolding replaceable_def concat_eq_Nil_conv
  using shape_before [OF assms] shape_apart [OF assms(1,3,4)] shape_behind [OF assms] by blast

section \<open>What is picked\<close>

lemma level_unique:
  assumes "version_ok ver" "fm \<in> set (files ver l)" "fm \<in> set (files ver l')" "l < kMaxLevels" "l' < kMaxLevels"
  shows "l = l'"
proof (rule ccontr)
  assume "l \<noteq> l'"
  have "distinct (concat (map (files ver) [0..<kMaxLevels]))" using assms(1) unfolding version_ok_def ver_files_def distinct_map by blast
  moreover have "\<exists>i j. i < j \<and> j < kMaxLevels \<and> fm \<in> set (files ver i) \<and> fm \<in> set (files ver j)"
    using assms(2-5) \<open>l \<noteq> l'\<close> by (metis linorder_neqE_nat)
  then obtain i j where ij: "i < j" "j < kMaxLevels" "fm \<in> set (files ver i)" "fm \<in> set (files ver j)" by blast
  have "[0..<kMaxLevels] = [0..<j] @ [j..<kMaxLevels]" using ij(2) upt_add_eq_append [of 0 j "kMaxLevels - j"] by simp
  then have "concat (map (files ver) [0..<kMaxLevels]) = concat (map (files ver) [0..<j]) @ concat (map (files ver) [j..<kMaxLevels])" by simp
  moreover have "fm \<in> set (concat (map (files ver) [0..<j])) \<inter> set (concat (map (files ver) [j..<kMaxLevels]))" using ij by auto
  ultimately show False by (metis distinct_append empty_iff)
qed

lemma max_populated_bound:
  assumes "max_populated_level ver \<le> l" "l < j" "j < kMaxLevels"
  shows "files ver j = []"
proof -
  have "j \<in> set [0, 1, 2, 3, 4, 5, 6]" using assms(3) by (auto simp: kMaxLevels_def)
  with assms(1,2) show ?thesis by (auto simp: max_populated_level_def upt_levels split: if_splits)
qed

lemma disjoint_pair:
  assumes "disjoint_files fms" "f \<in> set fms" "g \<in> set fms" "f \<noteq> g"
  shows "fm_largest f < fm_smallest g \<or> fm_largest g < fm_smallest f"
proof -
  obtain i j where ij: "i < length fms" "fms ! i = f" "j < length fms" "fms ! j = g" using assms(2,3) by (auto simp: in_set_conv_nth)
  have "fm_largest (fms ! a) < fm_smallest (fms ! b)" if "a < b" "b < length fms" for a b
    using assms(1) that by (auto simp: disjoint_files_def sorted_wrt_iff_nth_less)
  with ij assms(4) show ?thesis by (cases i j rule: linorder_cases) auto
qed

text \<open>A file of a level outside a range is on one side of everything inside it and of every file that meets it.\<close>

lemma outside_range:
  assumes "disjoint_files fms" "\<forall>fm \<in> set fms. fm_ok fm" "f \<in> set fms" "\<not> overlaps lo hi f"
    and "\<forall>g \<in> G. lo \<le> fm_smallest g \<and> fm_largest g \<le> hi \<or> g \<in> set fms \<and> overlaps lo hi g"
  shows "(\<forall>g \<in> G. fm_largest f < fm_smallest g) \<or> (\<forall>g \<in> G. fm_largest g < fm_smallest f)"
proof -
  have f: "fm_smallest f \<le> fm_largest f" using assms(2,3) by (simp add: fm_ok_bounds)
  have pair: "fm_largest f < fm_smallest g \<or> fm_largest g < fm_smallest f" if "g \<in> set fms" "overlaps lo hi g" for g
  proof -
    have "f \<noteq> g" using that(2) assms(4) by auto
    then show ?thesis by (rule disjoint_pair [OF assms(1,3) that(1)])
  qed
  consider (below) "fm_largest f < lo" | (above) "hi < fm_smallest f" using assms(4) unfolding overlaps_def by blast
  then show ?thesis
  proof cases
    case below
    have "fm_largest f < fm_smallest g" if g: "g \<in> G" for g
    proof -
      consider "lo \<le> fm_smallest g" | "g \<in> set fms" "overlaps lo hi g" using bspec [OF assms(5) g] by blast
      then show ?thesis
      proof cases
        case 1
        show ?thesis by (rule less_le_trans [OF below 1])
      next
        case 2
        have "\<not> fm_largest g < fm_smallest f"
        proof
          assume "fm_largest g < fm_smallest f"
          from less_trans [OF less_le_trans [OF this f] below] show False using 2 by (simp add: overlaps_def)
        qed
        then show ?thesis using pair [OF 2] by blast
      qed
    qed
    then show ?thesis by blast
  next
    case above
    have "fm_largest g < fm_smallest f" if g: "g \<in> G" for g
    proof -
      consider "fm_largest g \<le> hi" | "g \<in> set fms" "overlaps lo hi g" using bspec [OF assms(5) g] by blast
      then show ?thesis
      proof cases
        case 1
        show ?thesis by (rule le_less_trans [OF 1 above])
      next
        case 2
        have "\<not> fm_largest f < fm_smallest g"
        proof
          assume "fm_largest f < fm_smallest g"
          from less_trans [OF less_le_trans [OF above f] this] show False using 2 by (simp add: overlaps_def)
        qed
        then show ?thesis using pair [OF 2] by blast
      qed
    qed
    then show ?thesis by blast
  qed
qed

lemma deep_levels:
  assumes "\<forall>l \<in> {out<..<kMaxLevels}. set (files ver l) \<inter> I = {}"
  shows "(\<forall>l \<in> {out<..<kMaxLevels}. set (files ver l) \<subseteq> I) \<or>
    \<not> max_populated_level ver \<le> out \<and> (\<forall>l \<in> {out<..<kMaxLevels}. set (files ver l) \<inter> I = {})"
  using assms max_populated_bound [of ver out] by (cases "max_populated_level ver \<le> out") auto

lemma l0_range_covers:
  assumes "\<forall>fm \<in> set fms. fm_smallest fm \<noteq> [] \<and> fm_smallest fm \<le> fm_largest fm" "l0_range fms (lo, hi) = (lo', hi')" "lo = [] \<longleftrightarrow> hi = []"
  shows "(\<forall>fm \<in> set fms. lo' \<le> fm_smallest fm \<and> fm_largest fm \<le> hi') \<and> (lo \<noteq> [] \<longrightarrow> lo' \<le> lo \<and> hi \<le> hi')"
  using assms
proof (induction fms arbitrary: lo hi)
  case (Cons fm fms)
  let ?lo = "if lo = [] \<or> fm_smallest fm < lo then fm_smallest fm else lo"
  let ?hi = "if hi = [] \<or> fm_largest fm > hi then fm_largest fm else hi"
  have "fm_smallest fm \<noteq> []" "fm_largest fm \<noteq> []" using Cons.prems(1) antisym [OF _ Nil_le_Cons, of "fm_smallest fm"] by fastforce+
  then have ne: "?lo \<noteq> []" "?hi \<noteq> []" by auto
  with Cons.IH [of ?lo ?hi] Cons.prems have IH: "\<forall>fm \<in> set fms. lo' \<le> fm_smallest fm \<and> fm_largest fm \<le> hi'" "lo' \<le> ?lo" "?hi \<le> hi'" by auto
  have "?lo \<le> fm_smallest fm" "fm_largest fm \<le> ?hi" by auto
  then have "lo' \<le> fm_smallest fm" "fm_largest fm \<le> hi'" using IH(2,3) by (meson order.trans)+
  moreover have "lo' \<le> lo \<and> hi \<le> hi'" if "lo \<noteq> []"
  proof -
    have "?lo \<le> lo" "hi \<le> ?hi" using that Cons.prems(3) by auto
    then show ?thesis using IH(2,3) by (meson order.trans)
  qed
  ultimately show ?case using IH(1) by simp
qed simp

lemma pick_lowest_in: "pick_lowest p fms = Some fm \<Longrightarrow> p = Some fm \<or> fm \<in> set fms"
  by (induction fms arbitrary: p) (auto split: option.splits if_splits)

text \<open>An overflowing level: the job that is picked for it.\<close>

lemma pick_level_job:
  assumes "job_inputs (pick_level os ver levels) \<noteq> []"
  obtains l p where "l \<in> set levels" "p \<in> set (files ver l)" "pick_level os ver levels =
    \<lparr>output_level = l + 1, job_inputs = p # filter (overlaps (fm_smallest p) (fm_largest p)) (files ver (l + 1)),
     is_bottommost = (l + 1 \<ge> max_populated_level ver)\<rparr>"
  using assms
proof (induction levels arbitrary: thesis)
  case (Cons l levels)
  show ?case
  proof (cases "level_bytes ver l \<le> max_level_bytes os l \<or> pick_lowest None (files ver l) = None")
    case True
    then have "pick_level os ver (l # levels) = pick_level os ver levels" by auto
    with Cons.prems Cons.IH show ?thesis by (metis list.set_intros(2))
  next
    case False
    then obtain p where "pick_lowest None (files ver l) = Some p" by auto
    then show ?thesis using Cons.prems(1) [of l p] False pick_lowest_in [of None "files ver l" p] by simp
  qed
qed (simp add: no_job_def)

text \<open>Keys of the level-0 files that are not empty, so that their range is computed correctly.\<close>

lemma pick_shape:
  assumes "version_ok ver" "job_inputs (pick_compaction force os ver) \<noteq> []" "force \<Longrightarrow> 2 \<le> length (ver_files ver)"
    and "\<forall>fm \<in> set (files ver 0). fm_smallest fm \<noteq> []"
  shows "job_shape ver (pick_compaction force os ver)"
proof -
  note un = level_unique [OF assms(1)]
  consider "force" | "\<not> force" "length (files ver 0) \<ge> compaction_trigger os" | "\<not> force" "\<not> length (files ver 0) \<ge> compaction_trigger os" by blast
  then show ?thesis
  proof cases
    case 1
    then have job: "pick_compaction force os ver = \<lparr>output_level = 1, job_inputs = ver_files ver, is_bottommost = True\<rparr>"
      using assms(3) by (simp add: pick_compaction_def ver_files_def Let_def)
    have sub: "set (files ver l) \<subseteq> set (ver_files ver)" if "l < kMaxLevels" for l using that by (auto simp: in_ver_files)
    have "\<exists>olds extra. files ver 0 = olds @ extra \<and> set olds \<subseteq> set (ver_files ver) \<and> set extra \<inter> set (ver_files ver) = {} \<and> ((1::nat) < 1 \<longrightarrow> olds = [])"
      using sub [of 0] by (intro exI [of _ "files ver 0"] exI [of _ "[]"]) simp
    then show ?thesis unfolding job_shape_def job compaction_job.simps using sub by (simp add: Diff_eq_empty_iff [THEN iffD2])
  next
    case 2
    obtain lo hi where r: "l0_range (files ver 0) ([], []) = (lo, hi)" by force
    let ?in = "files ver 0 @ filter (overlaps lo hi) (files ver 1)"
    have job: "pick_compaction force os ver = \<lparr>output_level = 1, job_inputs = ?in, is_bottommost = (max_populated_level ver \<le> 1)\<rparr>"
      using 2 r by (auto simp: pick_compaction_def)
    have dis: "disjoint_files (files ver 1)" "\<forall>fm \<in> set (files ver 1). fm_ok fm" using version_ok_level [OF assms(1), of 1] by auto
    have cov: "lo \<le> fm_smallest g" "fm_largest g \<le> hi" if "g \<in> set (files ver 0)" for g
      using l0_range_covers [OF _ r] assms(4) fm_ok_bounds version_ok_level(1) [OF assms(1), of 0] that by auto
    have "set (files ver l) \<inter> set ?in = {}" if "l \<in> {1<..<kMaxLevels}" for l using un [of _ l 0] un [of _ l 1] that by auto
    then have "\<forall>l \<in> {1<..<kMaxLevels}. set (files ver l) \<inter> set ?in = {}" by blast
    note deep = deep_levels [OF this]
    have "\<exists>olds extra. files ver 0 = olds @ extra \<and> set olds \<subseteq> set ?in \<and> set extra \<inter> set ?in = {} \<and> ((1::nat) < 1 \<longrightarrow> olds = [])"
      by (intro exI [of _ "files ver 0"] exI [of _ "[]"]) simp
    moreover have "set ?in \<subseteq> set (ver_files ver)" using in_ver_filesI [of _ ver 0] in_ver_filesI [of _ ver 1] by auto
    moreover have "(\<forall>g \<in> set ?in. fm_largest f < fm_smallest g) \<or> (\<forall>g \<in> set ?in. fm_largest g < fm_smallest f)"
      if "f \<in> set (files ver 1) - set ?in" for f
      using that cov by (intro outside_range [OF dis]) auto
    ultimately show ?thesis unfolding job_shape_def job compaction_job.simps using deep by auto
  next
    case 3
    then have pk: "pick_compaction force os ver = pick_level os ver [1..<kMaxLevels - 1]" by (simp add: pick_compaction_def)
    from assms(2) obtain l p where lp: "l \<in> set [1..<kMaxLevels - 1]" "p \<in> set (files ver l)" and
      job: "pick_compaction force os ver = \<lparr>output_level = l + 1, job_inputs = p # filter (overlaps (fm_smallest p) (fm_largest p)) (files ver (l + 1)),
        is_bottommost = (l + 1 \<ge> max_populated_level ver)\<rparr>" unfolding pk by (rule pick_level_job)
    let ?in = "set (p # filter (overlaps (fm_smallest p) (fm_largest p)) (files ver (l + 1)))"
    have l: "1 \<le> l" "l + 1 < kMaxLevels" using lp(1) by auto
    have no: "set (files ver j) \<inter> ?in = {}" if "j \<noteq> l" "j \<noteq> l + 1" "j < kMaxLevels" for j
      using un [of p j l] un [of _ j "l + 1"] that lp(2) l by auto
    have "\<forall>j \<in> {l + 1<..<kMaxLevels}. set (files ver j) \<inter> ?in = {}" using no by simp
    note deep = deep_levels [OF this]
    have "?in \<subseteq> set (ver_files ver)" using in_ver_filesI [OF lp(2)] in_ver_filesI [of _ ver "l + 1"] l by auto
    moreover have "\<exists>olds extra. files ver 0 = olds @ extra \<and> set olds \<subseteq> ?in \<and> set extra \<inter> ?in = {} \<and> (1 < l + 1 \<longrightarrow> olds = [])"
      using no [of 0] l by (intro exI [of _ "[]"] exI [of _ "files ver 0"]) simp
    moreover have "\<forall>j \<ge> 1. j + 1 < l + 1 \<longrightarrow> set (files ver j) \<inter> ?in = {}" using no l by auto
    moreover have "(\<forall>g \<in> ?in. fm_largest f < fm_smallest g) \<or> (\<forall>g \<in> ?in. fm_largest g < fm_smallest f)" if "f \<in> set (files ver (l + 1)) - ?in" for f
      using that version_ok_level [OF assms(1) l(2)] by (intro outside_range [of "files ver (l + 1)"]) auto
    moreover have "1 \<le> l + 1" by simp
    ultimately show ?thesis unfolding job_shape_def job compaction_job.simps using deep l(2) by blast
  qed
qed

text \<open>Files that reach level 0 after the choice.\<close>

definition grown :: "version \<Rightarrow> version \<Rightarrow> bool" where
  "grown ver ver' \<longleftrightarrow> (\<exists>extra. files ver' 0 = files ver 0 @ extra) \<and> (\<forall>l > 0. files ver' l = files ver l)"

lemma job_shape_grown:
  assumes "job_shape ver job" "grown ver ver'" "version_ok ver'"
  shows "job_shape ver' job"
proof -
  obtain more where g: "files ver' 0 = files ver 0 @ more" "\<And>l. 0 < l \<Longrightarrow> files ver' l = files ver l" using assms(2) by (auto simp: grown_def)
  have all: "ver_files ver' = files ver 0 @ more @ concat (map (files ver) [1..<kMaxLevels])"
    "ver_files ver = files ver 0 @ concat (map (files ver) [1..<kMaxLevels])"
    unfolding ver_files_0 g(1) by (simp, rule arg_cong [of _ _ concat], rule map_cong, simp_all add: g(2))
  have "distinct (ver_files ver')" using assms(3) unfolding version_ok_def distinct_map by blast
  then have "set more \<inter> set (ver_files ver) = {}" unfolding all by auto
  moreover have "set (ver_files ver) \<subseteq> set (ver_files ver')" unfolding all by auto
  ultimately have fs: "set more \<inter> set (job_inputs job) = {}" "set (job_inputs job) \<subseteq> set (ver_files ver')"
    using assms(1) unfolding job_shape_def by blast+
  obtain olds extra where l0: "files ver 0 = olds @ extra" "set olds \<subseteq> set (job_inputs job)" "set extra \<inter> set (job_inputs job) = {}"
      "1 < output_level job \<longrightarrow> olds = []" using assms(1) unfolding job_shape_def by blast
  then have "\<exists>olds extra. files ver' 0 = olds @ extra \<and> set olds \<subseteq> set (job_inputs job) \<and> set extra \<inter> set (job_inputs job) = {} \<and> (1 < output_level job \<longrightarrow> olds = [])"
    using fs(1) by (intro exI [of _ olds] exI [of _ "extra @ more"]) (auto simp: g(1))
  moreover have "files ver' (output_level job) = files ver (output_level job)" "\<And>l. 1 \<le> l \<Longrightarrow> files ver' l = files ver l"
      "\<And>l. l \<in> {output_level job<..<kMaxLevels} \<Longrightarrow> files ver' l = files ver l"
    using assms(1) by (auto simp: g(2) job_shape_def)
  ultimately show ?thesis using fs(2) assms(1) unfolding job_shape_def by simp
qed

end
