(* ===== verification/Compact_Commit.thy ===== *)
theory Compact_Commit
  imports Compact_Merge Compact_Pick
begin

text \<open>
  The commit of a compaction: the new version is well formed, keeps the invariant of the database
  and changes no read at a snapshot that is live or taken later.
\<close>

section \<open>The new version\<close>

text \<open>The outputs: in order, with numbers and keys apart from what stays at their level.\<close>

definition outputs_ok :: "version \<Rightarrow> compaction_job \<Rightarrow> file_meta list \<Rightarrow> bool" where
  "outputs_ok ver job outs \<longleftrightarrow> (\<forall>fm \<in> set outs. fm_ok fm) \<and> disjoint_files outs \<and> distinct (map fm_number outs) \<and>
     fm_number ` set outs \<inter> fm_number ` set (ver_files ver) = {} \<and>
     (\<forall>fm \<in> set outs. set (fm_entries fm) \<subseteq> set (concat (map fm_entries (job_inputs job)))) \<and>
     (\<forall>fm \<in> set outs. fm_smallest fm \<in> ekey ` set (fm_entries fm) \<and> fm_largest fm \<in> ekey ` set (fm_entries fm))"

lemma input_numbers:
  assumes "version_ok ver" "set (job_inputs job) \<subseteq> set (ver_files ver)" "fm \<in> set (ver_files ver)"
  shows "fm_number fm \<in> fm_number ` set (job_inputs job) \<longleftrightarrow> fm \<in> set (job_inputs job)"
proof -
  have "inj_on fm_number (set (ver_files ver))" using assms(1) by (simp add: version_ok_def distinct_map)
  from inj_on_image_mem_iff [OF this assms(3,2)] show ?thesis .
qed

lemma replace_files_level:
  assumes "version_ok ver" "set (job_inputs job) \<subseteq> set (ver_files ver)" "1 \<le> output_level job" "l < kMaxLevels"
  shows "files (replace_files job outs ver) l =
    (if l = output_level job then sort_key fm_smallest (files (without job ver) l @ outs) else files (without job ver) l)"
proof -
  have "filter (\<lambda>fm. fm_number fm \<notin> fm_number ` set (job_inputs job)) (files ver l) = filter (\<lambda>fm. fm \<notin> set (job_inputs job)) (files ver l)"
    using input_numbers [OF assms(1,2)] in_ver_filesI [OF _ assms(4)] by (intro filter_cong) auto
  then show ?thesis using assms(3) by (simp add: replace_files_def without_def)
qed

lemma sort_disjoint:
  assumes "distinct fms" "\<And>f g. f \<in> set fms \<Longrightarrow> g \<in> set fms \<Longrightarrow> f \<noteq> g \<Longrightarrow> fm_largest f < fm_smallest g \<or> fm_largest g < fm_smallest f"
    and "\<forall>f \<in> set fms. fm_smallest f \<le> fm_largest f"
  shows "disjoint_files (sort_key fm_smallest fms)"
  unfolding disjoint_files_def sorted_wrt_iff_nth_less
proof (intro allI impI)
  let ?s = "sort_key fm_smallest fms"
  fix i j assume ij: "i < j" "j < length ?s"
  have mem: "?s ! i \<in> set fms" "?s ! j \<in> set fms" using ij nth_mem [of i ?s] nth_mem [of j ?s] by auto
  have "?s ! i \<noteq> ?s ! j" using ij assms(1) nth_eq_iff_index_eq [of ?s i j] by simp
  from assms(2) [OF mem this] have "fm_largest (?s ! i) < fm_smallest (?s ! j) \<or> fm_largest (?s ! j) < fm_smallest (?s ! i)" .
  moreover have "fm_smallest (?s ! i) \<le> fm_smallest (?s ! j)"
    using sorted_nth_mono [OF sorted_sort_key [of fm_smallest fms], of i j] ij by simp
  from order.trans [OF this] assms(3) mem(2) have "\<not> fm_largest (?s ! j) < fm_smallest (?s ! i)" by (simp add: not_less)
  ultimately show "fm_largest (?s ! i) < fm_smallest (?s ! j)" by blast
qed

lemma output_level_disjoint:
  assumes "version_ok ver" "job_shape ver job" "outputs_ok ver job outs"
  shows "disjoint_files (sort_key fm_smallest (files (without job ver) (output_level job) @ outs))"
proof (rule sort_disjoint)
  let ?rest = "files (without job ver) (output_level job)"
  have o: "1 \<le> output_level job" "output_level job < kMaxLevels" "set (job_inputs job) \<subseteq> set (ver_files ver)" using assms(2) by (auto simp: job_shape_def)
  have lev: "disjoint_files (files ver (output_level job))" "\<forall>fm \<in> set (files ver (output_level job)). fm_ok fm"
    using version_ok_level [OF assms(1) o(2)] o(1) by auto
  have sub: "set ?rest \<subseteq> set (files ver (output_level job)) - set (job_inputs job)" by (auto simp: without_def)
  have outs: "\<forall>fm \<in> set outs. fm_ok fm" "disjoint_files outs" "distinct outs" "fm_number ` set outs \<inter> fm_number ` set (ver_files ver) = {}"
    using assms(3) by (auto simp: outputs_ok_def distinct_map)
  have "distinct (files ver (output_level job))"
    using assms(1) split_list [of "output_level job" "[0..<kMaxLevels]"] o(2) by (auto simp: version_ok_def ver_files_def distinct_map)
  moreover have "set ?rest \<inter> set outs = {}" using sub outs(4) in_ver_filesI [OF _ o(2), of _ ver] by fastforce
  ultimately show "distinct (?rest @ outs)" using outs(3) by (simp add: without_def)
  show "\<forall>f \<in> set (?rest @ outs). fm_smallest f \<le> fm_largest f" using sub lev(2) outs(1) fm_ok_bounds by auto
  have mixed: "fm_largest f < fm_smallest g \<or> fm_largest g < fm_smallest f" if f: "f \<in> set ?rest" and g: "g \<in> set outs" for f g
  proof -
    obtain x y where xy: "x \<in> set (fm_entries g)" "ekey x = fm_smallest g" "y \<in> set (fm_entries g)" "ekey y = fm_largest g"
      using assms(3) g by (auto simp: outputs_ok_def)
    have "set (fm_entries g) \<subseteq> set (concat (map fm_entries (job_inputs job)))" using assms(3) g by (simp add: outputs_ok_def)
    with xy(1,3) have "x \<in> set (concat (map fm_entries (job_inputs job)))" "y \<in> set (concat (map fm_entries (job_inputs job)))" by blast+
    then obtain a b where ab: "a \<in> set (job_inputs job)" "x \<in> set (fm_entries a)" "b \<in> set (job_inputs job)" "y \<in> set (fm_entries b)" by auto
    then have "fm_ok a" "fm_ok b" using o(3) assms(1) by (auto simp: version_ok_def)
    then have r: "fm_smallest a \<le> fm_smallest g" "fm_largest g \<le> fm_largest b" using fm_ok_range [OF _ ab(2)] fm_ok_range [OF _ ab(4)] xy(2,4) by auto
    have "fm_largest f < fm_smallest a \<or> fm_largest b < fm_smallest f" using assms(2) f sub ab unfolding job_shape_def by blast
    then show ?thesis using less_le_trans [OF _ r(1)] le_less_trans [OF r(2)] by blast
  qed
  show "fm_largest f < fm_smallest g \<or> fm_largest g < fm_smallest f" if fg: "f \<in> set (?rest @ outs)" "g \<in> set (?rest @ outs)" "f \<noteq> g" for f g
  proof -
    consider "f \<in> set ?rest" "g \<in> set outs" | "g \<in> set ?rest" "f \<in> set outs" | "f \<in> set outs" "g \<in> set outs"
      | "f \<in> set (files ver (output_level job))" "g \<in> set (files ver (output_level job))" using fg sub by auto
    then show ?thesis
      by cases (use mixed disjoint_pair [OF lev(1)] disjoint_pair [OF outs(2)] fg(3) in blast)+
  qed
qed

lemma upt_at: "l < kMaxLevels \<Longrightarrow> k \<le> l \<Longrightarrow> [k..<kMaxLevels] = [k..<l] @ l # [Suc l..<kMaxLevels]"
  using upt_add_eq_append [of k l "kMaxLevels - l"] upt_conv_Cons [of l kMaxLevels] by simp

lemma ver_files_replace:
  assumes "version_ok ver" "job_shape ver job"
  shows "mset (ver_files (replace_files job outs ver)) = mset (filter (\<lambda>fm. fm \<notin> set (job_inputs job)) (ver_files ver)) + mset outs"
proof -
  let ?nv = "replace_files job outs ver" and ?o = "output_level job"
  have o: "1 \<le> ?o" "?o < kMaxLevels" "set (job_inputs job) \<subseteq> set (ver_files ver)" using assms(2) by (auto simp: job_shape_def)
  note lev = replace_files_level [OF assms(1) o(3,1)]
  note at = upt_at [OF o(2), of 0, simplified]
  have eq: "map (files ?nv) [0..<?o] = map (files (without job ver)) [0..<?o]" "map (files ?nv) [Suc ?o..<kMaxLevels] = map (files (without job ver)) [Suc ?o..<kMaxLevels]"
    using lev o(2) by (auto intro!: map_cong)
  have "mset (files ?nv ?o) = mset (files (without job ver) ?o) + mset outs" using lev [OF o(2)] by simp
  then have "mset (ver_files ?nv) = mset (ver_files (without job ver)) + mset outs"
    unfolding ver_files_def at map_append list.map concat_append concat.simps eq by simp
  moreover have "ver_files (without job ver) = filter (\<lambda>fm. fm \<notin> set (job_inputs job)) (ver_files ver)"
    by (simp add: ver_files_def without_def filter_concat comp_def)
  ultimately show ?thesis by simp
qed

lemma replace_files_ok:
  assumes "version_ok ver" "job_shape ver job" "outputs_ok ver job outs"
  shows "version_ok (replace_files job outs ver)"
    "set (ver_files (replace_files job outs ver)) = set (ver_files ver) - set (job_inputs job) \<union> set outs"
proof -
  let ?nv = "replace_files job outs ver" and ?o = "output_level job" and ?K = "\<lambda>fm. fm \<notin> set (job_inputs job)"
  have o: "1 \<le> ?o" "?o < kMaxLevels" "set (job_inputs job) \<subseteq> set (ver_files ver)" using assms(2) by (auto simp: job_shape_def)
  note ms = ver_files_replace [OF assms(1,2), of outs]
  then have ms': "mset (ver_files ?nv) = mset (filter ?K (ver_files ver) @ outs)" by simp
  show set: "set (ver_files ?nv) = set (ver_files ver) - set (job_inputs job) \<union> set outs" using mset_eq_setD [OF ms'] by auto
  have ok: "\<forall>fm \<in> set (ver_files ver). fm_ok fm" "distinct (map fm_number (ver_files ver))" using assms(1) by (auto simp: version_ok_def)
  have outs: "\<forall>fm \<in> set outs. fm_ok fm" "distinct (map fm_number outs)" "fm_number ` set outs \<inter> fm_number ` set (ver_files ver) = {}"
    using assms(3) by (auto simp: outputs_ok_def)
  have "distinct (map fm_number (filter ?K (ver_files ver) @ outs))"
    using distinct_map_filter [OF ok(2), of ?K] outs(2,3) by auto
  moreover have "mset (map fm_number (ver_files ?nv)) = mset (map fm_number (filter ?K (ver_files ver) @ outs))" using ms' by (simp only: mset_map)
  ultimately have "distinct (map fm_number (ver_files ?nv))" by (metis mset_eq_imp_distinct_iff)
  moreover have "disjoint_files (files ?nv l)" if "l \<in> {1..<kMaxLevels}" for l
  proof (cases "l = ?o")
    case True
    then show ?thesis using replace_files_level [OF assms(1) o(3,1), of l] output_level_disjoint [OF assms] that by simp
  next
    case False
    then show ?thesis using replace_files_level [OF assms(1) o(3,1), of l] version_ok_level(2) [OF assms(1), of l] that
      by (simp add: without_def disjoint_files_def sorted_wrt_filter)
  qed
  ultimately show "version_ok ?nv" using ok(1) outs(1) set by (simp add: version_ok_def) blast
qed

text \<open>The runs of the new version.\<close>

lemma replace_files_runs:
  assumes "version_ok ver" "job_shape ver job"
  shows "m # ver_runs (replace_files job outs ver) = runs_before m (without job ver) (output_level job) @
      level_entries (replace_files job outs ver) (output_level job) # runs_behind (without job ver) (output_level job)"
    "set (level_entries (replace_files job outs ver) (output_level job)) =
      set (level_entries (without job ver) (output_level job)) \<union> set (concat (map fm_entries outs))"
proof -
  let ?nv = "replace_files job outs ver" and ?o = "output_level job"
  have o: "1 \<le> ?o" "?o < kMaxLevels" "set (job_inputs job) \<subseteq> set (ver_files ver)" using assms(2) by (auto simp: job_shape_def)
  note lev = replace_files_level [OF assms(1) o(3,1)]
  have "map (level_entries ?nv) [1..<?o] = map (level_entries (without job ver)) [1..<?o]"
    "map (level_entries ?nv) [Suc ?o..<kMaxLevels] = map (level_entries (without job ver)) [Suc ?o..<kMaxLevels]"
    using lev o(2) by (auto intro!: map_cong simp: level_entries_def)
  moreover have "files ?nv 0 = files (without job ver) 0" using lev [of 0] o(1) by simp
  ultimately show "m # ver_runs ?nv = runs_before m (without job ver) ?o @ level_entries ?nv ?o # runs_behind (without job ver) ?o"
    unfolding runs_split [OF o(1,2)] by (simp add: runs_before_def runs_behind_def)
  show "set (level_entries ?nv ?o) = set (level_entries (without job ver) ?o) \<union> set (concat (map fm_entries outs))"
    unfolding level_entries_def lev [OF o(2)] by simp
qed

section \<open>The database after the commit\<close>

definition has_source :: "sstable \<Rightarrow> bool" where
  "has_source t \<longleftrightarrow> (\<exists>f. \<forall>i < length (tindex t). block_loader None t i = Inr (f (ioffset (tindex t ! i))))"

lemma cache_matches_outputs:
  assumes "cache_matches c ver" "\<forall>fm \<in> set (ver_files ver). fm_ok fm" "\<forall>fm \<in> set outs. fm_ok fm \<and> has_source (fm_table fm) \<and> fm_number fm \<notin> cached_numbers c"
    and "distinct (map fm_number outs)" "fm_number ` set outs \<inter> fm_number ` set (ver_files ver) = {}"
    and "set (ver_files ver') \<subseteq> set (ver_files ver) \<union> set outs"
  shows "cache_matches c ver'"
  using assms
proof (induction outs arbitrary: ver)
  case Nil
  then show ?case by (auto simp: cache_matches_def)
next
  case (Cons fm outs)
  let ?ver = "add_l0 fm ver"
  obtain f where f: "\<forall>i < length (tindex (fm_table fm)). block_loader None (fm_table fm) i = Inr (f (ioffset (tindex (fm_table fm) ! i)))"
    using Cons.prems(3) by (auto simp: has_source_def)
  have num: "\<forall>g \<in> set (ver_files ver). fm_ok g \<and> fm_number g \<noteq> fm_number fm" "fm_number fm \<notin> cached_numbers c" "tnumber (fm_table fm) = fm_number fm"
  proof -
    have "fm_number fm \<notin> fm_number ` set (ver_files ver)" using Cons.prems(5) by simp
    then show "\<forall>g \<in> set (ver_files ver). fm_ok g \<and> fm_number g \<noteq> fm_number fm" using Cons.prems(2) by (metis imageI)
  qed (use Cons.prems(3) in \<open>simp_all add: fm_ok_def\<close>)
  have "cache_matches c ?ver" using cache_matches_new [OF Cons.prems(1) num(1,2) f num(3), of ?ver fm] by (simp add: set_ver_files_add_l0)
  then show ?case using Cons.prems(2-6) by (intro Cons.IH [of ?ver]) (auto simp: set_ver_files_add_l0)
qed

lemma commit_keeps:
  assumes "db_ok d" "job_shape (current_version d) job" "outputs_ok (current_version d) job outs"
    and K: "set (concat (map fm_entries outs)) = set (keep_list old (is_bottommost job) ([], False) (job_versions job))"
    and new: "\<forall>fm \<in> set outs. has_source (fm_table fm) \<and> fm_number fm < next_sst_number d \<and> fm_number fm \<notin> cached_numbers (cache d)"
    and d': "current_version d' = replace_files job outs (current_version d)" "mtable d' = mtable d" "cache d' = cache d" "next_seq d' = next_seq d"
      "next_sst_number d' = next_sst_number d"
  shows "db_ok d'" "old \<le> s \<or> (\<forall>x \<in> set (job_versions job). eseq x \<le> s) \<Longrightarrow>
    map_option fst (get_impl no_error k s d') = map_option fst (get_impl no_error k s d)"
proof -
  let ?ver = "current_version d" and ?L = "job_versions job" and ?m = "mt_versions (mtable d)" and ?o = "output_level job"
  let ?K = "keep_list old (is_bottommost job) ([], False) ?L" and ?w = "without job (current_version d)"
  let ?as = "runs_before ?m ?w ?o" and ?mid = "level_entries ?w ?o" and ?bs = "runs_behind ?w ?o"
  have ver: "version_ok ?ver" "sorted_wrt recent (?m # ver_runs ?ver)" using assms(1) by (auto simp: db_ok_def db_runs_def)
  have o: "1 \<le> ?o" "?o < kMaxLevels" "set (job_inputs job) \<subseteq> set (ver_files ?ver)" using assms(2) by (auto simp: job_shape_def)
  have L: "ent_sorted ?L" "set ?L = set (concat (map fm_entries (job_inputs job)))" by (auto simp: job_versions_def merged_spec)
  note rep = shape_replaceable [OF ver assms(2) L(2)]
  note runs = replace_files_runs [OF ver(1) assms(2), where outs = outs]
  have runs': "db_runs d' = ?as @ level_entries (replace_files job outs ?ver) ?o # ?bs" using runs(1) [of ?m] d'(1,2) by (simp add: db_runs_def)
  have wo: "?m # ver_runs ?w = ?as @ ?mid # ?bs" by (rule runs_split [OF o(1,2)])
  have V: "db_versions d = set (concat ?as) \<union> set ?mid \<union> set (concat ?bs) \<union> set ?L"
  proof -
    have "set (concat (?m # ver_runs ?w)) \<union> set ?L = db_versions d"
      unfolding L(2) db_versions_def db_runs_def concat.simps set_append set_ver_runs using o(3) by (auto simp: ver_files_def without_def)
    then show ?thesis unfolding wo by auto
  qed
  have V': "db_versions d' = set (concat ?as) \<union> set ?mid \<union> set (concat ?bs) \<union> set ?K"
    unfolding db_versions_def runs' using runs(2) K by auto
  have sub: "db_versions d' \<subseteq> db_versions d" unfolding V V' using keep_list_sub [of old "is_bottommost job" "([], False)" ?L] by blast
  note nv = replace_files_ok [OF ver(1) assms(2,3)]
  have uni: "unique_versions (db_versions d)" using assms(1) by (simp add: db_ok_def)
  have outs: "distinct (map fm_number outs)" "fm_number ` set outs \<inter> fm_number ` set (ver_files ?ver) = {}" "\<forall>fm \<in> set outs. fm_ok fm"
    using assms(3) by (auto simp: outputs_ok_def)
  show ok: "db_ok d'" unfolding db_ok_def
  proof (intro conjI)
    show "mt_ok (mtable d')" "mem_sized (mtable d')" using assms(1) d'(2) by (auto simp: db_ok_def)
    show "version_ok (current_version d')" using nv(1) d'(1) by simp
    show "sorted_wrt recent (db_runs d')" unfolding runs'
      by (rule replaced_recent [OF without_recent [OF ver, of job, unfolded wo] L(1) rep]) (use runs(2) K in simp)
    show "unique_versions (db_versions d')" using uni sub unfolding unique_versions_def by blast
    show "cache_matches (cache d') (current_version d')" unfolding d'(1,3)
      by (rule cache_matches_outputs [of _ ?ver outs]) (use assms(1) new outs nv(2) in \<open>auto simp: db_ok_def version_ok_def\<close>)
    show "\<forall>e \<in> db_versions d'. eseq e < next_seq d'" using assms(1) sub d'(4) by (auto simp: db_ok_def)
    show "\<forall>n \<in> fm_number ` set (ver_files (current_version d')) \<union> cached_numbers (cache d'). n < next_sst_number d'"
      using db_ok_numbers(1,2) [OF assms(1)] new nv(2) unfolding d' by auto
  qed
  assume s: "old \<le> s \<or> (\<forall>x \<in> set ?L. eseq x \<le> s)"
  show "map_option fst (get_impl no_error k s d') = map_option fst (get_impl no_error k s d)"
  proof (rule get_same_live [OF assms(1) ok sub])
    fix e assume "newest (db_versions d) k s e" "e \<notin> db_versions d'"
    then show "etomb e \<and> visible (db_versions d') k s = {}"
      unfolding V V' by (intro conjI replaced_newest [OF L(1) rep uni [unfolded V] _ s])
  qed
qed

end
