(* ===== verification/Db_Commit.thy ===== *)
theory Db_Commit
  imports Db_Flush
begin

text \<open>
  What a batch of writes does to the database: the versions it adds, that the invariant is kept, and
  what reads return afterwards, with or without a flush.
\<close>

section \<open>Sequence numbers\<close>

lemma assign_seqs_spec:
  "assign_seqs rs n = (map (\<lambda>i. (rs ! i)\<lparr>wr_seq := n + of_nat i\<rparr>) [0..<length rs], n + of_nat (length rs))"
proof (induction rs arbitrary: n)
  case (Cons r rs)
  have "[0..<length (r # rs)] = 0 # map Suc [0..<length rs]" by (simp add: upt_conv_Cons map_Suc_upt del: upt_Suc)
  then show ?case using Cons [of "n + 1"] by (simp add: add.assoc comp_def)
qed simp

lemma unat_seq: "unat n + i < 2 ^ 64 \<Longrightarrow> unat (n + of_nat i :: u64) = unat n + i"
  using unat_to_u64 [of i] by (simp add: unat_word_ariths(1))

section \<open>The versions of a batch\<close>

definition req_entry :: "write_request \<Rightarrow> entry" where
  "req_entry r = \<lparr>ekey = wr_key r, evalue = (if wr_type r = Put then wr_value r else []), etomb = (wr_type r \<noteq> Put), eseq = wr_seq r\<rparr>"

lemma req_entry_stored [simp]: "stored (req_entry r) = req_entry r"
  by (simp add: stored_def req_entry_def)

lemma apply_batch_apply: "apply_batch batch m = mt_apply (map (\<lambda>(c, r). (c, req_entry r)) batch) m"
  by (induction batch arbitrary: m) (auto simp: req_entry_def split: option.splits)

lemma apply_batch_ok:
  assumes "mt_ok m" "mem_sized m"
  shows "\<exists>m'. apply_batch batch m = Some m' \<and> mt_ok m' \<and> mem_sized m' \<and>
    mset (mt_versions m') = mset (mt_versions m) + mset (map (req_entry \<circ> snd) batch)"
proof -
  let ?ws = "map (\<lambda>(c, r). (c, req_entry r)) batch"
  obtain m' where m': "mt_apply ?ws m = Some m'" "mt_ok m'"
      "approx_bytes m' = approx_bytes m + sum_list (map (write_bytes \<circ> snd) ?ws)"
      "mt_versions m' = fold (\<lambda>(c, e). ins_version (stored e)) ?ws (mt_versions m)"
    using mt_apply_ok [OF assms(1)] by blast
  have ws: "map (stored \<circ> snd) ?ws = map (req_entry \<circ> snd) batch" "map (write_bytes \<circ> snd) ?ws = map write_bytes (map (req_entry \<circ> snd) batch)"
    by (auto simp: comp_def split_beta)
  have ms: "mset (mt_versions m') = mset (mt_versions m) + mset (map (req_entry \<circ> snd) batch)"
    using mset_fold_ins [of ?ws "mt_versions m"] by (simp only: m'(4) ws)
  have ap: "approx_bytes m' = approx_bytes m + sum_list (map write_bytes (map (req_entry \<circ> snd) batch))"
    using m'(3) by (simp only: ws)
  have "sum_list (map write_bytes (mt_versions m')) = sum_list (map write_bytes (mt_versions m @ map (req_entry \<circ> snd) batch))"
    using ms by (metis mset_append mset_map sum_mset_sum_list)
  then have "approx_bytes m' = sum_list (map write_bytes (mt_versions m'))"
    using assms(2) ap by (simp add: mem_sized_def)
  moreover have "set (mt_versions m') = set (mt_versions m) \<union> set (map (req_entry \<circ> snd) batch)"
    using arg_cong [OF ms, of set_mset] by simp
  ultimately show ?thesis using m'(1,2) ms assms(2) by (auto simp: apply_batch_apply mem_sized_def)
qed

lemma unique_versions_Un:
  assumes "unique_versions A" "unique_versions B" "\<forall>x \<in> A. \<forall>y \<in> B. eseq x \<noteq> eseq y"
  shows "unique_versions (A \<union> B)"
  using assms unfolding unique_versions_def by (metis Un_iff)

text \<open>
  Adding versions to the memtable that are newer than everything else. \<open>n\<close> is the first number the
  batch may use.
\<close>

lemma db_ok_add:
  assumes "db_ok d" "mt_ok m" "mem_sized m" "mset (mt_versions m) = mset (mt_versions (mtable d)) + mset news"
    and "unique_versions (set news)" "\<forall>e \<in> db_versions d. eseq e < n" "\<forall>e \<in> set news. n \<le> eseq e \<and> eseq e < next_seq d"
  shows "db_ok (d\<lparr>db_wal := w, mtable := m\<rparr>)" "db_versions (d\<lparr>db_wal := w, mtable := m\<rparr>) = db_versions d \<union> set news"
proof -
  let ?d = "d\<lparr>db_wal := w, mtable := m\<rparr>"
  have set: "set (mt_versions m) = set (mt_versions (mtable d)) \<union> set news" using arg_cong [OF assms(4), of set_mset] by simp
  then show vs: "db_versions ?d = db_versions d \<union> set news" by (auto simp: db_versions_files)
  have "recent (mt_versions m) r" if "r \<in> set (ver_runs (current_version d))" for r
  proof -
    have "recent (mt_versions (mtable d)) r" using assms(1) that by (simp add: db_ok_def db_runs_def)
    moreover have "eseq y \<le> eseq x" if "x \<in> set news" "y \<in> set r" for x y
    proof -
      have "y \<in> db_versions d" using that(2) \<open>r \<in> set (ver_runs (current_version d))\<close> by (auto simp: db_versions_def db_runs_def)
      with assms(6,7) that(1) show ?thesis by (meson less_imp_le order.strict_trans2)
    qed
    ultimately show ?thesis unfolding recent_def set by blast
  qed
  then have "sorted_wrt recent (db_runs ?d)" using assms(1) by (simp add: db_ok_def db_runs_def)
  moreover have "unique_versions (db_versions ?d)" unfolding vs
  proof (rule unique_versions_Un [OF _ assms(5)])
    show "unique_versions (db_versions d)" using assms(1) by (simp add: db_ok_def)
    show "\<forall>x \<in> db_versions d. \<forall>y \<in> set news. eseq x \<noteq> eseq y" using assms(6,7) by (metis leD)
  qed
  moreover have "\<forall>e \<in> db_versions ?d. eseq e < next_seq d" unfolding vs using assms(1,7) by (auto simp: db_ok_def)
  ultimately show "db_ok ?d" using assms(1-3) by (simp add: db_ok_def)
qed

text \<open>A batch with its sequence numbers assigned, as the leader commits it.\<close>

lemma assigned_entries:
  assumes "assign_seqs rs n = (rs', n')" "unat n + length rs < 2 ^ 64"
  shows "unique_versions (req_entry ` set rs')" "\<forall>e \<in> req_entry ` set rs'. n \<le> eseq e \<and> eseq e < n'" "n \<le> n'" "length rs' = length rs"
proof -
  have rs': "rs' = map (\<lambda>i. (rs ! i)\<lparr>wr_seq := n + of_nat i\<rparr>) [0..<length rs]" "n' = n + of_nat (length rs)"
    using assms(1) by (simp_all add: assign_seqs_spec)
  have seq: "unat (n + of_nat i) = unat n + i" if "i \<le> length rs" for i using that assms(2) by (intro unat_seq) simp
  have mem: "\<exists>i < length rs. e = req_entry ((rs ! i)\<lparr>wr_seq := n + of_nat i\<rparr>)" if "e \<in> req_entry ` set rs'" for e
    using that by (auto simp: rs'(1))
  show "unique_versions (req_entry ` set rs')" unfolding unique_versions_def
  proof (intro ballI impI)
    fix x y assume xy: "x \<in> req_entry ` set rs'" "y \<in> req_entry ` set rs'" and eq: "ekey x = ekey y \<and> eseq x = eseq y"
    obtain i j where i: "i < length rs" "x = req_entry ((rs ! i)\<lparr>wr_seq := n + of_nat i\<rparr>)"
      and j: "j < length rs" "y = req_entry ((rs ! j)\<lparr>wr_seq := n + of_nat j\<rparr>)" using mem xy by blast
    then have "unat (n + of_nat i) = unat (n + of_nat j)" using eq by (simp add: req_entry_def)
    then have "i = j" using seq i(1) j(1) by simp
    with i j show "x = y" by simp
  qed
  show "\<forall>e \<in> req_entry ` set rs'. n \<le> eseq e \<and> eseq e < n'"
  proof
    fix e assume "e \<in> req_entry ` set rs'"
    then obtain i where "i < length rs" "eseq e = n + of_nat i" using mem by (force simp: req_entry_def)
    then show "n \<le> eseq e \<and> eseq e < n'" using seq [of i] seq [of "length rs"] by (simp add: rs'(2) word_le_nat_alt word_less_nat_alt)
  qed
  show "n \<le> n'" using seq [of "length rs"] by (simp add: rs'(2) word_le_nat_alt)
  show "length rs' = length rs" by (simp add: rs'(1))
qed

lemma commit_batch_ok:
  assumes "db_ok d" "\<forall>e \<in> db_versions d. eseq e < n" "unique_versions (req_entry ` snd ` set batch)"
    and "\<forall>e \<in> req_entry ` snd ` set batch. n \<le> eseq e \<and> eseq e < next_seq d"
    and "commit_batch rs ok batch d = (r, d')"
  shows "db_ok d'"
    "case r of Inl e \<Rightarrow> db_versions d' = db_versions d \<and> e = WalError WriteFailed
     | Inr _ \<Rightarrow> db_versions d' = db_versions d \<union> req_entry ` snd ` set batch"
    "next_seq d' = next_seq d" "current_version d' = current_version d"
    "r = Inr () \<Longrightarrow> mset (mt_versions (mtable d')) = mset (mt_versions (mtable d)) + mset (map (req_entry \<circ> snd) batch)"
proof -
  obtain w e where w: "append_batch rs ok (map (wal_record \<circ> snd) batch) (db_wal d) = (w, e)" by force
  have mt: "mt_ok (mtable d)" "mem_sized (mtable d)" using assms(1) by (auto simp: db_ok_def)
  obtain m where m: "apply_batch batch (mtable d) = Some m" "mt_ok m" "mem_sized m"
    "mset (mt_versions m) = mset (mt_versions (mtable d)) + mset (map (req_entry \<circ> snd) batch)"
    using apply_batch_ok [OF mt] by blast
  have "set (map (req_entry \<circ> snd) batch) = req_entry ` snd ` set batch" by auto
  note add = db_ok_add [OF assms(1) m(2-4), unfolded this, OF assms(3,2,4), of w]
  have err: "e = Some WriteFailed" if "e \<noteq> None" using that by (cases e; cases "the e") auto
  have "db_ok (d\<lparr>db_wal := w\<rparr>)" "db_runs (d\<lparr>db_wal := w\<rparr>) = db_runs d" using db_ok_frame [OF assms(1), of "d\<lparr>db_wal := w\<rparr>"] by simp_all
  with add err w m(1,4) assms(5) show "db_ok d'"
    "case r of Inl e \<Rightarrow> db_versions d' = db_versions d \<and> e = WalError WriteFailed
     | Inr _ \<Rightarrow> db_versions d' = db_versions d \<union> req_entry ` snd ` set batch"
    "next_seq d' = next_seq d" "current_version d' = current_version d"
    "r = Inr () \<Longrightarrow> mset (mt_versions (mtable d')) = mset (mt_versions (mtable d)) + mset (map (req_entry \<circ> snd) batch)"
    by (auto simp: commit_batch_def db_versions_def split: option.splits)
qed

section \<open>Properties\<close>

text \<open>The example database with one write in its memtable.\<close>

lemma ex_write:
  obtains m where "apply_batch [([True], \<lparr>wr_type = Put, wr_key = [1], wr_value = [9], wr_done = False, wr_seq = 7\<rparr>)] (mtable ex_db) = Some m"
    "mt_versions m = [\<lparr>ekey = [1], evalue = [9], etomb = False, eseq = 7\<rparr>]" "db_ok (ex_db\<lparr>mtable := m, next_seq := 8\<rparr>)"
proof -
  let ?r = "\<lparr>wr_type = Put, wr_key = [1], wr_value = [9], wr_done = False, wr_seq = 7\<rparr>"
  have mt: "mt_ok (mtable ex_db)" "mem_sized (mtable ex_db)" using ex_db_ok by (auto simp: db_ok_def)
  have ok: "db_ok (ex_db\<lparr>next_seq := 8\<rparr>)" using db_ok_frame(1) [OF ex_db_ok, of "ex_db\<lparr>next_seq := 8\<rparr>"] by (simp add: ex_db_def)
  obtain m where m: "apply_batch [([True], ?r)] (mtable ex_db) = Some m" "mt_ok m" "mem_sized m"
    "mset (mt_versions m) = mset (mt_versions (mtable ex_db)) + mset [req_entry ?r]"
    using apply_batch_ok [OF mt, of "[([True], ?r)]"] by auto
  have "mt_versions (mtable ex_db) = []" by (simp add: ex_db_def mt_versions_new kMemtableHeight_def)
  then have "mt_versions m = [req_entry ?r]" using m(4) by simp
  moreover have "\<forall>e \<in> db_versions (ex_db\<lparr>next_seq := 8\<rparr>). eseq e < 7"
    using ex_db_ok by (simp add: db_ok_def db_versions_def db_runs_def) (simp add: ex_db_def)
  then have "db_ok (ex_db\<lparr>next_seq := 8, db_wal := db_wal ex_db, mtable := m\<rparr>)"
    using db_ok_add(1) [OF ok m(2,3), of "[req_entry ?r]" 7 "db_wal ex_db"] m(4) by (simp add: unique_versions_def req_entry_def)
  ultimately show thesis using m(1) by (intro that [of m]) (simp_all add: req_entry_def ex_db_def)
qed

definition ex_io :: flush_io where
  "ex_io = \<lparr>fio_table = \<lparr>tio_writes = [EINTR], tio_sync = True, tio_rename = True, tio_open1 = None, tio_open2 = None, tio_open3 = None\<rparr>,
     fio_writes = [], fio_sync = True\<rparr>"

lemma ex_io_healthy: "io_healthy ex_io" "opens (fio_table ex_io)"
  by (simp_all add: io_healthy_def opens_def ex_io_def)

lemma ex_one_fit: "table_fit [\<lparr>ekey = [1], evalue = [9], etomb = False, eseq = 7\<rparr>]"
proof -
  let ?e = "\<lparr>ekey = [1], evalue = [9], etomb = False, eseq = 7\<rparr> :: entry"
  have bs: "split_blocks [] [?e] = [[?e]]" by simp
  have "length (sst_image [?e]) < 2 ^ 63"
    unfolding image_length bs bloom_serialize_length bloom_of_keys_length
    by (simp add: blocks_image_def block_image_length index_image_def enc_len index_bytes_len bloom_new_def kFooterSize_def)
  then show ?thesis by (simp add: table_fit_def fits_def no_straddle_def)
qed



text \<open>The version that a call writes, and its steps.\<close>

abbreviation write_req :: "RecType \<Rightarrow> key \<Rightarrow> bytes \<Rightarrow> u64 \<Rightarrow> write_request" where
  "write_req ty k v n \<equiv> \<lparr>wr_type = ty, wr_key = k, wr_value = v, wr_done = False, wr_seq = n\<rparr>"

lemma write_alone_parts:
  assumes "db_ok d" "write_alone rs ok coins io ty k v d = (r, d')" "unat (next_seq d) + 1 < 2 ^ 64"
  obtains r2 d2 where "commit_batch rs ok [(coins, write_req ty k v (next_seq d))] (d\<lparr>next_seq := next_seq d + 1\<rparr>) = (r2, d2)" "db_ok d2"
    "(r, d') = (case r2 of Inl e \<Rightarrow> (Inl e, d2) | Inr _ \<Rightarrow> maybe_flush io d2)"
    "case r2 of Inl e \<Rightarrow> db_versions d2 = db_versions d \<and> e = WalError WriteFailed
     | Inr _ \<Rightarrow> db_versions d2 = insert (req_entry (write_req ty k v (next_seq d))) (db_versions d)"
    "r2 = Inr () \<Longrightarrow> mset (mt_versions (mtable d2)) = mset (mt_versions (mtable d)) + {#req_entry (write_req ty k v (next_seq d))#}"
proof -
  let ?r = "write_req ty k v (next_seq d)" and ?n = "next_seq d" and ?d1 = "d\<lparr>next_seq := next_seq d + 1\<rparr>"
  have n: "?n < ?n + 1" using unat_seq [of ?n 1] assms(3) by (simp add: word_less_nat_alt)
  have d1: "db_ok ?d1" "db_versions ?d1 = db_versions d" using db_ok_frame [OF assms(1), of ?d1] n by (simp_all add: db_versions_def)
  obtain r2 d2 where c: "commit_batch rs ok [(coins, ?r)] ?d1 = (r2, d2)" by force
  have "\<forall>e \<in> db_versions ?d1. eseq e < ?n" using assms(1) d1(2) by (simp add: db_ok_def)
  note cb = commit_batch_ok [OF d1(1) this _ _ c, simplified]
  have u: "unique_versions {req_entry ?r}" "?n \<le> eseq (req_entry ?r)" "eseq (req_entry ?r) < ?n + 1" using n by (simp_all add: unique_versions_def req_entry_def)
  note cb = cb [OF u(1) conjI [OF u(2,3)]]
  have "(r, d') = (case r2 of Inl e \<Rightarrow> (Inl e, d2) | Inr _ \<Rightarrow> maybe_flush io d2)" using assms(2) c by (simp add: write_alone_def)
  from that [OF c cb(1) this] cb(2,5) d1(2) show thesis by (cases r2) simp_all
qed

text \<open>Reads after one more version, newer than all others.\<close>

lemma reads_after_write:
  assumes "db_ok d" "db_ok d'" "db_versions d' = insert e (db_versions d)" "eseq e = next_seq d"
  shows "map_option fst (get_impl no_error k s d') =
    (if k = ekey e \<and> next_seq d \<le> s then Some (Inr (if etomb e then None else Some (evalue e))) else map_option fst (get_impl no_error k s d))"
proof (cases "k = ekey e \<and> next_seq d \<le> s")
  case True
  have "\<forall>e \<in> db_versions d. eseq e \<le> next_seq d" using assms(1) by (auto simp: db_ok_def less_imp_le)
  then have "newest (db_versions d') k s e" using True unfolding newest_def visible_def assms(3) assms(4) [symmetric] by fastforce
  from get_of_newest [OF assms(2) this] True show ?thesis by simp
next
  case False
  then have "visible (db_versions d') k s = visible (db_versions d) k s" using assms(4) by (auto simp: assms(3) visible_def)
  from get_same_visible [OF assms(1,2) this] False show ?thesis by auto
qed

text \<open>
  C13. Reading one's own writes: after a \<open>put\<close> or \<open>del\<close> that returned (flush included), its key reads as
  written at every snapshot from its sequence number on; all other keys, and all earlier snapshots,
  read as before. A write whose log append failed changes no read.
\<close>

theorem write_then_read:
  assumes "db_ok d" "write_alone rs ok coins io ty k v d = (r, d')" "unat (next_seq d) + 1 < 2 ^ 64"
    and "opens (fio_table io)" "\<And>m. mt_ok m \<Longrightarrow> mset (mt_versions m) = mset (mt_versions (mtable d)) +
       {#\<lparr>ekey = k, evalue = (if ty = Put then v else []), etomb = (ty \<noteq> Put), eseq = next_seq d\<rparr>#} \<Longrightarrow> table_fit (mt_versions m)"
  shows "db_ok d' \<and>
    (r = Inr () \<longrightarrow> (\<forall>k' s. map_option fst (get_impl no_error k' s d') =
       (if k' = k \<and> next_seq d \<le> s then Some (Inr (if ty = Put then Some v else None)) else map_option fst (get_impl no_error k' s d)))) \<and>
    (r = Inl (WalError WriteFailed) \<longrightarrow>
       (\<forall>k' s. map_option fst (get_impl no_error k' s d') = map_option fst (get_impl no_error k' s d)))"
proof -
  let ?e = "req_entry (write_req ty k v (next_seq d))"
  from assms(1-3) show ?thesis
  proof (cases rule: write_alone_parts)
    case (1 r2 d2)
    show ?thesis
    proof (cases r2)
      case (Inl x)
      then have "r = Inl (WalError WriteFailed)" "d' = d2" "db_versions d2 = db_versions d" using 1(3,4) by auto
      then show ?thesis using 1(2) get_same_visible [OF assms(1) 1(2)] by simp
    next
      case (Inr x)
      then have fl: "maybe_flush io d2 = (r, d')" using 1(3) by simp
      have "mt_ok (mtable d2)" using 1(2) by (simp add: db_ok_def)
      then have "table_fit (mt_versions (mtable d2))" by (rule assms(5)) (use 1(5) Inr in \<open>simp add: req_entry_def\<close>)
      note f = maybe_flush_ok [OF 1(2) fl assms(4) this]
      have "db_versions d' = insert ?e (db_versions d)" "eseq ?e = next_seq d" using f(2) 1(4) Inr by (simp_all add: req_entry_def)
      note reads = reads_after_write [OF assms(1) f(1) this]
      have "r \<noteq> Inl (WalError WriteFailed)" using maybe_flush_errors [OF fl] .
      then show ?thesis using f(1) reads by (simp add: req_entry_def)
    qed
  qed
qed

theorem write_then_read_witness:
  "\<exists>d'. write_alone [] True [True] ex_io Put [1] [9] ex_db = (Inr (), d') \<and>
     map_option fst (get_impl no_error [1] 9 d') = Some (Inr (Some [9])) \<and>
     map_option fst (get_impl no_error [1] 6 d') = map_option fst (get_impl no_error [1] 6 ex_db)"
proof -
  obtain m where m: "apply_batch [([True], \<lparr>wr_type = Put, wr_key = [1], wr_value = [9], wr_done = False, wr_seq = 7\<rparr>)] (mtable ex_db) = Some m"
    "mt_versions m = [\<lparr>ekey = [1], evalue = [9], etomb = False, eseq = 7\<rparr>]" "db_ok (ex_db\<lparr>mtable := m, next_seq := 8\<rparr>)" by (rule ex_write)
  have empty: "mt_versions (mtable ex_db) = []" "next_seq ex_db = 7" by (simp_all add: ex_db_def mt_versions_new kMemtableHeight_def)
  have "approx_bytes m < 4 * 1024 * 1024"
    using m(2,3) by (simp add: db_ok_def mem_sized_def write_bytes_def kNodeOverhead_def)
  then have r: "\<exists>d'. write_alone [] True [True] ex_io Put [1] [9] ex_db = (Inr (), d')" using m(1)
    by (simp add: write_alone_def commit_batch_def append_batch_def wal_write_def file_write_def write_fully_Nil maybe_flush_def
        empty ex_db_def default_options_def wal_open_def)
  then obtain d' where d': "write_alone [] True [True] ex_io Put [1] [9] ex_db = (Inr (), d')" by blast
  have "table_fit (mt_versions m')" if "mset (mt_versions m') = mset (mt_versions (mtable ex_db)) +
      {#\<lparr>ekey = [1], evalue = (if Put = Put then [9] else []), etomb = (Put \<noteq> Put), eseq = next_seq ex_db\<rparr>#}" for m'
    using that ex_one_fit by (simp add: empty)
  with write_then_read [OF ex_db_ok d' _ ex_io_healthy(2)]
  have "map_option fst (get_impl no_error k' s d') = (if k' = [1] \<and> 7 \<le> s then Some (Inr (if Put = Put then Some [9] else None))
      else map_option fst (get_impl no_error k' s ex_db))" for k' s by (simp add: empty)
  from this [of "[1]" 9] this [of "[1]" 6] d' show ?thesis by simp
qed

end
