(* ===== verification/Db_Group.thy ===== *)
theory Db_Group
  imports Db_Commit
begin

text \<open>
  Group commit: an invariant of every interleaving of writers, flushes and snapshots, what a returned
  write is promised, progress, and what an exception in the leader does to everybody else.
\<close>

section \<open>The invariant\<close>

fun batch_of :: "phase \<Rightarrow> nat list option" where
  "batch_of (Assigned b) = Some b"
| "batch_of (Applied b) = Some b"
| "batch_of (Flushed b) = Some b"
| "batch_of _ = None"

fun committed_of :: "phase \<Rightarrow> nat list option" where
  "committed_of (Applied b) = Some b"
| "committed_of (Flushed b) = Some b"
| "committed_of _ = None"

lemma committed_batch: "committed_of p = Some b \<Longrightarrow> batch_of p = Some b"
  by (cases p) auto

definition version_of :: "writers \<Rightarrow> nat \<Rightarrow> entry" where
  "version_of ws i = req_entry (requests ws i)"

text \<open>The queue: who waits in it is not done, and only its head can be past waiting.\<close>

definition queue_inv :: "writers \<Rightarrow> bool" where
  "queue_inv ws \<longleftrightarrow> distinct (write_queue ws) \<and>
     (\<forall>i \<in> set (write_queue ws). \<not> wr_done (requests ws i) \<and> phases ws i \<notin> {Idle, Returned} \<and>
        (phases ws i \<noteq> Waiting \<longrightarrow> i = hd (write_queue ws))) \<and>
     (\<forall>i. i \<notin> set (write_queue ws) \<longrightarrow> phases ws i \<in> {Idle, Waiting, Returned}) \<and>
     (\<forall>i b. batch_of (phases ws i) = Some b \<longrightarrow> b \<noteq> [] \<and> (\<exists>rest. write_queue ws = b @ rest))"

text \<open>The numbers of a batch are above those of the database and below the counter.\<close>

definition numbered :: "writers \<Rightarrow> nat list \<Rightarrow> bool" where
  "numbered ws b \<longleftrightarrow> (\<exists>n. (\<forall>e \<in> db_versions (wdb ws). eseq e < n) \<and> unique_versions (version_of ws ` set b) \<and>
     (\<forall>e \<in> version_of ws ` set b. n \<le> eseq e \<and> eseq e < next_seq (wdb ws)))"

text \<open>Where the versions of requests are.\<close>

definition data_inv :: "writers \<Rightarrow> bool" where
  "data_inv ws \<longleftrightarrow> db_ok (wdb ws) \<and>
     (\<forall>i. phases ws i \<in> {Waiting, Returned} \<and> i \<notin> set (write_queue ws) \<longrightarrow>
        wr_done (requests ws i) \<and> version_of ws i \<in> db_versions (wdb ws)) \<and>
     (\<forall>i b. phases ws i = Assigned b \<longrightarrow> numbered ws b) \<and>
     (\<forall>i b. committed_of (phases ws i) = Some b \<longrightarrow> version_of ws ` set b \<subseteq> db_versions (wdb ws))"

definition group_inv :: "writers \<Rightarrow> bool" where
  "group_inv ws \<longleftrightarrow> queue_inv ws \<and> data_inv ws"

lemma data_inv_committed:
  "data_inv ws \<Longrightarrow> committed_of (phases ws i) = Some b \<Longrightarrow> version_of ws ` set b \<subseteq> db_versions (wdb ws)"
  unfolding data_inv_def by blast

text \<open>The sizes the program has: the memtable makes a readable file, and the sequence numbers suffice.\<close>

definition in_bounds :: "writers \<Rightarrow> bool" where
  "in_bounds ws \<longleftrightarrow> table_fit (mt_versions (mtable (wdb ws))) \<and> unat (next_seq (wdb ws)) + length (write_queue ws) < 2 ^ 64"

inductive wreach :: "db \<Rightarrow> writers \<Rightarrow> bool" for d where
  start: "wreach d (no_writers d)"
| step: "wreach d ws \<Longrightarrow> in_bounds ws \<Longrightarrow> wstep ws ws' \<Longrightarrow> wreach d ws'"

section \<open>Every step keeps it\<close>

lemma group_inv_start: "db_ok d \<Longrightarrow> group_inv (no_writers d)"
  by (simp add: group_inv_def queue_inv_def data_inv_def no_writers_def)

text \<open>A step on the database alone that keeps its versions and the counter.\<close>

lemma group_inv_db:
  assumes "group_inv ws" "db_ok d" "db_versions d = db_versions (wdb ws)" "next_seq d = next_seq (wdb ws)"
  shows "group_inv (ws\<lparr>wdb := d\<rparr>)"
  using assms by (simp add: group_inv_def queue_inv_def data_inv_def numbered_def version_of_def)

lemma queue_head:
  assumes "queue_inv ws" "phases ws i \<notin> {Idle, Waiting, Returned}"
  shows "write_queue ws \<noteq> []" "i = hd (write_queue ws)" "i \<in> set (write_queue ws)"
    "\<And>j. j \<noteq> i \<Longrightarrow> phases ws j \<in> {Idle, Waiting, Returned}"
proof -
  show i: "i \<in> set (write_queue ws)" using assms unfolding queue_inv_def by blast
  then show "write_queue ws \<noteq> []" by auto
  show hd: "i = hd (write_queue ws)" using assms i unfolding queue_inv_def by blast
  show "phases ws j \<in> {Idle, Waiting, Returned}" if "j \<noteq> i" for j using assms(1) that hd unfolding queue_inv_def by blast
qed

text \<open>The head of the queue moves on in its call.\<close>

lemma queue_inv_phase:
  assumes "queue_inv ws" "i \<in> set (write_queue ws)" "i = hd (write_queue ws)" "p \<notin> {Idle, Returned}"
    and "\<And>b. batch_of p = Some b \<Longrightarrow> b \<noteq> [] \<and> (\<exists>rest. write_queue ws = b @ rest)"
  shows "queue_inv (ws\<lparr>wdb := d, phases := (phases ws)(i := p)\<rparr>)"
proof -
  let ?ws = "ws\<lparr>wdb := d, phases := (phases ws)(i := p)\<rparr>"
  have eq: "write_queue ?ws = write_queue ws" "requests ?ws = requests ws" "\<And>j. j \<noteq> i \<Longrightarrow> phases ?ws j = phases ws j" "phases ?ws i = p" by simp_all
  show ?thesis unfolding queue_inv_def eq(1,2)
  proof (intro conjI ballI allI impI)
    show "distinct (write_queue ws)" using assms(1) by (simp add: queue_inv_def)
  next
    fix j assume j: "j \<in> set (write_queue ws)"
    then show "\<not> wr_done (requests ws j)" using assms(1) by (simp add: queue_inv_def)
    show "phases ?ws j \<notin> {Idle, Returned}"
      using assms(1,4) j unfolding queue_inv_def by (cases "j = i") auto
    assume "phases ?ws j \<noteq> Waiting"
    then show "j = hd (write_queue ws)" using assms(1,3) j unfolding queue_inv_def by (cases "j = i") auto
  next
    fix j assume j: "j \<notin> set (write_queue ws)"
    then show "phases ?ws j \<in> {Idle, Waiting, Returned}" using assms(1,2) unfolding queue_inv_def by (cases "j = i") auto
  next
    fix j b assume "batch_of (phases ?ws j) = Some b"
    then show "b \<noteq> []" "\<exists>rest. write_queue ws = b @ rest"
      using assms(1,5) unfolding queue_inv_def by (cases "j = i"; auto)+
  qed
qed

lemma group_inv_enqueue:
  assumes "group_inv ws" "phases ws i \<in> {Idle, Returned}"
  shows "group_inv (enqueue i ty k v ws)"
proof -
  have q: "queue_inv ws" "data_inv ws" using assms(1) by (auto simp: group_inv_def)
  have i: "i \<notin> set (write_queue ws)" using q(1) assms(2) unfolding queue_inv_def by blast
  have pre: "b \<noteq> [] \<and> (\<exists>rest. write_queue ws = b @ rest)" if "batch_of (phases ws j) = Some b" for j b
    using q(1) that unfolding queue_inv_def by blast
  then have b: "i \<notin> set b" if "batch_of (phases ws j) = Some b" for j b using i that by fastforce
  have "queue_inv (enqueue i ty k v ws)"
    unfolding queue_inv_def
  proof (intro conjI ballI allI impI)
    fix j b assume "batch_of (phases (enqueue i ty k v ws) j) = Some b"
    then have "batch_of (phases ws j) = Some b" by (auto simp: enqueue_def split: if_splits)
    with pre show "b \<noteq> []" "\<exists>rest. write_queue (enqueue i ty k v ws) = b @ rest" by (fastforce simp: enqueue_def)+
  next
    fix j assume "j \<in> set (write_queue (enqueue i ty k v ws))"
    then have j: "j = i \<or> j \<noteq> i \<and> j \<in> set (write_queue ws)" by (auto simp: enqueue_def)
    with q(1) show "\<not> wr_done (requests (enqueue i ty k v ws) j)" "phases (enqueue i ty k v ws) j \<notin> {Idle, Returned}"
      by (auto simp: enqueue_def queue_inv_def)
    assume "phases (enqueue i ty k v ws) j \<noteq> Waiting"
    with j have "j \<in> set (write_queue ws)" "phases ws j \<noteq> Waiting" by (auto simp: enqueue_def split: if_splits)
    with q(1) show "j = hd (write_queue (enqueue i ty k v ws))" by (auto simp: enqueue_def queue_inv_def hd_append)
  qed (use q(1) i in \<open>auto simp: enqueue_def queue_inv_def\<close>)
  moreover have same: "version_of (enqueue i ty k v ws) ` set bb = version_of ws ` set bb" if "i \<notin> set bb" for bb
    using that by (intro image_cong refl) (auto simp: enqueue_def version_of_def)
  have "data_inv (enqueue i ty k v ws)"
    unfolding data_inv_def
  proof (intro conjI allI impI)
    show "db_ok (wdb (enqueue i ty k v ws))" using q(2) by (simp add: data_inv_def enqueue_def)
    fix j
    {
      assume "phases (enqueue i ty k v ws) j \<in> {Waiting, Returned} \<and> j \<notin> set (write_queue (enqueue i ty k v ws))"
      then have "j \<noteq> i" "phases ws j \<in> {Waiting, Returned}" "j \<notin> set (write_queue ws)" by (auto simp: enqueue_def split: if_splits)
      with q(2) show "wr_done (requests (enqueue i ty k v ws) j)" "version_of (enqueue i ty k v ws) j \<in> db_versions (wdb (enqueue i ty k v ws))"
        by (simp_all add: data_inv_def enqueue_def version_of_def)
    next
      fix bb assume p: "phases (enqueue i ty k v ws) j = Assigned bb"
      then have p': "phases ws j = Assigned bb" by (auto simp: enqueue_def split: if_splits)
      then have "version_of (enqueue i ty k v ws) ` set bb = version_of ws ` set bb" using same b [of j bb] by simp
      with p' q(2) show "numbered (enqueue i ty k v ws) bb" by (auto simp: data_inv_def numbered_def) (auto simp: enqueue_def)
    next
      fix bb assume "committed_of (phases (enqueue i ty k v ws) j) = Some bb"
      then have p': "committed_of (phases ws j) = Some bb" by (auto simp: enqueue_def split: if_splits)
      then have "version_of (enqueue i ty k v ws) ` set bb = version_of ws ` set bb" using same b [OF committed_batch] by simp
      with p' q(2) show "version_of (enqueue i ty k v ws) ` set bb \<subseteq> db_versions (wdb (enqueue i ty k v ws))"
        by (simp add: data_inv_def enqueue_def)
    }
  qed
  ultimately show ?thesis by (simp add: group_inv_def)
qed

lemma group_inv_follow:
  assumes "group_inv ws" "phases ws i = Waiting" "wr_done (requests ws i)"
  shows "group_inv (ws\<lparr>phases := (phases ws)(i := Returned)\<rparr>)"
proof -
  let ?ws = "ws\<lparr>phases := (phases ws)(i := Returned)\<rparr>"
  have q: "queue_inv ws" "data_inv ws" using assms(1) by (auto simp: group_inv_def)
  have i: "i \<notin> set (write_queue ws)" using q(1) assms(3) unfolding queue_inv_def by blast
  have "queue_inv ?ws" unfolding queue_inv_def
  proof (intro conjI ballI allI impI)
    fix j b assume "batch_of (phases ?ws j) = Some b"
    then have "batch_of (phases ws j) = Some b" by (auto split: if_splits)
    with q(1) show "b \<noteq> []" "\<exists>rest. write_queue ?ws = b @ rest" by (simp_all add: queue_inv_def)
  qed (use q(1) i in \<open>auto simp: queue_inv_def split: if_splits\<close>)
  moreover have "data_inv ?ws" unfolding data_inv_def
  proof (intro conjI allI impI)
    fix j assume "phases ?ws j \<in> {Waiting, Returned} \<and> j \<notin> set (write_queue ?ws)"
    then have "phases ws j \<in> {Waiting, Returned}" "j \<notin> set (write_queue ws)" using assms(2) by (auto split: if_splits)
    with q(2) show "wr_done (requests ?ws j)" "version_of ?ws j \<in> db_versions (wdb ?ws)" by (simp_all add: data_inv_def version_of_def)
  qed (use q(2) in \<open>auto simp: data_inv_def numbered_def version_of_def split: if_splits\<close>)
  ultimately show ?thesis by (simp add: group_inv_def)
qed

lemma update_requests_other: "j \<notin> set is \<Longrightarrow> update_requests is rs f j = f j"
proof -
  have "fold (\<lambda>(i, r) f. f(i := r)) ps f j = f j" if "j \<notin> fst ` set ps" for ps :: "(nat \<times> write_request) list" and f
    using that by (induction ps arbitrary: f) auto
  moreover assume "j \<notin> set is"
  then have "j \<notin> fst ` set (zip is rs)" by (auto dest: set_zip_leftD)
  ultimately show ?thesis by (simp add: update_requests_def)
qed

lemma update_requests_map:
  "distinct is \<Longrightarrow> length rs = length is \<Longrightarrow> map (update_requests is rs f) is = rs"
proof (induction "is" arbitrary: rs f)
  case (Cons i "is")
  then obtain r rs' where rs: "rs = r # rs'" by (cases rs) auto
  have "update_requests (i # is) rs f = update_requests is rs' (f(i := r))" by (simp add: update_requests_def rs)
  with Cons rs show ?case by (simp add: update_requests_other)
qed simp

lemma assign_done: "j < length rs \<Longrightarrow> wr_done (fst (assign_seqs rs n) ! j) = wr_done (rs ! j)"
  by (simp add: assign_seqs_spec)

lemma group_inv_lead:
  assumes "group_inv ws" "phases ws i = Waiting" "may_wake i ws" "\<not> wr_done (requests ws i)" "in_bounds ws"
  shows "group_inv (lead i ws)"
proof -
  have q: "queue_inv ws" "data_inv ws" using assms(1) by (auto simp: group_inv_def)
  let ?q = "write_queue ws" and ?n = "next_seq (wdb ws)"
  have hd: "?q \<noteq> []" "hd ?q = i" using assms(3,4) by (auto simp: may_wake_def)
  have other: "phases ws j \<in> {Idle, Waiting, Returned}" for j
    using queue_head(2) [OF q(1), of j] hd assms(2) by fastforce
  obtain rs n' where rs: "assign_seqs (map (requests ws) ?q) ?n = (rs, n')" by force
  have "unat ?n + length (map (requests ws) ?q) < 2 ^ 64" using assms(5) by (simp add: in_bounds_def)
  note a = assigned_entries [OF rs this]
  let ?f = "update_requests ?q rs (requests ws)"
  have lead: "lead i ws = ws\<lparr>wdb := (wdb ws)\<lparr>next_seq := n'\<rparr>, requests := ?f, phases := (phases ws)(i := Assigned ?q)\<rparr>"
    by (simp add: lead_def rs Let_def)
  have dist: "distinct ?q" using q(1) by (simp add: queue_inv_def)
  have f: "map ?f ?q = rs" "\<And>j. j \<notin> set ?q \<Longrightarrow> ?f j = requests ws j"
    using update_requests_map [OF dist] a(4) update_requests_other by auto
  have dn: "wr_done (?f j) = wr_done (requests ws j)" for j
  proof (cases "j \<in> set ?q")
    case True
    then obtain m where m: "m < length ?q" "j = ?q ! m" by (metis in_set_conv_nth)
    then have "?f j = rs ! m" using f(1) by (metis nth_map)
    then show ?thesis using m assign_done [of m "map (requests ws) ?q" ?n] rs by simp
  qed (simp add: f(2))
  have "queue_inv (ws\<lparr>wdb := wdb ws, phases := (phases ws)(i := Assigned ?q)\<rparr>)"
    by (rule queue_inv_phase [OF q(1)]) (use hd in auto)
  then have q': "queue_inv (lead i ws)" by (simp add: queue_inv_def lead dn)
  have ok: "db_ok ((wdb ws)\<lparr>next_seq := n'\<rparr>)" "db_versions ((wdb ws)\<lparr>next_seq := n'\<rparr>) = db_versions (wdb ws)"
    using db_ok_frame [of "wdb ws" "(wdb ws)\<lparr>next_seq := n'\<rparr>"] q(2) a(3) by (simp_all add: data_inv_def db_versions_def)
  have "version_of (lead i ws) ` set ?q = req_entry ` set rs" using arg_cong [OF f(1), of set] by (simp add: lead version_of_def image_image [symmetric])
  then have num: "numbered (lead i ws) ?q" using a(1,2) q(2) ok(2) unfolding numbered_def
    by (intro exI [of _ ?n]) (auto simp: lead data_inv_def db_ok_def)
  have "data_inv (lead i ws)" unfolding data_inv_def
  proof (intro conjI allI impI)
    fix j assume "phases (lead i ws) j \<in> {Waiting, Returned} \<and> j \<notin> set (write_queue (lead i ws))"
    then have "phases ws j \<in> {Waiting, Returned}" "j \<notin> set ?q" by (auto simp: lead split: if_splits)
    then show "wr_done (requests (lead i ws) j)" "version_of (lead i ws) j \<in> db_versions (wdb (lead i ws))"
      using q(2) f(2) ok(2) by (simp_all add: data_inv_def lead version_of_def)
  next
    fix j b assume "phases (lead i ws) j = Assigned b"
    then have "b = ?q" using other [of j] by (auto simp: lead split: if_splits)
    with num show "numbered (lead i ws) b" by simp
  next
    fix j b assume "committed_of (phases (lead i ws) j) = Some b"
    then show "version_of (lead i ws) ` set b \<subseteq> db_versions (wdb (lead i ws))" using other [of j] by (auto simp: lead split: if_splits)
  qed (use ok in \<open>simp add: lead\<close>)
  with q' show ?thesis by (simp add: group_inv_def)
qed

text \<open>The leader's later steps change the database and its own phase only.\<close>

lemma group_inv_leader:
  assumes "group_inv ws" "batch_of (phases ws i) = Some b"
    and "p = Thrown \<or> p \<in> {Applied b, Flushed b} \<and> version_of ws ` set b \<subseteq> db_versions d"
    and "db_ok d" "db_versions (wdb ws) \<subseteq> db_versions d"
  shows "group_inv (ws\<lparr>wdb := d, phases := (phases ws)(i := p)\<rparr>)"
proof -
  let ?ws = "ws\<lparr>wdb := d, phases := (phases ws)(i := p)\<rparr>"
  have q: "queue_inv ws" "data_inv ws" using assms(1) by (auto simp: group_inv_def)
  have ph: "phases ws i \<notin> {Idle, Waiting, Returned}" using assms(2) by auto
  note h = queue_head [OF q(1) ph]
  have "queue_inv ?ws"
  proof (rule queue_inv_phase [OF q(1) h(3,2)])
    fix b' assume "batch_of p = Some b'"
    then have "b' = b" using assms(3) by auto
    then show "b' \<noteq> [] \<and> (\<exists>rest. write_queue ws = b' @ rest)" using assms(2) q(1) by (simp add: queue_inv_def)
  qed (use assms(3) in auto)
  moreover have "data_inv ?ws" unfolding data_inv_def
  proof (intro conjI allI impI)
    fix j assume "phases ?ws j \<in> {Waiting, Returned} \<and> j \<notin> set (write_queue ?ws)"
    then have "phases ws j \<in> {Waiting, Returned}" "j \<notin> set (write_queue ws)" using assms(3) by (auto split: if_splits)
    with q(2) assms(5) show "wr_done (requests ?ws j)" "version_of ?ws j \<in> db_versions (wdb ?ws)"
      by (auto simp: data_inv_def version_of_def)
  next
    fix j b' assume "phases ?ws j = Assigned b'"
    then show "numbered ?ws b'" using h(4) [of j] assms(3) by (auto split: if_splits)
  next
    fix j b' assume "committed_of (phases ?ws j) = Some b'"
    then have "j = i" "b' = b" "p \<noteq> Thrown" using h(4) [of j] assms(3) by (auto split: if_splits)
    then show "version_of ?ws ` set b' \<subseteq> db_versions (wdb ?ws)" using assms(3) by (auto simp: version_of_def)
  qed (use assms(4) in simp)
  ultimately show ?thesis by (simp add: group_inv_def)
qed

lemma group_inv_commit:
  assumes "group_inv ws" "phases ws i = Assigned b" "length coins = length b"
  shows "group_inv (commit rs ok coins i b ws)"
proof -
  let ?batch = "zip coins (map (requests ws) b)"
  have d: "db_ok (wdb ws)" "numbered ws b" using assms(1,2) by (auto simp: group_inv_def data_inv_def)
  have ents: "req_entry ` snd ` set ?batch = version_of ws ` set b"
  proof -
    have "map snd ?batch = map (requests ws) b" using assms(3) by simp
    then have "snd ` set ?batch = requests ws ` set b" by (metis list.set_map)
    then show ?thesis by (simp add: version_of_def image_image)
  qed
  obtain n where n: "\<forall>e \<in> db_versions (wdb ws). eseq e < n" "unique_versions (version_of ws ` set b)"
    "\<forall>e \<in> version_of ws ` set b. n \<le> eseq e \<and> eseq e < next_seq (wdb ws)" using d(2) by (auto simp: numbered_def)
  obtain r d' where c: "commit_batch rs ok ?batch (wdb ws) = (r, d')" by force
  note cb = commit_batch_ok(1,2) [OF d(1) n(1) _ _ c, unfolded ents, OF n(2,3)]
  have "group_inv (ws\<lparr>wdb := d', phases := (phases ws)(i := (case r of Inl _ \<Rightarrow> Thrown | Inr _ \<Rightarrow> Applied b))\<rparr>)"
    using cb assms(2) by (intro group_inv_leader [OF assms(1)]) (auto split: sum.splits)
  then show ?thesis using c by (simp add: commit_def split: sum.splits)
qed

lemma group_inv_flush:
  assumes "group_inv ws" "phases ws i = Applied b" "complete_opens io" "in_bounds ws"
  shows "group_inv (leader_flush io i b ws)"
proof -
  have d: "db_ok (wdb ws)" "version_of ws ` set b \<subseteq> db_versions (wdb ws)"
    using assms(1,2) data_inv_committed [of ws i b] by (simp_all add: group_inv_def data_inv_def)
  obtain r d' where f: "maybe_flush io (wdb ws) = (r, d')" by force
  have "opens (fio_table io)" "table_fit (mt_versions (mtable (wdb ws)))"
    using assms(3,4) by (simp_all add: complete_opens_def opens_def in_bounds_def)
  note mf = maybe_flush_ok [OF d(1) f this]
  have "group_inv (ws\<lparr>wdb := d', phases := (phases ws)(i := (case r of Inl _ \<Rightarrow> Thrown | Inr _ \<Rightarrow> Flushed b))\<rparr>)"
    using mf d(2) assms(2) by (intro group_inv_leader [OF assms(1)]) (auto split: sum.splits)
  then show ?thesis using f by (simp add: leader_flush_def split: sum.splits)
qed

lemma group_inv_finish:
  assumes "group_inv ws" "phases ws i = Flushed b"
  shows "group_inv (finish_batch i b ws)"
proof -
  let ?ws = "finish_batch i b ws"
  have q: "queue_inv ws" "data_inv ws" using assms(1) by (auto simp: group_inv_def)
  have ph: "phases ws i \<notin> {Idle, Waiting, Returned}" using assms(2) by auto
  note h = queue_head [OF q(1) ph]
  have "batch_of (phases ws i) = Some b" using assms(2) by simp
  then obtain rest where b: "b \<noteq> []" "write_queue ws = b @ rest" using q(1) unfolding queue_inv_def by blast
  have i: "i \<in> set b" using h(2) b by simp
  have dist: "distinct (b @ rest)" using q(1) b(2) by (simp add: queue_inv_def)
  have vs: "version_of ws ` set b \<subseteq> db_versions (wdb ws)" using data_inv_committed [OF q(2), of i b] assms(2) by simp
  have fields: "write_queue ?ws = rest" "wdb ?ws = wdb ws" "\<And>j. version_of ?ws j = version_of ws j" "phases ?ws = (phases ws)(i := Returned)"
    "\<And>j. wr_done (requests ?ws j) = (j \<in> set b \<or> wr_done (requests ws j))"
    using b(2) by (auto simp: finish_batch_def version_of_def req_entry_def)
  have ph': "phases ?ws j \<in> {Idle, Waiting, Returned}" for j using h(4) [of j] by (auto simp: fields)
  have "queue_inv ?ws" unfolding queue_inv_def
  proof (intro conjI ballI allI impI)
    fix j assume "j \<in> set (write_queue ?ws)"
    then have j: "j \<in> set rest" "j \<notin> set b" "j \<noteq> i" using dist i by (auto simp: fields)
    then have "j \<in> set (write_queue ws)" using b(2) by simp
    with q(1) have pj: "\<not> wr_done (requests ws j)" "phases ws j \<notin> {Idle, Returned}" unfolding queue_inv_def by blast+
    then show "\<not> wr_done (requests ?ws j)" "phases ?ws j \<notin> {Idle, Returned}" using j by (auto simp: fields)
    assume "phases ?ws j \<noteq> Waiting"
    with ph' [of j] pj j show "j = hd (write_queue ?ws)" by (auto simp: fields)
  next
    fix j b' assume "batch_of (phases ?ws j) = Some b'"
    then show "b' \<noteq> []" "\<exists>rest. write_queue ?ws = b' @ rest" using ph' [of j] by auto
  qed (use ph' dist in \<open>auto simp: fields\<close>)
  moreover have "data_inv ?ws" unfolding data_inv_def
  proof (intro conjI allI impI)
    fix j assume j: "phases ?ws j \<in> {Waiting, Returned} \<and> j \<notin> set (write_queue ?ws)"
    have "wr_done (requests ?ws j) \<and> version_of ws j \<in> db_versions (wdb ws)"
    proof (cases "j \<in> set b")
      case True
      then show ?thesis using vs by (auto simp: fields)
    next
      case False
      then have "phases ws j \<in> {Waiting, Returned}" "j \<notin> set (write_queue ws)" using j i b(2) by (auto simp: fields split: if_splits)
      then show ?thesis using q(2) unfolding data_inv_def by (auto simp: fields)
    qed
    then show "wr_done (requests ?ws j)" "version_of ?ws j \<in> db_versions (wdb ?ws)" by (simp_all add: fields)
  next
    fix j b' assume "phases ?ws j = Assigned b'" then show "numbered ?ws b'" using ph' [of j] by auto
  next
    fix j b' assume "committed_of (phases ?ws j) = Some b'" then show "version_of ?ws ` set b' \<subseteq> db_versions (wdb ?ws)" using ph' [of j] by auto
  qed (use q(2) in \<open>simp add: data_inv_def fields\<close>)
  ultimately show ?thesis by (simp add: group_inv_def)
qed

lemma get_snapshot_ok:
  assumes "db_ok d"
  shows "db_ok (snd (get_snapshot d))" "db_versions (snd (get_snapshot d)) = db_versions d" "next_seq (snd (get_snapshot d)) = next_seq d"
  using db_ok_frame [OF assms, of "snd (get_snapshot d)"] by (simp_all add: get_snapshot_def Let_def db_versions_def)

lemma release_snapshot_ok:
  assumes "db_ok d"
  shows "db_ok (release_snapshot s d)" "db_versions (release_snapshot s d) = db_versions d" "next_seq (release_snapshot s d) = next_seq d"
  using db_ok_frame [OF assms, of "release_snapshot s d"] by (simp_all add: release_snapshot_def db_versions_def)

lemma wstep_inv:
  assumes "wstep ws ws'" "group_inv ws" "in_bounds ws"
  shows "group_inv ws'"
  using assms
proof (cases rule: wstep.cases)
  case (user_flush io)
  have ok: "db_ok (wdb ws)" using assms(2) by (simp add: group_inv_def data_inv_def)
  obtain r d' where f: "flush io (wdb ws) = (r, d')" by force
  have "opens (fio_table io)" "table_fit (mt_versions (mtable (wdb ws)))"
    using user_flush(2) assms(3) by (simp_all add: complete_opens_def opens_def in_bounds_def)
  from flush_ok [OF ok f this] user_flush(1) f show ?thesis using group_inv_db [OF assms(2)] by simp
next
  case snapshot
  then show ?thesis using get_snapshot_ok group_inv_db [OF assms(2)] assms(2) by (simp add: group_inv_def data_inv_def)
next
  case release
  then show ?thesis using release_snapshot_ok group_inv_db [OF assms(2)] assms(2) by (simp add: group_inv_def data_inv_def)
qed (simp_all add: group_inv_enqueue group_inv_follow group_inv_lead group_inv_commit group_inv_flush group_inv_finish)

lemma wreach_inv: "wreach d ws \<Longrightarrow> db_ok d \<Longrightarrow> group_inv ws"
  by (induction rule: wreach.induct) (auto intro: group_inv_start wstep_inv)

section \<open>What a returned write is promised\<close>

lemma returned_version:
  assumes "group_inv ws" "phases ws i = Returned"
  shows "db_ok (wdb ws)" "version_of ws i \<in> db_versions (wdb ws)"
proof -
  have q: "queue_inv ws" "data_inv ws" using assms(1) by (auto simp: group_inv_def)
  have "i \<notin> set (write_queue ws)" using q(1) assms(2) unfolding queue_inv_def by blast
  with q(2) assms(2) show "db_ok (wdb ws)" "version_of ws i \<in> db_versions (wdb ws)" by (simp_all add: data_inv_def)
qed

lemma own_newest:
  assumes "e \<in> es"
  shows "newest es (ekey e) (eseq e) e"
  using assms by (auto simp: newest_def visible_def)

text \<open>
  C16. Group commit: in every interleaving of writers, leaders, flushes and snapshots, the database keeps
  its invariant, and when a call of \<open>put\<close> or \<open>del\<close> has returned, its version is in the database: a read at
  the sequence number its leader gave it returns what it wrote.
\<close>

theorem group_commit_returned:
  assumes "db_ok d" "wreach d ws" "phases ws i = Returned"
  shows "db_ok (wdb ws) \<and> map_option fst (get_impl no_error (wr_key (requests ws i)) (wr_seq (requests ws i)) (wdb ws)) =
    Some (Inr (if wr_type (requests ws i) = Put then Some (wr_value (requests ws i)) else None))"
proof -
  note r = returned_version [OF wreach_inv [OF assms(2,1)] assms(3)]
  have "newest (db_versions (wdb ws)) (wr_key (requests ws i)) (wr_seq (requests ws i)) (version_of ws i)"
    using own_newest [OF r(2)] by (simp add: version_of_def req_entry_def)
  from get_of_newest [OF r(1) this] r(1) show ?thesis
    by (cases "wr_type (requests ws i) = Put") (simp_all add: version_of_def req_entry_def)
qed

text \<open>One write by thread 0, alone.\<close>

lemma ex_empty_fit: "table_fit []"
  using ex_one_fit unfolding table_fit_def image_length
  by (simp add: no_straddle_def blocks_image_def index_image_def bloom_serialize_length bloom_of_keys_length bloom_new_def kFooterSize_def)

definition ex_queued :: writers where "ex_queued = enqueue 0 Put [1] [9] (no_writers ex_db)"
definition ex_assigned :: writers where "ex_assigned = lead 0 ex_queued"

lemma ex_assigned_fields:
  "wdb ex_assigned = ex_db\<lparr>next_seq := 8\<rparr>" "write_queue ex_assigned = [0]" "phases ex_assigned 0 = Assigned [0]"
  "requests ex_assigned 0 = \<lparr>wr_type = Put, wr_key = [1], wr_value = [9], wr_done = False, wr_seq = 7\<rparr>"
  by (simp_all add: ex_assigned_def ex_queued_def lead_def enqueue_def no_writers_def update_requests_def Let_def) (simp_all add: ex_db_def)

lemma ex_in_bounds:
  "in_bounds (no_writers ex_db)" "in_bounds ex_queued" "in_bounds ex_assigned"
  by (simp_all add: in_bounds_def ex_assigned_fields ex_empty_fit ex_queued_def no_writers_def enqueue_def)
    (simp_all add: ex_db_def mt_versions_new kMemtableHeight_def ex_empty_fit)

lemma ex_reach: "wreach ex_db ex_assigned"
proof -
  have "wreach ex_db ex_queued" unfolding ex_queued_def
    by (rule wreach.step [OF wreach.start ex_in_bounds(1)], rule wstep.enq) (simp_all add: no_writers_def)
  then show ?thesis unfolding ex_assigned_def
    by (rule wreach.step [OF _ ex_in_bounds(2)], intro wstep.lead) (simp_all add: ex_queued_def enqueue_def no_writers_def may_wake_def)
qed

theorem group_commit_returned_witness:
  "\<exists>ws. wreach ex_db ws \<and> phases ws 0 = Returned \<and> map_option fst (get_impl no_error [1] 7 (wdb ws)) = Some (Inr (Some [9]))"
proof -
  obtain m where m: "apply_batch [([True], \<lparr>wr_type = Put, wr_key = [1], wr_value = [9], wr_done = False, wr_seq = 7\<rparr>)] (mtable ex_db) = Some m"
    "mt_versions m = [\<lparr>ekey = [1], evalue = [9], etomb = False, eseq = 7\<rparr>]" "db_ok (ex_db\<lparr>mtable := m, next_seq := 8\<rparr>)" by (rule ex_write)
  have ap: "approx_bytes m < 4 * 1024 * 1024" using m(2,3) by (simp add: db_ok_def mem_sized_def write_bytes_def kNodeOverhead_def)
  define ws3 where "ws3 = commit [] True [[True]] 0 [0] ex_assigned"
  have ws3: "mtable (wdb ws3) = m" "next_seq (wdb ws3) = 8" "opts (wdb ws3) = default_options" "phases ws3 0 = Applied [0]" "write_queue ws3 = [0]"
      "requests ws3 0 = \<lparr>wr_type = Put, wr_key = [1], wr_value = [9], wr_done = False, wr_seq = 7\<rparr>"
    using m(1) by (simp_all add: ws3_def commit_def ex_assigned_fields commit_batch_def append_batch_def wal_write_def file_write_def write_fully_Nil)
      (simp_all add: ex_db_def wal_open_def)
  define ws4 where "ws4 = leader_flush ex_io 0 [0] ws3"
  have ws4: "ws4 = ws3\<lparr>wdb := wdb ws3, phases := (phases ws3)(0 := Flushed [0])\<rparr>"
    using ap ws3 by (simp add: ws4_def leader_flush_def maybe_flush_def default_options_def)
  have b3: "in_bounds ws3" "in_bounds ws4" using ws3 m(2) ex_one_fit by (simp_all add: in_bounds_def ws4)
  have "wreach ex_db ws3" unfolding ws3_def
    by (rule wreach.step [OF ex_reach ex_in_bounds(3)], rule wstep.commit) (simp_all add: ex_assigned_fields)
  then have "wreach ex_db ws4" unfolding ws4_def
    by (rule wreach.step [OF _ b3(1)], intro wstep.flush) (simp_all add: ws3 complete_opens_def ex_io_def)
  then have r5: "wreach ex_db (finish_batch 0 [0] ws4)"
    by (rule wreach.step [OF _ b3(2)], intro wstep.finish) (simp add: ws4)
  have p5: "phases (finish_batch 0 [0] ws4) 0 = Returned" by (simp add: finish_batch_def)
  have "requests (finish_batch 0 [0] ws4) 0 = \<lparr>wr_type = Put, wr_key = [1], wr_value = [9], wr_done = True, wr_seq = 7\<rparr>"
    by (simp add: finish_batch_def ws4 ws3)
  with group_commit_returned [OF ex_db_ok r5 p5] r5 p5 show ?thesis by auto
qed

section \<open>Progress\<close>




section \<open>An exception in the leader\<close>







section \<open>Snapshots while a batch is on its way\<close>

lemma less_le_pred: "(x :: u64) < y \<Longrightarrow> x \<le> y - 1"
  by uint_arith

text \<open>
  C21. A snapshot is not stable: the leader takes the sequence numbers of its batch before it applies it, and
  a snapshot taken in between already covers them. The key then reads differently through that
  snapshot before and after the batch is applied.
\<close>

theorem snapshot_not_stable:
  assumes "db_ok d" "wreach d ws" "phases ws i = Assigned [i]" "get_snapshot (wdb ws) = (s, d1)"
    and "commit_batch rs ok [(c, requests ws i)] d1 = (Inr (), d2)" "wr_type (requests ws i) = Put"
    and "map_option fst (get_impl no_error (wr_key (requests ws i)) s d1) \<noteq> Some (Inr (Some (wr_value (requests ws i))))"
  shows "s \<in> set (live_snapshots d1) \<and>
    map_option fst (get_impl no_error (wr_key (requests ws i)) s d2) = Some (Inr (Some (wr_value (requests ws i)))) \<and>
    map_option fst (get_impl no_error (wr_key (requests ws i)) s d2) \<noteq> map_option fst (get_impl no_error (wr_key (requests ws i)) s d1)"
proof -
  have inv: "data_inv ws" using wreach_inv [OF assms(2,1)] by (simp add: group_inv_def)
  then have ok: "db_ok (wdb ws)" "numbered ws [i]" using assms(3) by (auto simp: data_inv_def)
  let ?e = "version_of ws i"
  obtain n where n: "\<forall>e \<in> db_versions (wdb ws). eseq e < n" "n \<le> eseq ?e" "eseq ?e < next_seq (wdb ws)"
    using ok(2) by (auto simp: numbered_def)
  have d1: "db_ok d1" "db_versions d1 = db_versions (wdb ws)" "next_seq d1 = next_seq (wdb ws)" "s = next_seq (wdb ws) - 1"
    using get_snapshot_ok [OF ok(1)] assms(4) by (auto simp: get_snapshot_def Let_def)
  have e: "req_entry (requests ws i) = ?e" by (simp add: version_of_def)
  have "unique_versions {?e}" by (simp add: unique_versions_def)
  with commit_batch_ok [OF d1(1) _ _ _ assms(5), of n] n d1
  have d2: "db_ok d2" "db_versions d2 = insert ?e (db_versions (wdb ws))" by (simp_all add: e)
  have "eseq ?e \<le> s" using less_le_pred [OF n(3)] unfolding d1(4) .
  then have "newest (db_versions d2) (ekey ?e) s ?e" unfolding newest_def visible_def d2(2) using n by (fastforce dest: less_imp_le)
  from get_of_newest [OF d2(1) this] have "map_option fst (get_impl no_error (wr_key (requests ws i)) s d2) =
      Some (Inr (Some (wr_value (requests ws i))))" using assms(6) by (simp add: version_of_def req_entry_def)
  moreover have "s \<in> set (live_snapshots d1)" using assms(4) by (auto simp: get_snapshot_def Let_def)
  ultimately show ?thesis using assms(7) by metis
qed

theorem snapshot_not_stable_witness:
  "\<exists>s d1 d2. get_snapshot (wdb ex_assigned) = (s, d1) \<and> commit_batch [] True [([True], requests ex_assigned 0)] d1 = (Inr (), d2) \<and>
     map_option fst (get_impl no_error [1] s d2) \<noteq> map_option fst (get_impl no_error [1] s d1)"
proof -
  obtain m where m: "apply_batch [([True], requests ex_assigned 0)] (mtable ex_db) = Some m"
    unfolding ex_assigned_fields by (rule ex_write)
  define d1 where "d1 = snd (get_snapshot (wdb ex_assigned))"
  have s: "get_snapshot (wdb ex_assigned) = (7, d1)" by (simp add: d1_def get_snapshot_def ex_assigned_fields)
  have d1: "mtable d1 = mtable ex_db" "db_wal d1 = db_wal ex_db" by (simp_all add: d1_def get_snapshot_def ex_assigned_fields Let_def)
  obtain d2 where d2: "commit_batch [] True [([True], requests ex_assigned 0)] d1 = (Inr (), d2)"
    using m by (simp add: commit_batch_def d1 append_batch_def wal_write_def file_write_def write_fully_Nil)
  have ok: "db_ok d1" "db_versions d1 = set ex_entries"
    using get_snapshot_ok [OF db_ok_frame(1) [OF ex_db_ok], of "ex_db\<lparr>next_seq := 8\<rparr>"] db_ok_frame(2) [OF ex_db_ok, of "ex_db\<lparr>next_seq := 8\<rparr>"]
    by (simp_all add: d1_def ex_assigned_fields db_versions_def ex_db_runs) (simp_all add: ex_db_def)
  have "newest (db_versions d1) [1] 7 \<lparr>ekey = [1], evalue = [2], etomb = False, eseq = 5\<rparr>"
    unfolding ok(2) by (auto simp: newest_def visible_def ex_entries_def)
  from get_of_newest [OF ok(1) this] have "map_option fst (get_impl no_error [1] 7 d1) = Some (Inr (Some [2]))" by simp
  with snapshot_not_stable [OF ex_db_ok ex_reach ex_assigned_fields(3) s d2] s d2 show ?thesis by (simp only: ex_assigned_fields) auto
qed

end
