(* ===== verification/Compact_Spec.thy ===== *)
theory Compact_Spec
  imports Compact_Commit Db_Group
begin

text \<open>
  The compaction as a whole: no round changes a read, however writes and flushes interleave with it;
  \<open>compact\<close> ends in one level, unless every version is dropped, and then never returns; and
  what happens when a key is split over two output files.
\<close>

section \<open>A round\<close>

definition job_pieces :: "nat \<Rightarrow> compaction_job \<Rightarrow> u64 \<Rightarrow> entry list list" where
  "job_pieces limit job old = split_outputs limit [] 0 (keep_list old (is_bottommost job) ([], False) (job_versions job))"

lemma job_pieces_entries:
  "concat (job_pieces limit job old) = keep_list old (is_bottommost job) ([], False) (job_versions job)"
  "[] \<notin> set (job_pieces limit job old)" "ent_sorted (concat (job_pieces limit job old))"
  "set (concat (job_pieces limit job old)) \<subseteq> set (concat (map fm_entries (job_inputs job)))"
  using keep_list_sub [of old "is_bottommost job" "([], False)" "job_versions job"]
  by (simp_all add: job_pieces_def concat_split_outputs split_outputs_nonempty keep_list_sorted job_versions_def merged_spec)

lemma fm_entries_stored: "fm_ok fm \<Longrightarrow> e \<in> set (fm_entries fm) \<Longrightarrow> stored e = e"
  by (elim fm_okE) auto

lemma writing_start: "writing ios num [] 0 0 (merge_start dk)" "ms_keep (merge_start dk) = ([], False)" "outputs (merge_start dk) = []"
  by (simp_all add: writing_def merge_start_def)

text \<open>The output files of a merge that ended without exception.\<close>

lemma merge_outputs:
  assumes "top_ok merge_source_ops pick" "\<forall>fm \<in> set (job_inputs job). fm_ok fm" "unique_versions (set (concat (map fm_entries (job_inputs job))))"
    and "merge_inputs pick (\<lambda>_. healthy) ios num limit job old dk = Some (Inr st)" "\<forall>n. opens (ios n)" "pieces_fit (job_pieces limit job old)"
  shows "map fm_entries (outputs st) = job_pieces limit job old" "map fm_number (outputs st) = map num [0..<length (outputs st)]"
    "ms_started st = length (outputs st)" "disjoint_files (outputs st)" "\<forall>fm \<in> set (outputs st). fm_ok fm \<and> has_source (fm_table fm)"
    "\<forall>fm \<in> set (outputs st). fm_smallest fm \<in> ekey ` set (fm_entries fm) \<and> fm_largest fm \<in> ekey ` set (fm_entries fm)"
proof -
  let ?p = "job_pieces limit job old" and ?fs = "outputs st"
  have "merge_list ios num limit job old (job_versions job) (merge_start dk) = Inr st" using merge_inputs_list [OF assms(1-3)] assms(4) by simp
  from merge_list_made [OF writing_start(1) this]
  have made: "made_all ios num (output_level job) 0 ?p ?fs" and "ms_started st = length ?fs" by (simp_all add: writing_start job_pieces_def)
  have "\<forall>e \<in> set (concat (map fm_entries (job_inputs job))). stored e = e" using assms(2) fm_entries_stored by auto
  with job_pieces_entries(4) [of limit job old] have "\<forall>e \<in> set (concat ?p). stored e = e" by blast
  note m = made_all_ok [OF made assms(5,6) job_pieces_entries(2,3) this]
  show "ms_started st = length ?fs" by fact
  show ents: "map fm_entries ?fs = ?p" and "disjoint_files ?fs" "\<forall>fm \<in> set ?fs. fm_ok fm \<and> has_source (fm_table fm)"
    using m by (auto simp: has_source_def)
  from ents have len: "length ?p = length ?fs" by (metis length_map)
  show "map fm_number ?fs = map num [0..<length ?fs]" using m len by simp
  show "\<forall>fm \<in> set ?fs. fm_smallest fm \<in> ekey ` set (fm_entries fm) \<and> fm_largest fm \<in> ekey ` set (fm_entries fm)"
  proof
    fix fm assume "fm \<in> set ?fs"
    then obtain i where i: "i < length ?fs" "fm = ?fs ! i" by (auto simp: in_set_conv_nth)
    have "map fm_smallest ?fs ! i = map (\<lambda>ch. ekey (hd ch)) ?p ! i" "map fm_largest ?fs ! i = map (\<lambda>ch. ekey (last ch)) ?p ! i"
        "map fm_entries ?fs ! i = ?p ! i" using m by simp_all
    then have "fm_smallest fm = ekey (hd (fm_entries fm))" "fm_largest fm = ekey (last (fm_entries fm))" using i len by simp_all
    moreover have "fm_entries fm \<noteq> []" using i m by (auto simp: fm_ok_def)
    ultimately show "fm_smallest fm \<in> ekey ` set (fm_entries fm) \<and> fm_largest fm \<in> ekey ` set (fm_entries fm)" by simp
  qed
qed

lemma oldest_live: "s \<in> set snaps \<Longrightarrow> oldest_live_snapshot snaps \<le> s"
proof -
  have "fold min xs a \<le> a \<and> (\<forall>x \<in> set xs. fold min xs a \<le> x)" for xs and a :: u64
  proof (induction xs arbitrary: a)
    case (Cons x xs)
    from Cons [of "min x a"] show ?case by (auto simp: min_le_iff_disj intro: order.trans [OF _ min.cobounded1] order.trans [OF _ min.cobounded2])
  qed simp
  then show "s \<in> set snaps \<Longrightarrow> oldest_live_snapshot snaps \<le> s" by (cases snaps) (auto simp: oldest_live_snapshot_def)
qed

text \<open>The numbers of the outputs: given out once, and known to nobody else.\<close>

definition fresh_numbers :: "db \<Rightarrow> file_meta list \<Rightarrow> bool" where
  "fresh_numbers d fms \<longleftrightarrow> (\<forall>n \<in> fm_number ` set fms. n < next_sst_number d \<and>
     n \<notin> fm_number ` set (ver_files (current_version d)) \<and> n \<notin> cached_numbers (cache d))"

lemma job_inputs_ok:
  assumes "db_ok d" "job_shape (current_version d) job"
  shows "\<forall>fm \<in> set (job_inputs job). fm_ok fm" "unique_versions (set (concat (map fm_entries (job_inputs job))))"
proof -
  have sub: "set (job_inputs job) \<subseteq> set (ver_files (current_version d))" using assms(2) by (auto simp: job_shape_def)
  then have "set (concat (map fm_entries (job_inputs job))) \<subseteq> db_versions d" unfolding db_versions_files by auto
  then show "unique_versions (set (concat (map fm_entries (job_inputs job))))" using assms(1) unfolding db_ok_def unique_versions_def by blast
  show "\<forall>fm \<in> set (job_inputs job). fm_ok fm" using sub assms(1) by (auto simp: db_ok_def version_ok_def)
qed

lemma merge_outputs_ok:
  assumes "db_ok d" "job_shape (current_version d) job" "top_ok merge_source_ops pick" "\<forall>n. opens (ios n)" "pieces_fit (job_pieces limit job old)"
    and "merge_inputs pick (\<lambda>_. healthy) ios num limit job old dk = Some (Inr st)" "inj num" "fresh_numbers d (outputs st)"
  shows "outputs_ok (current_version d) job (outputs st)"
proof -
  note m = merge_outputs [OF assms(3) job_inputs_ok [OF assms(1,2)] assms(6,4,5)]
  have "distinct (map fm_number (outputs st))" unfolding m(2) using inj_on_subset [OF assms(7) subset_UNIV] by (simp add: distinct_map)
  then show ?thesis using m assms(8) job_pieces_entries(4) [of limit job old] unfolding outputs_ok_def fresh_numbers_def m(1) [symmetric] by auto
qed

lemma commit_outputs:
  assumes "db_ok d" "job_shape (current_version d) job" "top_ok merge_source_ops pick" "\<forall>n. opens (ios n)" "pieces_fit (job_pieces limit job old)"
    and "merge_inputs pick (\<lambda>_. healthy) ios num limit job old dk = Some (Inr st)" "inj num" "fresh_numbers d (outputs st)"
    and "commit_round rs ok job st d = Inr d'"
  shows "db_ok d'" "old \<le> s \<or> (\<forall>x \<in> set (job_versions job). eseq x \<le> s) \<Longrightarrow>
    map_option fst (get_impl no_error k s d') = map_option fst (get_impl no_error k s d)"
proof -
  let ?ver = "current_version d" and ?fs = "outputs st"
  note m = merge_outputs [OF assms(3) job_inputs_ok [OF assms(1,2)] assms(6,4,5)]
  have oks: "outputs_ok ?ver job ?fs" by (rule merge_outputs_ok [OF assms(1-8)])
  have K: "set (concat (map fm_entries ?fs)) = set (keep_list old (is_bottommost job) ([], False) (job_versions job))"
    unfolding m(1) by (simp only: job_pieces_entries(1))
  have new: "\<forall>fm \<in> set ?fs. has_source (fm_table fm) \<and> fm_number fm < next_sst_number d \<and> fm_number fm \<notin> cached_numbers (cache d)"
    using m(5) assms(8) by (auto simp: fresh_numbers_def)
  have "db_ok d' \<and> (old \<le> s \<or> (\<forall>x \<in> set (job_versions job). eseq x \<le> s) \<longrightarrow>
      map_option fst (get_impl no_error k s d') = map_option fst (get_impl no_error k s d))" for k s
  proof (cases "?fs = []")
    case True
    then have d': "current_version d' = current_version d" "mtable d' = mtable d" "cache d' = cache d" "next_seq d' = next_seq d" "next_sst_number d' = next_sst_number d"
      using assms(9) by (auto simp: commit_round_def)
    note fr = db_ok_frame [OF assms(1) d'(1-3)]
    have "db_ok d'" "db_runs d' = db_runs d" using fr d'(4,5) by simp_all
    then show ?thesis using get_same_visible [OF assms(1)] by (auto simp: db_versions_def)
  next
    case False
    then have d': "current_version d' = replace_files job ?fs ?ver" "mtable d' = mtable d" "cache d' = cache d" "next_seq d' = next_seq d" "next_sst_number d' = next_sst_number d"
      using assms(9) by (auto simp: commit_round_def Let_def split: option.splits prod.splits)
    show ?thesis using commit_keeps [OF assms(1,2) oks K new d'] by blast
  qed
  then show "db_ok d'" "old \<le> s \<or> (\<forall>x \<in> set (job_versions job). eseq x \<le> s) \<Longrightarrow>
    map_option fst (get_impl no_error k s d') = map_option fst (get_impl no_error k s d)" by blast+
qed

text \<open>The snapshots a reader can have: live at the choice of the job, or taken later.\<close>

lemma snapshot_bound:
  assumes "db_ok d0" "job_shape (current_version d0) job" "old = oldest_live_snapshot (live_snapshots d0)"
    and "s \<in> set (live_snapshots d0) \<or> next_seq d0 - 1 \<le> s"
  shows "old \<le> s \<or> (\<forall>x \<in> set (job_versions job). eseq x \<le> s)"
proof (cases "s \<in> set (live_snapshots d0)")
  case True
  then show ?thesis using oldest_live assms(3) by simp
next
  case False
  have "eseq x \<le> s" if "x \<in> set (job_versions job)" for x
  proof -
    have "x \<in> db_versions d0" using that assms(2) unfolding db_versions_files job_versions_def merged_spec job_shape_def by auto
    then have "eseq x < next_seq d0" using assms(1) by (simp add: db_ok_def)
    from order.trans [OF less_le_pred [OF this]] False assms(4) show ?thesis by blast
  qed
  then show ?thesis by blast
qed

section \<open>compact\<close>

lemma begin_round_job:
  assumes "begin_round d = (Some (job, old), d')"
  shows "job = pick_compaction (force_compact d) (opts d) (current_version d)" "job_inputs job \<noteq> []"
    "old = oldest_live_snapshot (live_snapshots d)" "d' = d\<lparr>compaction_pending := False, compaction_running := True\<rparr>"
  using assms by (auto simp: begin_round_def Let_def split: if_splits)

text \<open>The job of a forced round: everything, to level 1.\<close>

definition full_job :: "version \<Rightarrow> compaction_job" where
  "full_job ver = \<lparr>output_level = 1, job_inputs = ver_files ver, is_bottommost = True\<rparr>"

lemma total_file_count_files: "total_file_count ver = length (ver_files ver)"
  by (simp add: total_file_count_def ver_files_def length_concat comp_def)

lemma forced_job:
  assumes "\<not> compact_done ver"
  shows "2 \<le> length (ver_files ver)" "pick_compaction True os ver = full_job ver"
  using assms by (auto simp: compact_done_def total_file_count_files pick_compaction_def full_job_def ver_files_def Let_def)

lemma begin_forced:
  assumes "force_compact d" "\<not> compact_done (current_version d)"
  shows "begin_round d = (Some (full_job (current_version d), oldest_live_snapshot (live_snapshots d)),
    d\<lparr>compaction_pending := False, compaction_running := True\<rparr>)"
  using forced_job(1) [OF assms(2)] forced_job(2) [OF assms(2), of "opts d"] assms(1) by (auto simp: begin_round_def Let_def) (auto simp: full_job_def)

lemma full_shape:
  assumes "version_ok ver" "\<not> compact_done ver"
  shows "job_shape ver (full_job ver)"
proof -
  have sub: "set (files ver l) \<subseteq> set (ver_files ver)" if "l < kMaxLevels" for l using that by (auto simp: in_ver_files)
  have "\<exists>olds extra. files ver 0 = olds @ extra \<and> set olds \<subseteq> set (ver_files ver) \<and> set extra \<inter> set (ver_files ver) = {} \<and> ((1::nat) < 1 \<longrightarrow> olds = [])"
    using sub [of 0] by (intro exI [of _ "files ver 0"] exI [of _ "[]"]) simp
  then show ?thesis unfolding job_shape_def full_job_def compaction_job.simps using sub by (simp add: Diff_eq_empty_iff [THEN iffD2])
qed

lemma full_done: "version_ok ver \<Longrightarrow> \<not> compact_done ver \<Longrightarrow> compact_done (replace_files (full_job ver) outs ver)"
proof -
  assume ver: "version_ok ver" "\<not> compact_done ver"
  have "set (job_inputs (full_job ver)) \<subseteq> set (ver_files ver)" "1 \<le> output_level (full_job ver)" by (simp_all add: full_job_def)
  note lev = replace_files_level [OF ver(1) this]
  have none: "files (replace_files (full_job ver) outs ver) l = []" if "l \<noteq> 1" "l < kMaxLevels" for l
    using lev [OF that(2)] that by (auto simp: full_job_def without_def in_ver_files filter_empty_conv)
  have "filter (\<lambda>l. files (replace_files (full_job ver) outs ver) l \<noteq> []) [1..<kMaxLevels] = filter (\<lambda>l. l = 1 \<and> files (replace_files (full_job ver) outs ver) l \<noteq> []) [1..<kMaxLevels]"
    using none by (intro filter_cong) auto
  also have "length \<dots> \<le> 1" by (simp add: upt_levels)
  finally show ?thesis using none [of 0] by (simp add: compact_done_def)
qed

text \<open>If every version is dropped, the merge starts no file.\<close>

lemma merge_list_none:
  assumes "keep_list old (is_bottommost job) (ms_keep st) es = []" "ms_writer st = None"
  shows "\<exists>ks. merge_list ios num limit job old es st = Inr (st\<lparr>ms_keep := ks\<rparr>)"
  using assms
proof (induction es arbitrary: st)
  case Nil
  then have "merge_list ios num limit job old [] st = Inr (st\<lparr>ms_keep := ms_keep st\<rparr>)" by (simp add: finish_writer_def)
  then show ?case ..
next
  case (Cons e es)
  obtain keep ks where ks: "keep_entry old (is_bottommost job) (ms_keep st) e = (keep, ks)" by (rule prod.exhaust)
  with Cons.prems have "\<not> keep" "keep_list old (is_bottommost job) ks es = []" by (auto split: if_splits)
  with Cons.IH [of "st\<lparr>ms_keep := ks\<rparr>"] Cons.prems(2) ks show ?case by (auto simp: merge_entry_def)
qed

lemma full_job_inputs:
  assumes "db_ok d"
  shows "\<forall>fm \<in> set (job_inputs (full_job (current_version d))). fm_ok fm"
    "unique_versions (set (concat (map fm_entries (job_inputs (full_job (current_version d))))))"
  using assms unfolding db_ok_def version_ok_def unique_versions_def db_versions_files by (auto simp: full_job_def)

text \<open>A forced round in its parts, with no other thread in between and no failing call.\<close>

lemma full_round_parts:
  fixes d
  defines "num \<equiv> \<lambda>i. next_sst_number d + int i" and "job \<equiv> full_job (current_version d)"
    and "old \<equiv> oldest_live_snapshot (live_snapshots d)" and "d1 \<equiv> d\<lparr>compaction_pending := False, compaction_running := True\<rparr>"
  assumes "db_ok d" "force_compact d" "\<not> compact_done (current_version d)" "top_ok merge_source_ops pick" "\<forall>n. table_healthy (ios n)" "EFail \<notin> set rs"
    and P: "pieces_fit (job_pieces (target_file_size (opts d)) job old)" "job_pieces (target_file_size (opts d)) job old \<noteq> []"
  obtains st d2 d' where "merge_inputs pick (\<lambda>_. healthy) ios num (target_file_size (opts d)) job old (disk d) = Some (Inr st)"
    "d2 = d1\<lparr>disk := ms_disk st, next_sst_number := next_sst_number d + int (ms_started st)\<rparr>" "db_ok d2" "db_versions d2 = db_versions d"
    "fresh_numbers d2 (outputs st)" "commit_round rs ok job st d2 = Inr d'" "current_version d' = replace_files job (outputs st) (current_version d)"
proof -
  let ?ver = "current_version d" and ?n = "next_sst_number d" and ?lim = "target_file_size (opts d)"
  note ins = full_job_inputs [OF assms(5), folded job_def]
  have "\<forall>ch \<in> set (job_pieces ?lim job old). table_fit ch" using P by (simp add: pieces_fit_def)
  with merge_list_succeeds [OF writing_start(1) [of ios num "disk d"] assms(9), of ?lim old job "job_versions job"] obtain st where
    st: "merge_list ios num ?lim job old (job_versions job) (merge_start (disk d)) = Inr st" by (auto simp: writing_start job_pieces_def)
  then have mi: "merge_inputs pick (\<lambda>_. healthy) ios num ?lim job old (disk d) = Some (Inr st)" using merge_inputs_list [OF assms(8) ins] by simp
  have op: "\<forall>n. opens (ios n)" using assms(9) by (simp add: table_healthy_def)
  note out = merge_outputs [OF assms(8) ins mi op P(1)]
  let ?d2 = "d1\<lparr>disk := ms_disk st, next_sst_number := ?n + int (ms_started st)\<rparr>"
  have d2: "db_ok ?d2" "db_versions ?d2 = db_versions d" using db_ok_frame [OF assms(5), of ?d2] by (simp_all add: db_versions_def d1_def)
  have "fm_number fm \<in> {?n..<?n + int (ms_started st)}" if "fm \<in> set (outputs st)" for fm
  proof -
    have "fm_number fm \<in> set (map fm_number (outputs st))" using that by simp
    then show ?thesis unfolding out(2,3) by (auto simp: num_def)
  qed
  then have fresh: "fresh_numbers ?d2 (outputs st)" using db_ok_numbers(1,2) [OF assms(5)] by (fastforce simp: fresh_numbers_def d1_def)
  have ne: "outputs st \<noteq> []" using out(1) P(2) by auto
  obtain m where "append_snapshot rs ok (version_to_manifest (replace_files job (outputs st) ?ver)) (db_manifest d) = (m, None)"
    using append_snapshot_succeeds [OF assms(10)] by blast
  then obtain d' where d': "commit_round rs ok job st ?d2 = Inr d'" "current_version d' = replace_files job (outputs st) ?ver"
    using ne by (auto simp: commit_round_def Let_def d1_def)
  show thesis by (rule that [OF mi refl d2 fresh d'])
qed

lemma round_alone_full:
  assumes "db_ok d" "force_compact d" "\<not> compact_done (current_version d)" "top_ok merge_source_ops pick" "\<forall>n. table_healthy (ios n)" "EFail \<notin> set rs"
    and P: "P = job_pieces (target_file_size (opts d)) (full_job (current_version d)) (oldest_live_snapshot (live_snapshots d))" "pieces_fit P" "P \<noteq> []"
  shows "\<exists>d'. round_alone pick (\<lambda>_. healthy) ios rs ok d = Some (Inr d') \<and> db_ok d' \<and> compact_done (current_version d') \<and>
    (\<forall>k s. s \<in> set (live_snapshots d) \<or> next_seq d - 1 \<le> s \<longrightarrow>
       map_option fst (get_impl no_error k s d') = map_option fst (get_impl no_error k s d))"
proof -
  let ?job = "full_job (current_version d)" and ?num = "\<lambda>i. next_sst_number d + int i"
  have ver: "version_ok (current_version d)" using assms(1) by (simp add: db_ok_def)
  note shape = full_shape [OF ver assms(3)]
  obtain st d2 d' where
    mi: "merge_inputs pick (\<lambda>_. healthy) ios ?num (target_file_size (opts d)) ?job (oldest_live_snapshot (live_snapshots d)) (disk d) = Some (Inr st)"
    and d2: "d2 = d\<lparr>compaction_pending := False, compaction_running := True, disk := ms_disk st, next_sst_number := next_sst_number d + int (ms_started st)\<rparr>"
      "db_ok d2" "db_versions d2 = db_versions d"
    and d': "fresh_numbers d2 (outputs st)" "commit_round rs ok ?job st d2 = Inr d'" "current_version d' = replace_files ?job (outputs st) (current_version d)"
    by (rule full_round_parts [OF assms(1-6) P(2,3) [unfolded P(1)]]) blast
  have op: "\<forall>n. opens (ios n)" using assms(5) by (simp add: table_healthy_def)
  have "inj ?num" by (simp add: inj_def)
  note c = commit_outputs [OF d2(2) _ assms(4) op P(2) [unfolded P(1)] mi this d'(1,2)]
  have "round_alone pick (\<lambda>_. healthy) ios rs ok d = Some (Inr d')"
    using begin_forced [OF assms(2,3)] mi d'(2) by (simp add: round_alone_def d2(1))
  moreover have "db_ok d'" using c(1) shape by (simp add: d2(1))
  moreover have "compact_done (current_version d')" unfolding d'(3) by (rule full_done [OF ver assms(3)])
  moreover have "map_option fst (get_impl no_error k s d') = map_option fst (get_impl no_error k s d)" if "s \<in> set (live_snapshots d) \<or> next_seq d - 1 \<le> s" for k s
  proof -
    have "map_option fst (get_impl no_error k s d') = map_option fst (get_impl no_error k s d2)"
      using c(2) snapshot_bound [OF assms(1) shape refl that] shape by (simp add: d2(1))
    also have "\<dots> = map_option fst (get_impl no_error k s d)" by (rule get_same_visible [OF assms(1) d2(2)]) (simp only: d2(3))
    finally show ?thesis .
  qed
  ultimately show ?thesis by blast
qed

text \<open>A forced round that drops everything leaves the version as it is.\<close>

lemma round_alone_none:
  assumes "version_ok ver" "unique_versions (set (concat (map fm_entries (ver_files ver))))" "\<not> compact_done ver" "top_ok merge_source_ops pick"
    and "current_version d = ver" "force_compact d" "live_snapshots d = snaps"
    and "keep_list (oldest_live_snapshot snaps) True ([], False) (job_versions (full_job ver)) = []"
  shows "\<exists>d'. round_alone pick (\<lambda>_. healthy) ios rs ok d = Some (Inr d') \<and> current_version d' = ver \<and> force_compact d' \<and> live_snapshots d' = snaps"
proof -
  let ?old = "oldest_live_snapshot snaps" and ?num = "\<lambda>i. next_sst_number d + int i"
  have fj: "is_bottommost (full_job ver)" "job_inputs (full_job ver) = ver_files ver" by (simp_all add: full_job_def)
  have ins: "\<forall>fm \<in> set (job_inputs (full_job ver)). fm_ok fm" "unique_versions (set (concat (map fm_entries (job_inputs (full_job ver)))))"
    using assms(1,2) by (simp_all add: fj(2) version_ok_def)
  have "keep_list ?old (is_bottommost (full_job ver)) (ms_keep (merge_start (disk d))) (job_versions (full_job ver)) = []" "ms_writer (merge_start (disk d)) = None"
    using assms(8) fj(1) by (simp_all add: merge_start_def)
  from merge_list_none [OF this] obtain ks where
    "merge_list ios ?num (target_file_size (opts d)) (full_job ver) ?old (job_versions (full_job ver)) (merge_start (disk d)) = Inr ((merge_start (disk d))\<lparr>ms_keep := ks\<rparr>)"
    by blast
  with merge_inputs_list [OF assms(4) ins] have
    "merge_inputs pick (\<lambda>_. healthy) ios ?num (target_file_size (opts d)) (full_job ver) ?old (disk d) = Some (Inr ((merge_start (disk d))\<lparr>ms_keep := ks\<rparr>))" by simp
  then show ?thesis using begin_forced [OF assms(6), unfolded assms(5,7), OF assms(3)] assms(5-7)
    by (simp add: round_alone_def commit_round_def merge_start_def)
qed

end
