(* ===== verification/Compact_Properties.thy ===== *)
theory Compact_Properties
  imports Compact_Spec
begin

text \<open>The properties of the compaction, with a small database of two files to witness them.\<close>

section \<open>An example\<close>

lemma one_fit:
  assumes "ekey e = [a]" "length (evalue e) \<le> 1"
  shows "table_fit [e]"
proof -
  have bs: "split_blocks [] [e] = [[e]]" by simp
  have "length (sst_image [e]) < 2 ^ 63"
    unfolding image_length bs bloom_serialize_length bloom_of_keys_length
    using assms by (simp add: blocks_image_def block_image_length index_image_def enc_len index_bytes_len bloom_new_def kFooterSize_def)
  then show ?thesis using assms by (simp add: table_fit_def fits_def no_straddle_def)
qed

definition ex_tio :: table_io where
  "ex_tio = \<lparr>tio_writes = [], tio_sync = True, tio_rename = True, tio_open1 = None, tio_open2 = None, tio_open3 = None\<rparr>"

lemma ex_tio_healthy: "table_healthy ex_tio" "opens ex_tio"
  by (simp_all add: table_healthy_def opens_def ex_tio_def)

lemma made_exists:
  assumes "es \<noteq> []" "table_fit es"
  obtains fm where "made (\<lambda>_. ex_tio) 0 n es fm"
proof -
  have io: "EFail \<notin> set (tio_writes ex_tio)" "tio_rename ex_tio" by (simp_all add: ex_tio_def)
  obtain w w' t dk where "add_all es (writer_new (tio_writes ex_tio)) = Inr w" "install_table ex_tio n w Map.empty = (Inr (w', t), dk)"
    using install_table_succeeds [OF io ex_tio_healthy(2) assms, of n Map.empty] by auto
  then show thesis using that unfolding made_def by blast
qed

lemma ex_file:
  assumes "es \<noteq> []" "table_fit es" "ent_sorted es" "\<forall>e \<in> set es. stored e = e"
  obtains fm where "fm_ok fm" "fm_entries fm = es" "fm_number fm = n" "fm_smallest fm = ekey (hd es)" "fm_largest fm = ekey (last es)" "has_source (fm_table fm)"
proof -
  obtain fm where "made (\<lambda>_. ex_tio) 0 n es fm" using made_exists [OF assms(1,2)] by blast
  from made_ok [OF this ex_tio_healthy(2) assms] show thesis by (intro that [of fm]) (auto simp: has_source_def)
qed

text \<open>Two level-0 files with one version each of the same key; the newer one may be a deletion.\<close>

definition ex_old :: entry where "ex_old = \<lparr>ekey = [1], evalue = [9], etomb = False, eseq = 5\<rparr>"
definition ex_new :: "bool \<Rightarrow> entry" where "ex_new del = \<lparr>ekey = [1], evalue = (if del then [] else [8]), etomb = del, eseq = 6\<rparr>"

definition ex_two :: "file_meta \<Rightarrow> file_meta \<Rightarrow> db" where
  "ex_two f g = ex_db\<lparr>cache := None, current_version := \<lparr>files = (\<lambda>_. [])(0 := [f, g])\<rparr>, next_sst_number := 9, force_compact := True\<rparr>"

lemma ex_two_files: "ver_files (current_version (ex_two f g)) = [f, g]" "db_runs (ex_two f g) = [[], fm_entries g, fm_entries f, [], [], [], [], [], []]"
  "\<not> compact_done (current_version (ex_two f g))"
  by (simp_all add: ver_files_def db_runs_def ver_runs_def level_entries_def upt_levels ex_two_def ex_db_def
      mt_versions_new kMemtableHeight_def compact_done_def total_file_count_files)

lemma ex_two_gen:
  assumes "fm_ok f" "fm_ok g" "fm_number f = 7" "fm_number g = 8" "has_source (fm_table f)" "has_source (fm_table g)" "recent (fm_entries g) (fm_entries f)"
    and "unique_versions (set (fm_entries f) \<union> set (fm_entries g))" "\<forall>e \<in> set (fm_entries f) \<union> set (fm_entries g). eseq e < 7"
  shows "db_ok (ex_two f g)"
  unfolding db_ok_def
proof (intro conjI)
  show "mt_ok (mtable (ex_two f g))" "mem_sized (mtable (ex_two f g))" using ex_db_ok by (auto simp: db_ok_def ex_two_def)
  show "version_ok (current_version (ex_two f g))"
    unfolding version_ok_def ex_two_files using assms by (simp add: ex_two_def disjoint_files_def)
  show "cache_matches (cache (ex_two f g)) (current_version (ex_two f g))"
    by (rule cache_matches_outputs [of _ empty_version "[f, g]"])
      (use assms in \<open>auto simp: ex_two_files cache_matches_def cache_good_def ver_files_def empty_version_def ex_two_def cached_numbers_def\<close>)
  show "unique_versions (db_versions (ex_two f g))" "sorted_wrt recent (db_runs (ex_two f g))"
    using assms by (simp_all add: ex_two_files db_versions_def recent_def Un_commute)
  have "next_seq (ex_two f g) = 7" "next_sst_number (ex_two f g) = 9" "cached_numbers (cache (ex_two f g)) = {}"
    by (simp_all add: ex_two_def ex_db_def cached_numbers_def)
  then show "\<forall>e \<in> db_versions (ex_two f g). eseq e < next_seq (ex_two f g)"
    "\<forall>n \<in> fm_number ` set (ver_files (current_version (ex_two f g))) \<union> cached_numbers (cache (ex_two f g)). n < next_sst_number (ex_two f g)"
    using assms by (auto simp: ex_two_files db_versions_def)
qed

lemma ex_two_ok:
  obtains f g where "db_ok (ex_two f g)" "fm_entries f = [ex_old]" "fm_entries g = [ex_new del]" "fm_smallest f = [1]" "fm_smallest g = [1]"
proof -
  obtain f where f: "fm_ok f" "fm_entries f = [ex_old]" "fm_number f = 7" "fm_smallest f = [1]" "has_source (fm_table f)"
    by (rule ex_file [of "[ex_old]" 7]) (simp_all add: one_fit [of _ 1] ex_old_def stored_def)
  obtain g where g: "fm_ok g" "fm_entries g = [ex_new del]" "fm_number g = 8" "fm_smallest g = [1]" "has_source (fm_table g)"
    by (rule ex_file [of "[ex_new del]" 8]) (simp_all add: one_fit [of _ 1] ex_new_def stored_def)
  have "db_ok (ex_two f g)" using f g by (intro ex_two_gen) (auto simp: recent_def unique_versions_def, simp_all add: ex_old_def ex_new_def)
  then show thesis by (rule that [OF _ f(2) g(2) f(4) g(4)])
qed

lemma ex_two_versions:
  assumes "fm_entries f = [ex_old]" "fm_entries g = [ex_new del]"
  shows "job_versions (full_job (current_version (ex_two f g))) = [ex_new del, ex_old]"
    "keep_list UINT64_MAX True ([], False) [ex_new del, ex_old] = (if del then [] else [ex_new del])"
proof -
  show "job_versions (full_job (current_version (ex_two f g))) = [ex_new del, ex_old]"
    using assms by (simp add: job_versions_def full_job_def ex_two_files merged_def ins_version_def ent_less_def ex_new_def ex_old_def)
  show "keep_list UINT64_MAX True ([], False) [ex_new del, ex_old] = (if del then [] else [ex_new del])"
    by (simp add: keep_entry_def ex_new_def ex_old_def Let_def)
qed

section \<open>Properties\<close>


text \<open>
  C15. A compaction changes no read that a reader can make: from the choice of the job at \<open>d0\<close> to its commit
  at \<open>d\<close>, with any writes and flushes between the two, every key reads after the commit as before it, at
  every snapshot that was live when the job was chosen or was taken later, and the invariant is kept.
  (At least two files if forced; no empty key starts a level-0 file; the pieces fit into files and
  no key is in two of them; fresh numbers for the outputs.)
\<close>

theorem compaction_preserves_reads:
  assumes "db_ok d0" "begin_round d0 = (Some (job, old), d1)" "force_compact d0 \<Longrightarrow> 2 \<le> length (ver_files (current_version d0))"
    and "\<forall>fm \<in> set (files (current_version d0) 0). fm_smallest fm \<noteq> []"
    and "top_ok merge_source_ops pick" "\<forall>n. opens (ios n)" "inj num" "pieces_fit (job_pieces limit job old)"
    and "merge_inputs pick (\<lambda>_. healthy) ios num limit job old dk = Some (Inr st)"
    and "db_ok d" "grown (current_version d0) (current_version d)" "fresh_numbers d (outputs st)"
    and "commit_round rs ok job st d = Inr d'"
  shows "db_ok d' \<and> (\<forall>k s. s \<in> set (live_snapshots d0) \<or> next_seq d0 - 1 \<le> s \<longrightarrow>
    map_option fst (get_impl no_error k s d') = map_option fst (get_impl no_error k s d))"
proof -
  note job = begin_round_job [OF assms(2)]
  have ver: "version_ok (current_version d0)" "version_ok (current_version d)" using assms(1,10) by (auto simp: db_ok_def)
  have shape0: "job_shape (current_version d0) job" unfolding job(1) by (rule pick_shape [OF ver(1)]) (use job(1,2) assms(3,4) in auto)
  from shape0 assms(11) ver(2) have shape: "job_shape (current_version d) job" by (rule job_shape_grown)
  note c = commit_outputs [OF assms(10) shape assms(5,6,8,9,7,12,13)]
  show ?thesis using c(1) c(2) snapshot_bound [OF assms(1) shape0 job(3)] by blast
qed

theorem compaction_preserves_reads_witness:
  "\<exists>d d'. db_ok d \<and> length (ver_files (current_version d)) = 2 \<and> db_ok d' \<and> compact_done (current_version d') \<and>
     map_option fst (get_impl no_error [1] 6 d') = Some (Inr (Some [8]))"
proof -
  obtain f g where fg: "db_ok (ex_two f g)" "fm_entries f = [ex_old]" "fm_entries g = [ex_new False]" "fm_smallest f = [1]" "fm_smallest g = [1]"
    by (rule ex_two_ok)
  let ?d = "ex_two f g"
  let ?job = "full_job (current_version ?d)" and ?pick = "first_top merge_source_ops" and ?lim = "target_file_size (opts ?d)"
  have ex: "force_compact ?d" "live_snapshots ?d = []" "next_seq ?d = 7" "files (current_version ?d) 0 = [f, g]" "?lim = 2 * 1024 * 1024"
    by (simp_all add: ex_two_def ex_db_def default_options_def)
  have old: "oldest_live_snapshot (live_snapshots ?d) = UINT64_MAX" by (simp add: ex(2) oldest_live_snapshot_def)
  have "is_bottommost ?job" by (simp add: full_job_def)
  then have pieces: "job_pieces ?lim ?job UINT64_MAX = [[ex_new False]]"
    using ex_two_versions [OF fg(2,3)] by (simp add: job_pieces_def ex(5) ex_new_def del: keep_list.simps)
  have fit: "pieces_fit [[ex_new False]]" by (simp add: pieces_fit_def one_fit [of _ 1] ex_new_def)
  note br = begin_forced [OF ex(1) ex_two_files(3), unfolded old]
  have h: "\<forall>n. table_healthy ex_tio" "\<forall>n. opens ex_tio" using ex_tio_healthy by simp_all
  obtain st d2 d' where r: "merge_inputs ?pick (\<lambda>_. healthy) (\<lambda>_. ex_tio) (\<lambda>i. next_sst_number ?d + int i) ?lim ?job UINT64_MAX (disk ?d) = Some (Inr st)"
      "d2 = ?d\<lparr>compaction_pending := False, compaction_running := True, disk := ms_disk st, next_sst_number := next_sst_number ?d + int (ms_started st)\<rparr>"
      "db_ok d2" "db_versions d2 = db_versions ?d" "fresh_numbers d2 (outputs st)" "commit_round [] True ?job st d2 = Inr d'"
      "current_version d' = replace_files ?job (outputs st) (current_version ?d)"
    by (rule full_round_parts [OF fg(1) ex(1) ex_two_files(3) first_top_ok h(1), of "[]" True, unfolded old pieces]) (use fit in auto)
  have gr: "grown (current_version ?d) (current_version d2)" by (simp add: r(2) grown_def)
  have "inj (\<lambda>i. next_sst_number ?d + int i)" by (simp add: inj_def)
  from compaction_preserves_reads [OF fg(1) br _ _ first_top_ok h(2) this fit [folded pieces] r(1) r(3) gr r(5,6)]
  have c: "db_ok d'" "map_option fst (get_impl no_error [1] 6 d') = map_option fst (get_impl no_error [1] 6 d2)"
    by (simp_all add: ex fg(4,5) ex_two_files)
  have "db_versions ?d = {ex_new False, ex_old}" unfolding db_versions_def ex_two_files fg by auto
  then have "newest (db_versions d2) [1] 6 (ex_new False)" unfolding r(4) by (auto simp: newest_def visible_def ex_old_def ex_new_def)
  from get_of_newest [OF r(3) this] have g8: "map_option fst (get_impl no_error [1] 6 d2) = Some (Inr (Some [8]))" by (simp add: ex_new_def)
  have "compact_done (current_version d')" unfolding r(7) by (rule full_done) (use fg(1) ex_two_files(3) in \<open>auto simp: db_ok_def\<close>)
  then show ?thesis using fg(1) c(1) trans [OF c(2) g8] ex_two_files(1) [of f g] by (intro exI [of _ ?d] exI [of _ d']) simp
qed



section \<open>A key in two output files\<close>

text \<open>Two level-0 files: one with an older version of a key, one with another key and a newer version.\<close>

definition ex_first :: entry where "ex_first = \<lparr>ekey = [0], evalue = [7], etomb = False, eseq = 4\<rparr>"

definition ex_split :: "file_meta \<Rightarrow> file_meta \<Rightarrow> db" where
  "ex_split f g = (ex_two f g)\<lparr>opts := default_options\<lparr>target_file_size := 30\<rparr>, live_snapshots := [5]\<rparr>"

lemma ex_pair_fit: "table_fit [ex_first, ex_new False]" "ent_sorted [ex_first, ex_new False]"
proof -
  have bs: "split_blocks [] [ex_first, ex_new False] = [[ex_first, ex_new False]]"
    by (simp add: ex_first_def ex_new_def enc_len kBlockTargetSize_def)
  have "length (sst_image [ex_first, ex_new False]) < 2 ^ 63"
    unfolding image_length bs bloom_serialize_length bloom_of_keys_length
    by (simp add: ex_first_def ex_new_def blocks_image_def block_image_length index_image_def enc_len index_bytes_len bloom_new_def kFooterSize_def)
  with bs show "table_fit [ex_first, ex_new False]" by (simp add: table_fit_def fits_def no_straddle_def ex_first_def ex_new_def)
  show "ent_sorted [ex_first, ex_new False]" by (simp add: ent_le_def ex_first_def ex_new_def)
qed

lemma get_two_files:
  assumes "mt_lookup k s (mtable d) = Some NotFound" "cache d = None" "files (current_version d) = (\<lambda>_. [])(1 := [a, b])"
    and "fm_ok b" "has_source (fm_table b)" "fm_smallest a \<le> k" "fm_smallest b \<le> k" "k \<le> fm_largest b"
  shows "map_option fst (get_impl no_error k s d) = Some (Inr (status_value (run_status (fm_entries b) k s)))"
proof -
  obtain f where f: "\<forall>i < length (tindex (fm_table b)). block_loader None (fm_table b) i = Inr (f (ioffset (tindex (fm_table b) ! i)))"
    using assms(5) by (auto simp: has_source_def)
  then have "readable (\<lambda>key. f (block_offset key)) b" using assms(4) by (simp add: readable_def serves_def)
  from probe_entries [OF this, of None k s] obtain c where c: "probe None k s (fm_table b) None = (Inr (run_status (fm_entries b) k s), c)"
    by (auto simp: cache_good_def)
  have "covering_file k [a, b] = Some b" using assms(6-8) by (simp add: covering_file_def not_less)
  then have "level_candidates k (current_version d) = [b]"
    by (simp add: level_candidates_def assms(3) upt_levels List.map_filter_simps) (simp add: covering_file_def)
  then show ?thesis using assms(1-3) c
    by (cases "run_status (fm_entries b) k s") (simp_all add: get_impl_def Let_def status_value_def)
qed

lemma ex_split_ok:
  obtains f g where "db_ok (ex_split f g)" "db_versions (ex_split f g) = {ex_old, ex_first, ex_new False}"
    "keep_list 5 True ([], False) (job_versions (full_job (current_version (ex_split f g)))) = [ex_first, ex_new False, ex_old]"
proof -
  obtain f where f: "fm_ok f" "fm_entries f = [ex_old]" "fm_number f = 7" "has_source (fm_table f)"
    by (rule ex_file [of "[ex_old]" 7]) (simp_all add: one_fit [of _ 1] ex_old_def stored_def)
  obtain g where g: "fm_ok g" "fm_entries g = [ex_first, ex_new False]" "fm_number g = 8" "has_source (fm_table g)"
    by (rule ex_file [OF _ ex_pair_fit, of 8]) (simp_all add: ex_first_def ex_new_def stored_def)
  have "db_ok (ex_two f g)" using f g
    by (intro ex_two_gen) (auto simp: recent_def unique_versions_def, simp_all add: ex_old_def ex_new_def ex_first_def)
  then have "db_ok (ex_split f g)" using db_ok_frame(1) [of "ex_two f g" "ex_split f g"] by (simp add: ex_split_def)
  moreover have "db_versions (ex_split f g) = {ex_old, ex_first, ex_new False}"
    using f(2) g(2) ex_two_files(2) [of f g] by (simp add: ex_split_def db_versions_def db_runs_def insert_commute)
  moreover have "current_version (ex_split f g) = current_version (ex_two f g)" by (simp add: ex_split_def)
  then have "job_versions (full_job (current_version (ex_split f g))) = [ex_first, ex_new False, ex_old]"
    using f(2) g(2) by (simp add: job_versions_def full_job_def ex_two_files merged_def ins_version_def ent_less_def ex_new_def ex_old_def ex_first_def)
  then have "keep_list 5 True ([], False) (job_versions (full_job (current_version (ex_split f g)))) = [ex_first, ex_new False, ex_old]"
    by (simp add: keep_entry_def ex_new_def ex_old_def ex_first_def Let_def)
  ultimately show thesis by (rule that)
qed

text \<open>The forced round over these files.\<close>

lemma ex_split_round:
  assumes "db_ok (ex_split f g)"
    and keep: "keep_list 5 True ([], False) (job_versions (full_job (current_version (ex_split f g)))) = [ex_first, ex_new False, ex_old]"
  obtains a b d' where "round_alone (first_top merge_source_ops) (\<lambda>_. healthy) (\<lambda>_. ex_tio) [] True (ex_split f g) = Some (Inr d')"
    "files (current_version d') = (\<lambda>_. [])(1 := [a, b])" "mtable d' = mtable ex_db" "cache d' = None"
    "made (\<lambda>_. ex_tio) 1 9 [ex_first, ex_new False] a" "made (\<lambda>_. ex_tio) 1 10 [ex_old] b"
proof -
  let ?d = "ex_split f g" and ?num = "\<lambda>i. next_sst_number (ex_split f g) + int i" and ?job = "full_job (current_version (ex_split f g))"
  let ?d1 = "?d\<lparr>compaction_pending := False, compaction_running := True\<rparr>"
  have ex: "force_compact ?d" "current_version ?d = \<lparr>files = (\<lambda>_. [])(0 := [f, g])\<rparr>" "target_file_size (opts ?d) = 30" "oldest_live_snapshot (live_snapshots ?d) = 5"
      "cache ?d = None" "next_sst_number ?d = 9" "mtable ?d = mtable ex_db" "\<not> compact_done (current_version ?d)"
    using ex_two_files(3) [of f g] by (simp_all add: ex_split_def ex_two_def ex_db_def default_options_def oldest_live_snapshot_def)
  have pieces: "split_outputs 30 [] 0 [ex_first, ex_new False, ex_old] = [[ex_first, ex_new False], [ex_old]]"
    by (simp add: ex_new_def ex_old_def ex_first_def)
  have job: "is_bottommost ?job" "output_level ?job = 1" "job_inputs ?job = [f, g]" by (simp_all add: full_job_def ex(2) ver_files_def upt_levels)
  have h: "\<forall>n. table_healthy ex_tio" using ex_tio_healthy by simp
  have "table_fit [ex_old]" by (simp add: one_fit [of _ 1] ex_old_def)
  with merge_list_succeeds [OF writing_start(1) [of "\<lambda>_. ex_tio" ?num "disk ?d"] h, of 30 5 ?job "job_versions ?job"] ex_pair_fit(1) obtain st where
    st: "merge_list (\<lambda>_. ex_tio) ?num 30 ?job 5 (job_versions ?job) (merge_start (disk ?d)) = Inr st"
    by (auto simp: writing_start job keep pieces simp del: split_outputs.simps)
  from merge_list_made [OF writing_start(1) st] obtain a b where
    ab: "outputs st = [a, b]" "made (\<lambda>_. ex_tio) 1 9 [ex_first, ex_new False] a" "made (\<lambda>_. ex_tio) 1 10 [ex_old] b"
    by (auto simp: writing_start job keep pieces ex(6) simp del: split_outputs.simps)
  have "fm_smallest a = [0]" "fm_smallest b = [1]"
    using made_ok(4) [OF ab(2) ex_tio_healthy(2) _ ex_pair_fit] made_ok(4) [OF ab(3) ex_tio_healthy(2) _ \<open>table_fit [ex_old]\<close>]
    by (simp_all add: ex_first_def ex_new_def ex_old_def stored_def)
  then have nv: "files (replace_files ?job [a, b] (current_version ?d)) = (\<lambda>_. [])(1 := [a, b])"
    unfolding replace_files_def job version.simps Let_def by (auto simp: ex(2) fun_eq_iff)
  have mi: "merge_inputs (first_top merge_source_ops) (\<lambda>_. healthy) (\<lambda>_. ex_tio) ?num 30 ?job 5 (disk ?d) = Some (Inr st)"
    using merge_inputs_list [OF first_top_ok full_job_inputs [OF assms(1)]] st by simp
  obtain m where "append_snapshot [] True (version_to_manifest (replace_files ?job [a, b] (current_version ?d))) (db_manifest ?d) = (m, None)"
    using append_snapshot_succeeds [of "[]"] by fastforce
  then obtain d' where d': "commit_round [] True ?job st (?d1\<lparr>disk := ms_disk st, next_sst_number := next_sst_number ?d + int (ms_started st)\<rparr>) = Inr d'"
      "current_version d' = replace_files ?job [a, b] (current_version ?d)" "mtable d' = mtable ?d" "cache d' = cache ?d"
    by (auto simp: commit_round_def Let_def ab(1))
  have "round_alone (first_top merge_source_ops) (\<lambda>_. healthy) (\<lambda>_. ex_tio) [] True ?d = Some (Inr d')"
    unfolding round_alone_def begin_forced [OF ex(1,8)] ex(4) using mi d'(1) by (simp add: ex(3))
  then show thesis using d'(2-4) nv ex(5,7) by (intro that [OF _ _ _ _ ab(2,3)]) simp_all
qed

text \<open>
  C19. A compaction may split the versions of one key over two output files, since a file ends when it has
  reached the target size, whatever comes next. The level then overlaps, reads look into one of
  the two files only, and a key that read its newest value before the compaction reads an overwritten
  one after it.
\<close>

theorem split_key_stale:
  "\<exists>d d'. db_ok d \<and> round_alone (first_top merge_source_ops) (\<lambda>_. healthy) (\<lambda>_. ex_tio) [] True d = Some (Inr d') \<and>
     map_option fst (db_get no_error [1] d) = Some (Inr (Some [8])) \<and> map_option fst (db_get no_error [1] d') = Some (Inr (Some [9]))"
proof -
  obtain f g where d: "db_ok (ex_split f g)" "db_versions (ex_split f g) = {ex_old, ex_first, ex_new False}"
    "keep_list 5 True ([], False) (job_versions (full_job (current_version (ex_split f g)))) = [ex_first, ex_new False, ex_old]" by (rule ex_split_ok)
  obtain a b d' where d': "round_alone (first_top merge_source_ops) (\<lambda>_. healthy) (\<lambda>_. ex_tio) [] True (ex_split f g) = Some (Inr d')"
    "files (current_version d') = (\<lambda>_. [])(1 := [a, b])" "mtable d' = mtable ex_db" "cache d' = None"
    "made (\<lambda>_. ex_tio) 1 9 [ex_first, ex_new False] a" "made (\<lambda>_. ex_tio) 1 10 [ex_old] b" by (rule ex_split_round [OF d(1,3)])
  have "newest (db_versions (ex_split f g)) [1] UINT64_MAX (ex_new False)" unfolding d(2)
    by (auto simp: newest_def visible_def ex_old_def ex_new_def ex_first_def)
  from get_of_newest [OF d(1) this] have g8: "map_option fst (db_get no_error [1] (ex_split f g)) = Some (Inr (Some [8]))"
    by (simp add: db_get_def ex_new_def)
  have "table_fit [ex_old]" by (simp add: one_fit [of _ 1] ex_old_def)
  note a = made_ok(4) [OF d'(5) ex_tio_healthy(2) _ ex_pair_fit] and b = made_ok [OF d'(6) ex_tio_healthy(2) _ this]
  have "mt_lookup [1] UINT64_MAX (mtable ex_db) = Some NotFound"
    using skiplist.lookup_versions [of "mtable ex_db" "[1]" UINT64_MAX] by (simp add: ex_db_def mt_versions_new kMemtableHeight_def mt_ok_new)
  then have "map_option fst (db_get no_error [1] d') = Some (Inr (status_value (run_status [ex_old] [1] UINT64_MAX)))"
    unfolding db_get_def using a b get_two_files [of "[1]" UINT64_MAX d' a b] d'(2-4)
    by (simp add: has_source_def ex_first_def ex_new_def ex_old_def stored_def)
  then show ?thesis using d(1) d'(1) g8
    by (intro exI [of _ "ex_split f g"] exI [of _ d']) (simp add: run_status_def status_of_def status_value_def ex_old_def)
qed

end
