(* ===== verification/File_Names.thy ===== *)
theory File_Names
  imports Keystone_Prelude
begin

text \<open>
  The names of table files: \<open>sst_path\<close> of \<open>src/db.cpp\<close> writes them with \<open>snprintf\<close>, and \<open>DB::open\<close> reads them back with the
  parts of \<open>std::filesystem::path\<close> and \<open>std::stoi\<close>.
\<close>

section \<open>Writing a name\<close>

definition digit :: "nat \<Rightarrow> char" where
  "digit n = char_of (48 + n)"

fun decimal :: "nat \<Rightarrow> string" where
  "decimal n = (if n < 10 then [digit n] else decimal (n div 10) @ [digit (n mod 10)])"

declare decimal.simps [simp del]

text \<open>\<open>%0<w>d\<close> of a number that is not negative.\<close>

definition padded :: "nat \<Rightarrow> nat \<Rightarrow> string" where
  "padded w n = replicate (w - length (decimal n)) (digit 0) @ decimal n"

definition sst_name :: "int \<Rightarrow> string" where
  "sst_name num = padded 6 (nat num) @ ''.sst''"

section \<open>Reading a name\<close>

text \<open>
  The extension of a file name: from its last dot, unless that is the first character. The stem is
  what comes before.
\<close>

definition ext_length :: "string \<Rightarrow> nat" where
  "ext_length name =
     (let n = length (takeWhile (\<lambda>c. c \<noteq> CHR ''.'') (rev name)) in
      if name \<noteq> ''..'' \<and> n + 1 < length name then n + 1 else 0)"

definition extension :: "string \<Rightarrow> string" where
  "extension name = drop (length name - ext_length name) name"

definition stem :: "string \<Rightarrow> string" where
  "stem name = take (length name - ext_length name) name"

text \<open>
  \<open>std::stoi\<close>: white space, a sign, then as many digits as there are; an exception if there is none or the
  value does not fit into an \<open>int\<close>.
\<close>

definition is_digit :: "char \<Rightarrow> bool" where
  "is_digit c \<longleftrightarrow> 48 \<le> (of_char c :: nat) \<and> (of_char c :: nat) \<le> 57"

definition is_space :: "char \<Rightarrow> bool" where
  "is_space c \<longleftrightarrow> (of_char c :: nat) = 32 \<or> 9 \<le> (of_char c :: nat) \<and> (of_char c :: nat) \<le> 13"

definition digits_value :: "string \<Rightarrow> nat" where
  "digits_value s = foldl (\<lambda>v c. 10 * v + (of_char c - 48)) 0 s"

definition stoi :: "string \<Rightarrow> int option" where
  "stoi s =
     (let s = dropWhile is_space s;
          neg = (s \<noteq> [] \<and> hd s = CHR ''-'');
          s = (if s \<noteq> [] \<and> (hd s = CHR ''-'' \<or> hd s = CHR ''+'') then tl s else s);
          ds = takeWhile is_digit s;
          v = (if neg then - int (digits_value ds) else int (digits_value ds)) in
      if ds = [] \<or> v < - (2 ^ 31) \<or> 2 ^ 31 \<le> v then None else Some v)"

section \<open>Reading back what was written\<close>

lemma of_char_digit: "n < 10 \<Longrightarrow> (of_char (digit n) :: nat) = 48 + n"
  by (simp add: digit_def)

lemma is_digit_digit: "n < 10 \<Longrightarrow> is_digit (digit n)"
  by (simp add: is_digit_def of_char_digit)

lemma decimal_digits: "\<forall>c \<in> set (decimal n). is_digit c" "decimal n \<noteq> []" "digits_value (decimal n) = n"
proof -
  have "(\<forall>c \<in> set (decimal n). is_digit c) \<and> decimal n \<noteq> [] \<and> digits_value (decimal n) = n"
  proof (induction n rule: decimal.induct)
    case (1 n)
    show ?case
    proof (cases "n < 10")
      case True
      then show ?thesis by (simp add: decimal.simps [of n] is_digit_digit digits_value_def of_char_digit)
    next
      case False
      with 1 have IH: "\<forall>c \<in> set (decimal (n div 10)). is_digit c" "digits_value (decimal (n div 10)) = n div 10" by auto
      then show ?thesis using False by (simp add: decimal.simps [of n] is_digit_digit of_char_digit digits_value_def)
    qed
  qed
  then show "\<forall>c \<in> set (decimal n). is_digit c" "decimal n \<noteq> []" "digits_value (decimal n) = n" by auto
qed

lemma padded_digits: "\<forall>c \<in> set (padded w n). is_digit c" "padded w n \<noteq> []" "digits_value (padded w n) = n"
proof -
  show "\<forall>c \<in> set (padded w n). is_digit c" "padded w n \<noteq> []" using decimal_digits by (auto simp: padded_def is_digit_digit)
  have "foldl (\<lambda>v c. 10 * v + (of_char c - 48)) 0 (replicate k (digit 0)) = (0 :: nat)" for k
    by (induction k) (simp_all add: of_char_digit)
  then show "digits_value (padded w n) = n" using decimal_digits(3) [of n] by (simp add: digits_value_def padded_def)
qed

lemma digit_not: "is_digit c \<Longrightarrow> c \<noteq> CHR ''.'' \<and> c \<noteq> CHR ''-'' \<and> c \<noteq> CHR ''+'' \<and> \<not> is_space c"
  by (auto simp: is_digit_def is_space_def)

lemma stoi_digits:
  assumes "\<forall>c \<in> set s. is_digit c" "s \<noteq> []" "digits_value s < 2 ^ 31"
  shows "stoi s = Some (int (digits_value s))"
proof -
  have dw: "dropWhile is_space s = s" and "is_digit (hd s)" using assms(1,2) digit_not by (cases s; auto)+
  then have hd: "hd s \<noteq> CHR ''-''" "hd s \<noteq> CHR ''+''" using digit_not by auto
  have tw: "takeWhile is_digit s = s" using assms(1) by simp
  show ?thesis unfolding stoi_def Let_def dw using hd assms(2,3) by (simp add: tw)
qed

lemma sst_name_parts:
  assumes "0 \<le> n" "n < 2 ^ 31"
  shows "extension (sst_name n) = ''.sst''" "stoi (stem (sst_name n)) = Some n"
proof -
  let ?p = "padded 6 (nat n)"
  have p: "\<forall>c \<in> set ?p. is_digit c" "?p \<noteq> []" "digits_value ?p = nat n" by (rule padded_digits)+
  have "takeWhile (\<lambda>c. c \<noteq> CHR ''.'') (rev (?p @ ''.sst'')) = ''tss''" by simp
  then have "ext_length (sst_name n) = 4" using p(2) by (cases ?p) (auto simp: ext_length_def sst_name_def Let_def)
  then show "extension (sst_name n) = ''.sst''" and "stoi (stem (sst_name n)) = Some n"
    using stoi_digits [OF p(1,2)] p(3) assms by (simp_all add: extension_def stem_def sst_name_def)
qed

lemma sst_name_inj:
  assumes "0 \<le> m" "0 \<le> n" "sst_name m = sst_name n"
  shows "m = n"
proof -
  have "padded 6 (nat m) = padded 6 (nat n)" using assms(3) by (simp add: sst_name_def)
  then have "nat m = nat n" by (metis padded_digits(3))
  with assms(1,2) show ?thesis by simp
qed

lemma sst_name_other: "sst_name n \<noteq> ''wal.log''" "sst_name n \<noteq> ''MANIFEST''"
proof -
  have "last (sst_name n) = CHR ''t''" by (simp add: sst_name_def)
  then show "sst_name n \<noteq> ''wal.log''" by auto
  have "hd (sst_name n) \<in> set (padded 6 (nat n))" using padded_digits(2) by (simp add: sst_name_def)
  then have "is_digit (hd (sst_name n))" using padded_digits(1) by blast
  then show "sst_name n \<noteq> ''MANIFEST''" by (auto simp: is_digit_def)
qed

end
