(* ===== verification/Db_Open.thy ===== *)
theory Db_Open
  imports Db_Write File_Names
begin

text \<open>
  \<open>src/db.cpp\<close>: \<open>DB::open\<close>. The directory is the list of its files, names with contents, in the order of the directory
  iterator; creating the directory and removing files do not fail.
\<close>

type_synonym directory = "(string \<times> bytes) list"

text \<open>The answers to the system calls: reads of the log and the MANIFEST, of each table, writes to the MANIFEST.\<close>

record open_io =
  oio_wal :: "sys_ret list"
  oio_manifest :: "sys_ret list"
  oio_open :: "int \<Rightarrow> sys_ret option \<times> sys_ret option \<times> sys_ret option"
  oio_scan :: "int \<Rightarrow> preads"
  oio_writes :: "sys_ret list"
  oio_sync :: bool

section \<open>The log\<close>

text \<open>The loop over the records; \<open>coins i\<close> are the coin flips for record \<open>i\<close>.\<close>

fun replay_into :: "(nat \<Rightarrow> bool list) \<Rightarrow> wal_rec list \<Rightarrow> memtable \<Rightarrow> memtable option" where
  "replay_into coins [] m = Some m"
| "replay_into coins (rec # recs) m =
     (case (if rtype rec = Put then mt_put (coins 0) (rkey rec) (rval rec) (rseq rec) m else mt_del (coins 0) (rkey rec) (rseq rec) m) of
        None \<Rightarrow> None | Some m' \<Rightarrow> replay_into (coins \<circ> Suc) recs m')"

definition max_wal_seq :: "wal_rec list \<Rightarrow> u64" where
  "max_wal_seq recs = foldl (\<lambda>m rec. if rseq rec > m then rseq rec else m) 0 recs"

text \<open>\<open>std::filesystem::resize_file\<close>, here never to more than the file has.\<close>

definition resize_file :: "nat \<Rightarrow> bytes \<Rightarrow> bytes" where
  "resize_file n bs = take n bs @ replicate (n - length bs) 0"

section \<open>The directory\<close>

text \<open>\<open>num_to_path\<close>, a \<open>std::map\<close>: in the order of its keys, with the contents instead of the path.\<close>

fun map_put :: "int \<Rightarrow> bytes \<Rightarrow> (int \<times> bytes) list \<Rightarrow> (int \<times> bytes) list" where
  "map_put num bs [] = [(num, bs)]"
| "map_put num bs ((n, b) # m) =
     (if num < n then (num, bs) # (n, b) # m else if num = n then (num, bs) # m else (n, b) # map_put num bs m)"

definition scan_entry :: "string \<times> bytes \<Rightarrow> (int \<times> bytes) list \<times> int \<Rightarrow> (int \<times> bytes) list \<times> int" where
  "scan_entry entry st =
     (case (entry, st) of ((name, bs), (num_to_path, max_num)) \<Rightarrow>
        if extension name = ''.sst'' then
          (case stoi (stem name) of
             None \<Rightarrow> (num_to_path, max_num)
           | Some num \<Rightarrow> (map_put num bs num_to_path, max max_num num))
        else (num_to_path, max_num))"

definition scan_dir :: "directory \<Rightarrow> (int \<times> bytes) list \<times> int" where
  "scan_dir dir = fold scan_entry dir ([], 0)"

section \<open>The version\<close>

text \<open>Without a MANIFEST every table is live, at level 0 and without a key range.\<close>

definition live_entries :: "sys_ret list \<Rightarrow> bytes option \<Rightarrow> (int \<times> bytes) list \<Rightarrow> manifest_entry list" where
  "live_entries rs manifest num_to_path =
     (let live = load_latest rs manifest in
      if live = [] \<and> manifest = None \<and> num_to_path \<noteq> []
      then map (\<lambda>(num, _). \<lparr>mnumber = num, mlevel = 0, smallest_key = [], largest_key = []\<rparr>) num_to_path
      else live)"

text \<open>A key range that is not known is read from the table.\<close>

definition key_range :: "preads \<Rightarrow> sstable \<Rightarrow> key \<Rightarrow> key \<Rightarrow> (sst_error + key \<times> key) option" where
  "key_range rp t sk lk =
     (if sk \<noteq> [] \<and> lk \<noteq> [] then Some (Inr (sk, lk))
      else case it_begin rp t of
        Inl e \<Rightarrow> Some (Inl e)
      | Inr it \<Rightarrow>
          Option.bind (it_entries rp t it)
            (\<lambda>r. Some (case r of
               Inl e \<Rightarrow> Inl e
             | Inr es \<Rightarrow> Inr (if es = [] then (sk, lk) else (ekey (hd es), ekey (last es))))))"

text \<open>The body of the loop over the live entries.\<close>

definition add_live :: "open_io \<Rightarrow> (int \<times> bytes) list \<Rightarrow> manifest_entry \<Rightarrow> version \<Rightarrow> (db_error + version) option" where
  "add_live io num_to_path entry ver =
     (case map_of num_to_path (mnumber entry) of
        None \<Rightarrow> Some (Inr ver)
      | Some bs \<Rightarrow>
          (case oio_open io (mnumber entry) of (r1, r2, r3) \<Rightarrow>
           case sst_open r1 r2 r3 (mnumber entry) bs of
             Inl e \<Rightarrow> Some (Inl (TableError e))
           | Inr t \<Rightarrow>
               let level = (if mlevel entry < 0 \<or> mlevel entry \<ge> int kMaxLevels then 0 else mlevel entry) in
               Option.bind (key_range (oio_scan io (mnumber entry)) t (manifest_entry.smallest_key entry) (manifest_entry.largest_key entry))
                 (\<lambda>r. Some (case r of
                    Inl e \<Rightarrow> Inl (TableError e)
                  | Inr (sk, lk) \<Rightarrow>
                      Inr \<lparr>files = (files ver)(nat level := files ver (nat level) @
                        [\<lparr>fm_number = mnumber entry, fm_level = level, fm_smallest = sk, fm_largest = lk, fm_table = t\<rparr>])\<rparr>))))"

fun add_lives :: "open_io \<Rightarrow> (int \<times> bytes) list \<Rightarrow> manifest_entry list \<Rightarrow> version \<Rightarrow> (db_error + version) option" where
  "add_lives io num_to_path [] ver = Some (Inr ver)"
| "add_lives io num_to_path (entry # live) ver =
     Option.bind (add_live io num_to_path entry ver)
       (\<lambda>r. case r of Inl e \<Rightarrow> Some (Inl e) | Inr ver' \<Rightarrow> add_lives io num_to_path live ver')"

definition sort_levels :: "version \<Rightarrow> version" where
  "sort_levels ver =
     \<lparr>files = (\<lambda>l.
        let fs = sort_key fm_number (files ver l) in
        if 1 \<le> l \<and> l < kMaxLevels then sort_key fm_smallest fs else fs)\<rparr>"

definition max_sst_seq :: "version \<Rightarrow> u64" where
  "max_sst_seq ver =
     foldl (\<lambda>m fm. if fmax_seq (tfooter (fm_table fm)) > m then fmax_seq (tfooter (fm_table fm)) else m) 0
       (concat (map (files ver) [0..<kMaxLevels]))"

section \<open>DB::open\<close>

definition on_disk :: "bytes \<Rightarrow> afile" where
  "on_disk bs = \<lparr>contents = bs, durable = length bs\<rparr>"

definition db_open :: "options \<Rightarrow> open_io \<Rightarrow> (nat \<Rightarrow> bool list) \<Rightarrow> directory \<Rightarrow> (db_error + db) option" where
  "db_open os io coins dir =
     (let wal_file = map_of dir ''wal.log'';
          records = replay (oio_wal io) wal_file in
      case replay_into coins records (memtable_new kMemtableHeight) of None \<Rightarrow> Some (Inl BadPointer) | Some m \<Rightarrow>
      let log = (case wal_file of None \<Rightarrow> [] | Some bs \<Rightarrow> resize_file (wal_valid_end records) bs);
          (num_to_path, max_num) = scan_dir dir;
          manifest_file = map_of dir ''MANIFEST'';
          live = live_entries (oio_manifest io) manifest_file num_to_path;
          max_num = foldl (\<lambda>n entry. max n (mnumber entry)) max_num live in
      Option.bind (add_lives io num_to_path live empty_version)
        (\<lambda>r. case r of Inl e \<Rightarrow> Some (Inl e) | Inr ver \<Rightarrow>
           let ver = sort_levels ver;
               orphan = (\<lambda>num. num \<notin> mnumber ` set live);
               manifest = \<lparr>mlog = on_disk (case manifest_file of None \<Rightarrow> [] | Some bs \<Rightarrow> bs)\<rparr>;
               d = \<lparr>opts = os, cache = (if block_cache_bytes os > 0 then Some (cache_new (block_cache_bytes os)) else None), mtable = m,
                    db_wal = wal_open (on_disk log) (opt_sync os), db_manifest = manifest, current_version = ver,
                    next_sst_number = max (max_num + 1) 1, next_seq = 1 + max (max_wal_seq records) (max_sst_seq ver),
                    live_snapshots = [], compaction_pending = False, compaction_running = False, force_compact = False,
                    disk = (\<lambda>num. if orphan num then None else map_option on_disk (map_of num_to_path num))\<rparr> in
           if manifest_file = None \<and> live \<noteq> [] then
             (case append_snapshot (oio_writes io) (oio_sync io) live manifest of
                (_, Some e) \<Rightarrow> Some (Inl (ManifestError e))
              | (m', None) \<Rightarrow> Some (Inr (d\<lparr>db_manifest := m'\<rparr>)))
           else Some (Inr d)))"

end
