(* ===== verification/Recovery.thy ===== *)
theory Recovery
  imports Db_Open Db_Commit Compact_Merge
begin

text \<open>
  Recovery: what \<open>DB::open\<close> makes of the directory that a crash leaves of a database whose acknowledged state
  is on disk.
\<close>

section \<open>The log\<close>

definition rec_entry :: "wal_rec \<Rightarrow> entry" where
  "rec_entry r = \<lparr>ekey = rkey r, evalue = (if rtype r = Put then rval r else []), etomb = (rtype r \<noteq> Put), eseq = rseq r\<rparr>"

definition rec_req :: "wal_rec \<Rightarrow> write_request" where
  "rec_req r = \<lparr>wr_type = rtype r, wr_key = rkey r, wr_value = rval r, wr_done = False, wr_seq = rseq r\<rparr>"

lemma replay_into_apply: "replay_into coins recs m = apply_batch (zip (map coins [0..<length recs]) (map rec_req recs)) m"
proof (induction recs arbitrary: coins m)
  case (Cons r recs)
  have "map coins [0..<length (r # recs)] = coins 0 # map (\<lambda>i. coins (Suc i)) [0..<length recs]"
    by (simp add: upt_conv_Cons map_Suc_upt [symmetric] del: upt_Suc)
  then show ?case using Cons by (simp add: rec_req_def o_def split: option.splits del: upt_Suc)
qed simp

lemma replay_into_ok:
  obtains m where "replay_into coins recs (memtable_new kMemtableHeight) = Some m" "mt_ok m" "mem_sized m" "mset (mt_versions m) = mset (map rec_entry recs)"
proof -
  let ?b = "zip (map coins [0..<length recs]) (map rec_req recs)"
  have new: "mt_ok (memtable_new kMemtableHeight)" "mem_sized (memtable_new kMemtableHeight)" "mt_versions (memtable_new kMemtableHeight) = []"
    by (simp_all add: mt_ok_new kMemtableHeight_def mem_sized_def mt_versions_new) (simp add: memtable_new_def)
  have "map snd ?b = map rec_req recs" by (simp add: map_snd_zip)
  then have "map (req_entry \<circ> snd) ?b = map (req_entry \<circ> rec_req) recs" by (simp only: map_map [symmetric])
  also have "req_entry \<circ> rec_req = rec_entry" by (simp add: fun_eq_iff rec_entry_def rec_req_def req_entry_def)
  finally have entries: "map (req_entry \<circ> snd) ?b = map rec_entry recs" .
  show thesis using apply_batch_ok [OF new(1,2), of ?b] that unfolding entries by (auto simp: replay_into_apply new(3))
qed

lemma foldl_max_bound: "(a :: 'a :: linorder) \<le> foldl (\<lambda>m x. if f x > m then f x else m) a xs" "x \<in> set xs \<Longrightarrow> f x \<le> foldl (\<lambda>m x. if f x > m then f x else m) a xs"
proof -
  have "a \<le> foldl (\<lambda>m x. if f x > m then f x else m) a xs \<and> (\<forall>x \<in> set xs. f x \<le> foldl (\<lambda>m x. if f x > m then f x else m) a xs)"
  proof (induction xs arbitrary: a)
    case (Cons y xs)
    from Cons [of "if f y > a then f y else a"] show ?case by (auto split: if_splits)
  qed simp
  then show "a \<le> foldl (\<lambda>m x. if f x > m then f x else m) a xs" "x \<in> set xs \<Longrightarrow> f x \<le> foldl (\<lambda>m x. if f x > m then f x else m) a xs" by auto
qed

lemma foldl_max_less: "a < (b :: 'a :: linorder) \<Longrightarrow> \<forall>x \<in> set xs. f x < b \<Longrightarrow> foldl (\<lambda>m x. if f x > m then f x else m) a xs < b"
  by (induction xs arbitrary: a) auto

section \<open>The directory\<close>

definition number_range :: "int set" where "number_range = {0..<2 ^ 31}"

lemma map_of_map_put: "map_of (map_put n b m) = (map_of m)(n \<mapsto> b)"
  by (induction n b m rule: map_put.induct) auto

text \<open>Every table file in the directory has a name that the database has given.\<close>

definition own_names :: "directory \<Rightarrow> bool" where
  "own_names dir \<longleftrightarrow> distinct (map fst dir) \<and> (\<forall>(name, bs) \<in> set dir. extension name = ''.sst'' \<longrightarrow> (\<exists>n \<in> number_range. name = sst_name n))"

lemma own_names_Cons:
  assumes "own_names ((name, bs) # dir)"
  shows "own_names dir" "map_of dir name = None"
  using assms by (auto simp: own_names_def map_of_eq_None_iff)

lemma scan_entry_own:
  assumes "own_names ((name, bs) # dir)"
  obtains "scan_entry (name, bs) (m, k) = (m, k)" "\<And>n. n \<in> number_range \<Longrightarrow> name \<noteq> sst_name n"
  | n where "n \<in> number_range" "name = sst_name n" "scan_entry (name, bs) (m, k) = (map_put n bs m, max k n)"
proof (cases "extension name = ''.sst''")
  case True
  with assms obtain n where "n \<in> number_range" "name = sst_name n" by (auto simp: own_names_def)
  then show thesis using that(2) [of n] sst_name_parts [of n] by (simp add: scan_entry_def number_range_def)
next
  case False
  then show thesis using that(1) sst_name_parts(1) by (fastforce simp: scan_entry_def number_range_def)
qed

lemma scan_entries:
  assumes "own_names dir"
  shows "map_of (fst (fold scan_entry dir (m, k))) n =
      (case (if n \<in> number_range then map_of dir (sst_name n) else None) of Some bs \<Rightarrow> Some bs | None \<Rightarrow> map_of m n)
    \<and> k \<le> snd (fold scan_entry dir (m, k))
    \<and> (n \<in> number_range \<longrightarrow> map_of dir (sst_name n) \<noteq> None \<longrightarrow> n \<le> snd (fold scan_entry dir (m, k)))"
  using assms
proof (induction dir arbitrary: m k)
  case (Cons e dir)
  obtain name bs where e: "e = (name, bs)" by force
  note own = Cons.prems [unfolded e]
  from own show ?case
  proof (cases rule: scan_entry_own [of name bs dir m k])
    case 1
    then show ?thesis using Cons.IH [OF own_names_Cons(1) [OF own], of m k] by (auto simp: e)
  next
    case (2 i)
    have same: "sst_name n = sst_name i \<longleftrightarrow> n = i" if "n \<in> number_range" using sst_name_inj that 2(1) by (auto simp: number_range_def)
    show ?thesis using 2 same own_names_Cons(2) [OF own] Cons.IH [OF own_names_Cons(1) [OF own], of "map_put i bs m" "max k i"]
      by (cases "n = i") (auto simp: e map_of_map_put split: option.splits)
  qed
qed simp

lemma scan_dir_own:
  assumes "own_names dir"
  shows "map_of (fst (scan_dir dir)) n = (if n \<in> number_range then map_of dir (sst_name n) else None)"
    and "0 \<le> snd (scan_dir dir)"
    and "n \<in> number_range \<Longrightarrow> map_of dir (sst_name n) \<noteq> None \<Longrightarrow> n \<le> snd (scan_dir dir)"
  using scan_entries [OF assms, of "[]" 0 n] by (auto simp: scan_dir_def split: option.splits)

section \<open>The version\<close>

definition meta_entry :: "file_meta \<Rightarrow> manifest_entry" where
  "meta_entry fm = \<lparr>mnumber = fm_number fm, mlevel = fm_level fm, smallest_key = fm_smallest fm, largest_key = fm_largest fm\<rparr>"

lemma version_to_manifest_files: "version_to_manifest ver = map meta_entry (ver_files ver)"
  by (simp add: version_to_manifest_def ver_files_def meta_entry_def [abs_def] map_concat o_def)

text \<open>The table of \<open>fm\<close> is in the directory, and its MANIFEST entry says what \<open>fm\<close> says.\<close>

definition stored_at :: "(int \<times> bytes) list \<Rightarrow> file_meta \<Rightarrow> bool" where
  "stored_at num_to_path fm \<longleftrightarrow> (\<exists>bs. map_of num_to_path (fm_number fm) = Some bs \<and> sst_open None None None (fm_number fm) bs = Inr (fm_table fm)) \<and>
     0 \<le> fm_level fm \<and> fm_level fm < int kMaxLevels \<and> fm_smallest fm \<noteq> [] \<and> fm_largest fm \<noteq> []"

definition push_file :: "file_meta \<Rightarrow> version \<Rightarrow> version" where
  "push_file fm ver = \<lparr>files = (files ver)(nat (fm_level fm) := files ver (nat (fm_level fm)) @ [fm])\<rparr>"

lemma add_live_stored:
  assumes "stored_at num_to_path fm" "oio_open io = (\<lambda>_. (None, None, None))"
  shows "add_live io num_to_path (meta_entry fm) ver = Some (Inr (push_file fm ver))"
  using assms by (cases fm) (auto simp: add_live_def stored_at_def meta_entry_def key_range_def push_file_def Let_def)

lemma add_lives_stored:
  assumes "\<forall>fm \<in> set fms. stored_at num_to_path fm" "oio_open io = (\<lambda>_. (None, None, None))"
  shows "add_lives io num_to_path (map meta_entry fms) ver = Some (Inr (fold push_file fms ver))"
  using assms(1) by (induction fms arbitrary: ver) (simp_all add: add_live_stored assms(2))

lemma files_fold_push: "\<forall>fm \<in> set fms. 0 \<le> fm_level fm \<Longrightarrow> files (fold push_file fms ver) l = files ver l @ filter (\<lambda>fm. fm_level fm = int l) fms"
  by (induction fms arbitrary: ver) (auto simp: push_file_def)

definition levelled :: "version \<Rightarrow> bool" where
  "levelled ver \<longleftrightarrow> (\<forall>l < kMaxLevels. \<forall>fm \<in> set (files ver l). fm_level fm = int l)"

lemma filter_level:
  assumes "levelled ver" "l < kMaxLevels"
  shows "filter (\<lambda>fm. fm_level fm = int l) (ver_files ver) = files ver l"
proof -
  have each: "filter (\<lambda>fm. fm_level fm = int l) (files ver i) = (if i = l then files ver l else [])" if "i < kMaxLevels" for i
    using assms that by (auto simp: levelled_def filter_empty_conv filter_id_conv)
  have "filter (\<lambda>fm. fm_level fm = int l) (concat (map (files ver) [0..<n])) = (if l < n then files ver l else [])" if "n \<le> kMaxLevels" for n
    using that by (induction n) (auto simp: each)
  then show ?thesis using assms(2) by (simp add: ver_files_def)
qed

lemma sort_key_strict:
  assumes "sorted_wrt (\<lambda>x y. f x < (f y :: 'b :: linorder)) xs" "mset ys = mset xs"
  shows "sort_key f ys = xs"
proof (rule properties_for_sort_key)
  show "mset xs = mset ys" using assms(2) by simp
  have inj: "inj_on f (set xs)" and dist: "distinct xs" using assms(1) by (induction xs) (fastforce simp: inj_on_def)+
  have dy: "distinct ys" and set: "set ys = set xs" using assms(2) dist by (auto dest: mset_eq_imp_distinct_iff mset_eq_setD)
  show "filter (\<lambda>x. f k = f x) xs = filter (\<lambda>x. f k = f x) ys" if "k \<in> set xs" for k
  proof -
    have "filter (\<lambda>x. f k = f x) zs = [k]" if "distinct zs" "set zs = set xs" for zs
    proof -
      have "filter (\<lambda>x. f k = f x) zs = filter (\<lambda>x. x = k) zs" using inj \<open>k \<in> set xs\<close> that(2) by (intro filter_cong) (auto simp: inj_on_def)
      also have "\<dots> = [k]"
      proof -
        have "k \<in> set zs" using that(2) \<open>k \<in> set xs\<close> by simp
        with that(1) show ?thesis by (induction zs) (auto simp: filter_empty_conv)
      qed
      finally show ?thesis .
    qed
    from this [OF dist refl] this [OF dy set] show ?thesis by simp
  qed
  show "sorted (map f xs)" using assms(1) by (auto simp: sorted_map intro: sorted_wrt_mono_rel [rotated] less_imp_le)
qed

lemma sort_levels_same:
  assumes "version_ok ver" "sorted_wrt (\<lambda>f g. fm_number f < fm_number g) (files ver 0)"
    and "\<And>l. l < kMaxLevels \<Longrightarrow> files ver' l = files ver l" "l < kMaxLevels"
  shows "files (sort_levels ver') l = files ver l"
proof (cases "l = 0")
  case True
  then show ?thesis using assms(3) [of 0] sort_key_strict [OF assms(2) refl] by (simp add: sort_levels_def)
next
  case False
  have ok: "\<forall>fm \<in> set (files ver l). fm_ok fm" "disjoint_files (files ver l)" using version_ok_level [OF assms(1,4)] False by auto
  have "fm_smallest f < fm_smallest g" if "f \<in> set (files ver l)" "fm_largest f < fm_smallest g" for f g
    using fm_ok_bounds [of f] ok(1) that by (meson le_less_trans)
  then have "sorted_wrt (\<lambda>f g. fm_smallest f < fm_smallest g) (files ver l)"
    using ok(2) unfolding disjoint_files_def by (rule_tac sorted_wrt_mono_rel) auto
  then show ?thesis using False assms(3,4) sort_key_strict [of fm_smallest "files ver l" "sort_key fm_number (files ver l)"] by (simp add: sort_levels_def Let_def)
qed

section \<open>What a crash leaves\<close>

text \<open>
  What holds of the files of a version independently of the disk: each is at its level with a key range, has a number
  that a file name can carry, and a footer that bounds its sequence numbers.
\<close>

definition file_sound :: "u64 \<Rightarrow> file_meta \<Rightarrow> bool" where
  "file_sound n fm \<longleftrightarrow> fm_smallest fm \<noteq> [] \<and> fm_largest fm \<noteq> [] \<and> fm_number fm \<in> number_range \<and>
     (\<forall>e \<in> set (fm_entries fm). eseq e \<le> fmax_seq (tfooter (fm_table fm))) \<and> fmax_seq (tfooter (fm_table fm)) < n"

definition ver_sound :: "u64 \<Rightarrow> version \<Rightarrow> bool" where
  "ver_sound n ver \<longleftrightarrow> levelled ver \<and> sorted_wrt (\<lambda>f g. fm_number f < fm_number g) (files ver 0) \<and> (\<forall>fm \<in> set (ver_files ver). file_sound n fm)"

definition holds_table :: "bytes \<Rightarrow> file_meta \<Rightarrow> bool" where
  "holds_table bs fm \<longleftrightarrow> sst_open None None None (fm_number fm) bs = Inr (fm_table fm)"

text \<open>
  The state of the database is on disk: the log holds the versions of the memtable, the last
  snapshot of the MANIFEST names the files of the version, and each of these is stored under its
  number. Everything written is durable.
\<close>

definition wal_persisted :: "wal \<Rightarrow> entry list \<Rightarrow> bool" where
  "wal_persisted w es \<longleftrightarrow> (\<exists>recs. wlog w = on_disk (concat (map wal_frame recs)) \<and> (\<forall>r \<in> set recs. rec_ok r) \<and> mset (map rec_entry recs) = mset es)"

definition manifest_persisted :: "manifest \<Rightarrow> manifest_entry list \<Rightarrow> bool" where
  "manifest_persisted m es \<longleftrightarrow> (\<exists>olds. mlog m = on_disk (concat (map snapshot_frame olds)) \<and> (\<forall>s \<in> set olds. snapshot_ok s) \<and> last ([] # olds) = es)"

definition tables_persisted :: "(int \<rightharpoonup> afile) \<Rightarrow> file_meta list \<Rightarrow> bool" where
  "tables_persisted dk fms \<longleftrightarrow> (\<forall>fm \<in> set fms. \<exists>bs. dk (fm_number fm) = Some (on_disk bs) \<and> holds_table bs fm)"

definition persisted :: "db \<Rightarrow> bool" where
  "persisted d \<longleftrightarrow> wal_persisted (db_wal d) (mt_versions (mtable d)) \<and>
     manifest_persisted (db_manifest d) (version_to_manifest (current_version d)) \<and>
     ver_sound (next_seq d) (current_version d) \<and> tables_persisted (disk d) (ver_files (current_version d)) \<and> dom (disk d) \<subseteq> number_range"

text \<open>The directory after a crash: each file is what its durable part and the kernel's write-back make of it.\<close>

definition crash_dir :: "db \<Rightarrow> directory \<Rightarrow> bool" where
  "crash_dir d dir \<longleftrightarrow> own_names dir \<and>
     (\<exists>img. map_of dir ''wal.log'' = Some img \<and> crash_image (wlog (db_wal d)) img) \<and>
     (\<exists>img. map_of dir ''MANIFEST'' = Some img \<and> crash_image (mlog (db_manifest d)) img) \<and>
     (\<forall>n f. disk d n = Some f \<longrightarrow> (\<exists>img. map_of dir (sst_name n) = Some img \<and> crash_image f img))"

text \<open>What recovery finds in a directory, whatever else is in it: the versions of a memtable and a version with its files.\<close>

definition wal_reads :: "bytes \<Rightarrow> entry list \<Rightarrow> bool" where
  "wal_reads log es \<longleftrightarrow> (\<forall>rs. no_fault rs \<longrightarrow> mset (map rec_entry (replay rs (Some log))) = mset es)"

definition manifest_reads :: "bytes \<Rightarrow> manifest_entry list \<Rightarrow> bool" where
  "manifest_reads man es \<longleftrightarrow> (\<forall>rs. no_fault rs \<longrightarrow> load_latest rs (Some man) = es)"

definition recoverable :: "db \<Rightarrow> directory \<Rightarrow> bool" where
  "recoverable d dir \<longleftrightarrow> own_names dir \<and> ver_sound (next_seq d) (current_version d) \<and>
     (\<forall>fm \<in> set (ver_files (current_version d)). \<exists>bs. map_of dir (sst_name (fm_number fm)) = Some bs \<and> holds_table bs fm) \<and>
     (\<exists>log. map_of dir ''wal.log'' = Some log \<and> wal_reads log (mt_versions (mtable d))) \<and>
     (\<exists>man. map_of dir ''MANIFEST'' = Some man \<and> manifest_reads man (version_to_manifest (current_version d)))"

lemma crash_image_on_disk [simp]: "crash_image (on_disk bs) img \<longleftrightarrow> img = bs"
  by (auto simp: crash_image_def on_disk_def)

lemma wal_persisted_reads:
  assumes "wal_persisted w es" "crash_image (wlog w) log"
  shows "wal_reads log es"
proof -
  obtain recs where r: "wlog w = on_disk (concat (map wal_frame recs))" "\<forall>r \<in> set recs. rec_ok r" "mset (map rec_entry recs) = mset es"
    using assms(1) by (auto simp: wal_persisted_def)
  have "log = walog.frames recs" using assms(2) by (simp add: r(1) walog.frames_def)
  then show ?thesis using walog.loop_roundtrip [OF r(2)] r(3) by (simp add: wal_reads_def replay_def)
qed

lemma manifest_persisted_reads:
  assumes "manifest_persisted m es" "crash_image (mlog m) man"
  shows "manifest_reads man es" "mlog m = on_disk man"
  using assms by (auto simp: manifest_persisted_def manifest_reads_def load_latest_roundtrip)

lemma tables_persisted_dir:
  assumes "tables_persisted (disk d) fms" "crash_dir d dir"
  shows "\<forall>fm \<in> set fms. \<exists>bs. map_of dir (sst_name (fm_number fm)) = Some bs \<and> holds_table bs fm"
proof
  fix fm assume "fm \<in> set fms"
  then obtain bs where bs: "disk d (fm_number fm) = Some (on_disk bs)" "holds_table bs fm" using assms(1) by (auto simp: tables_persisted_def)
  then obtain img where "map_of dir (sst_name (fm_number fm)) = Some img" "crash_image (on_disk bs) img"
    using assms(2) unfolding crash_dir_def by blast
  with bs(2) show "\<exists>bs. map_of dir (sst_name (fm_number fm)) = Some bs \<and> holds_table bs fm" by simp
qed

lemma persisted_recoverable:
  assumes "persisted d" "crash_dir d dir"
  shows "recoverable d dir"
  using assms tables_persisted_dir [OF _ assms(2)] wal_persisted_reads manifest_persisted_reads(1)
  unfolding persisted_def recoverable_def crash_dir_def by blast

section \<open>Recovery\<close>

text \<open>Whatever the log holds, recovery cuts it down to the frames of the records it accepted.\<close>

lemma wal_recovered:
  "resize_file (wal_valid_end (replay rs (Some log))) log = concat (map wal_frame (replay rs (Some log)))"
  "\<forall>r \<in> set (replay rs (Some log)). rec_ok r"
proof -
  let ?recs = "replay_loop (rs, log)"
  obtain tail where t: "log = walog.frames ?recs @ tail" "\<forall>r \<in> set ?recs. rec_ok r" using walog.loop_sound [of rs log] by blast
  then have "length (walog.frames ?recs) \<le> length log" by (metis le_add1 length_append)
  then show "resize_file (wal_valid_end (replay rs (Some log))) log = concat (map wal_frame (replay rs (Some log)))"
    using walog.loop_prefix [of rs log] by (simp add: resize_file_def wal_valid_end_frames replay_def walog.frames_def)
  show "\<forall>r \<in> set (replay rs (Some log)). rec_ok r" using t(2) by (simp add: replay_def)
qed

text \<open>The database that \<open>DB::open\<close> makes of its parts, when a MANIFEST exists.\<close>

definition reopened :: "options \<Rightarrow> directory \<Rightarrow> wal_rec list \<Rightarrow> memtable \<Rightarrow> bytes \<Rightarrow> bytes \<Rightarrow> manifest_entry list \<Rightarrow> version \<Rightarrow> db" where
  "reopened os dir recs m log man live ver =
     \<lparr>opts = os, cache = (if block_cache_bytes os > 0 then Some (cache_new (block_cache_bytes os)) else None), mtable = m,
      db_wal = wal_open (on_disk log) (opt_sync os), db_manifest = \<lparr>mlog = on_disk man\<rparr>, current_version = ver,
      next_sst_number = max (foldl (\<lambda>n entry. max n (mnumber entry)) (snd (scan_dir dir)) live + 1) 1, next_seq = 1 + max (max_wal_seq recs) (max_sst_seq ver),
      live_snapshots = [], compaction_pending = False, compaction_running = False, force_compact = False,
      disk = (\<lambda>num. if num \<notin> mnumber ` set live then None else map_option on_disk (map_of (fst (scan_dir dir)) num))\<rparr>"

lemma db_open_parts:
  assumes "map_of dir ''wal.log'' = Some log" "map_of dir ''MANIFEST'' = Some man"
    and "recs = replay (oio_wal io) (Some log)" "replay_into coins recs (memtable_new kMemtableHeight) = Some m"
    and "resize_file (wal_valid_end recs) log = log'" "load_latest (oio_manifest io) (Some man) = live"
    and "add_lives io (fst (scan_dir dir)) live empty_version = Some (Inr ver)"
  shows "db_open os io coins dir = Some (Inr (reopened os dir recs m log' man live (sort_levels ver)))"
  using assms(4-7) by (simp add: db_open_def reopened_def assms(1,2) assms(3) [symmetric] live_entries_def Let_def split_beta)

lemma foldl_max_number: "n \<le> foldl (\<lambda>n entry. max n (mnumber entry)) n live" "e \<in> set live \<Longrightarrow> mnumber e \<le> foldl (\<lambda>n entry. max n (mnumber entry)) n live"
proof -
  have "n \<le> foldl (\<lambda>n entry. max n (mnumber entry)) n live \<and> (\<forall>e \<in> set live. mnumber e \<le> foldl (\<lambda>n entry. max n (mnumber entry)) n live)"
  proof (induction live arbitrary: n)
    case (Cons e live)
    from Cons [of "max n (mnumber e)"] show ?case by auto
  qed simp
  then show "n \<le> foldl (\<lambda>n entry. max n (mnumber entry)) n live" "e \<in> set live \<Longrightarrow> mnumber e \<le> foldl (\<lambda>n entry. max n (mnumber entry)) n live" by auto
qed

lemma version_same_files:
  assumes "\<And>l. l < kMaxLevels \<Longrightarrow> files ver' l = files ver l"
  shows "ver_files ver' = ver_files ver" "ver_runs ver' = ver_runs ver" "version_ok ver' = version_ok ver" "version_to_manifest ver' = version_to_manifest ver" "levelled ver' = levelled ver"
proof -
  show vf: "ver_files ver' = ver_files ver" unfolding ver_files_def by (intro arg_cong [of _ _ concat] map_cong) (auto simp: assms)
  have "map (level_entries ver') [1..<kMaxLevels] = map (level_entries ver) [1..<kMaxLevels]" by (intro map_cong) (auto simp: assms level_entries_def)
  then show "ver_runs ver' = ver_runs ver" by (simp add: ver_runs_def assms)
  show "version_ok ver' = version_ok ver" by (auto simp: version_ok_def vf assms)
  show "version_to_manifest ver' = version_to_manifest ver" by (simp add: version_to_manifest_files vf)
  show "levelled ver' = levelled ver" by (simp add: levelled_def assms)
qed

lemma below_next: "(s :: u64) \<le> m \<Longrightarrow> m < UINT64_MAX \<Longrightarrow> s < 1 + m"
proof -
  assume a: "s \<le> m" "m < UINT64_MAX"
  have "1 + m \<noteq> 0"
  proof
    assume "1 + m = 0"
    then have "m = - 1" by (simp add: add_eq_0_iff)
    with a(2) show False by simp
  qed
  then have "unat (1 + m) = Suc (unat m)" by (rule unatSuc)
  with a(1) show ?thesis by (simp add: word_less_nat_alt word_le_nat_alt)
qed

lemma UINT64_MAX_pos: "(0 :: u64) < UINT64_MAX"
  by (simp add: word_gt_0)

text \<open>The recovered memtable has the versions of the one before the crash.\<close>

lemma replayed_memtable:
  assumes "db_ok d" "mset (map rec_entry recs) = mset (mt_versions (mtable d))"
  obtains m where "replay_into coins recs (memtable_new kMemtableHeight) = Some m" "mt_ok m" "mem_sized m" "mt_versions m = mt_versions (mtable d)"
proof -
  obtain m where m: "replay_into coins recs (memtable_new kMemtableHeight) = Some m" "mt_ok m" "mem_sized m" "mset (mt_versions m) = mset (map rec_entry recs)"
    by (rule replay_into_ok)
  have ok: "mt_ok (mtable d)" "unique_versions (set (mt_versions (mtable d)))" using assms(1) by (auto simp: db_ok_def unique_versions_def db_versions_files)
  have "mt_versions m = mt_versions (mtable d)"
    using sorted_versions_unique [OF skiplist.versions_sorted [OF ok(1)] skiplist.versions_sorted [OF m(2)] _ ok(2)] m(4) assms(2) by simp
  with m that show thesis by blast
qed

text \<open>The recovered counter is past every sequence number in use, without wrapping around.\<close>

lemma recovered_seq:
  assumes "db_ok d" "mset (map rec_entry recs) = mset (mt_versions (mtable d))" "ver_sound (next_seq d) (current_version d)"
    and "ver_files ver = ver_files (current_version d)" "n = 1 + max (max_wal_seq recs) (max_sst_seq ver)"
  shows "\<forall>e \<in> db_versions d. eseq e < n" "\<forall>fm \<in> set (ver_files ver). fmax_seq (tfooter (fm_table fm)) < n"
    "0 < next_seq d \<Longrightarrow> n \<le> next_seq d"
proof -
  let ?f = "\<lambda>fm. fmax_seq (tfooter (fm_table fm))"
  have next_d: "s < UINT64_MAX" if "s < next_seq d" for s using that by (rule order.strict_trans2) simp
  have ents: "set (mt_versions (mtable d)) = rec_entry ` set recs" using mset_eq_setD [OF assms(2)] by simp
  have "\<forall>r \<in> set recs. rseq r < UINT64_MAX" using assms(1) next_d by (fastforce simp: db_ok_def db_versions_files ents rec_entry_def)
  then have wal: "max_wal_seq recs < UINT64_MAX" "r \<in> set recs \<Longrightarrow> rseq r \<le> max_wal_seq recs" for r
    unfolding max_wal_seq_def using foldl_max_less [OF UINT64_MAX_pos, of recs rseq] foldl_max_bound(2) [of r recs rseq 0] by auto
  have "\<forall>fm \<in> set (ver_files ver). ?f fm < UINT64_MAX" using assms(3,4) next_d by (auto simp: ver_sound_def file_sound_def)
  then have sst: "max_sst_seq ver < UINT64_MAX" "fm \<in> set (ver_files ver) \<Longrightarrow> ?f fm \<le> max_sst_seq ver" for fm
    unfolding max_sst_seq_def ver_files_def [symmetric] using foldl_max_less [OF UINT64_MAX_pos, of _ ?f] foldl_max_bound(2) [of fm _ ?f 0] by auto
  have nxt: "s < n" if "s \<le> max_wal_seq recs \<or> s \<le> max_sst_seq ver" for s
    unfolding assms(5) using that wal(1) sst(1) by (auto intro!: below_next simp: le_max_iff_disj)
  then show "\<forall>fm \<in> set (ver_files ver). ?f fm < n" using sst(2) by blast
  have "eseq e \<le> max_sst_seq ver" if "fm \<in> set (ver_files ver)" "e \<in> set (fm_entries fm)" for e fm
    using assms(3,4) sst(2) [OF that(1)] that unfolding ver_sound_def file_sound_def by (metis order.trans)
  then show "\<forall>e \<in> db_versions d. eseq e < n" using nxt wal(2) assms(4) by (auto simp: db_versions_files ents rec_entry_def)
  assume pos: "0 < next_seq d"
  have "eseq (rec_entry r) < next_seq d" if "r \<in> set recs" for r using assms(1) that by (simp add: db_ok_def db_versions_files ents)
  then have "\<forall>r \<in> set recs. rseq r < next_seq d" by (simp add: rec_entry_def)
  then have "max_wal_seq recs < next_seq d" unfolding max_wal_seq_def by (rule foldl_max_less [OF pos])
  moreover have "\<forall>fm \<in> set (ver_files ver). ?f fm < next_seq d" using assms(3,4) by (auto simp: ver_sound_def file_sound_def)
  then have "max_sst_seq ver < next_seq d" unfolding max_sst_seq_def ver_files_def [symmetric] by (rule foldl_max_less [OF pos])
  ultimately show "n \<le> next_seq d" unfolding assms(5) using inc_le [of "max (max_wal_seq recs) (max_sst_seq ver)" "next_seq d"] by (simp add: add.commute)
qed

lemma recovered_number: "\<forall>fm \<in> set (ver_files ver). fm_number fm < next_sst_number (reopened os dir recs m log man (version_to_manifest ver) ver')"
  using foldl_max_number(2) [of _ "version_to_manifest ver" "snd (scan_dir dir)"]
  by (fastforce simp: version_to_manifest_files reopened_def meta_entry_def)

lemma recovered_tables:
  assumes "recoverable d dir"
  shows "tables_persisted (disk (reopened os dir recs m log man (version_to_manifest (current_version d)) ver)) (ver_files (current_version d))"
  unfolding tables_persisted_def
proof
  fix fm assume fm: "fm \<in> set (ver_files (current_version d))"
  then obtain bs where bs: "map_of dir (sst_name (fm_number fm)) = Some bs" "holds_table bs fm" "fm_number fm \<in> number_range" "own_names dir"
    using assms by (auto simp: recoverable_def ver_sound_def file_sound_def)
  have "map_of (fst (scan_dir dir)) (fm_number fm) = Some bs" using scan_dir_own(1) [OF bs(4)] bs(1,3) by simp
  moreover have "fm_number fm \<in> mnumber ` set (version_to_manifest (current_version d))" using fm by (force simp: version_to_manifest_files meta_entry_def)
  ultimately show "\<exists>bs. disk (reopened os dir recs m log man (version_to_manifest (current_version d)) ver) (fm_number fm) = Some (on_disk bs) \<and> holds_table bs fm"
    using bs(2) by (auto simp: reopened_def)
qed

lemma recovered_version:
  assumes "db_ok d" "recoverable d dir" "oio_open io = (\<lambda>_. (None, None, None))"
  obtains ver where "add_lives io (fst (scan_dir dir)) (version_to_manifest (current_version d)) empty_version = Some (Inr ver)"
    "\<And>l. l < kMaxLevels \<Longrightarrow> files (sort_levels ver) l = files (current_version d) l"
proof -
  let ?ver = "current_version d"
  have p: "levelled ?ver" "sorted_wrt (\<lambda>f g. fm_number f < fm_number g) (files ?ver 0)" "version_ok ?ver" "own_names dir"
    using assms(1,2) by (auto simp: recoverable_def ver_sound_def db_ok_def)
  have st: "stored_at (fst (scan_dir dir)) fm" if fm: "fm \<in> set (ver_files ?ver)" for fm
  proof -
    have "file_sound (next_seq d) fm" "\<exists>bs. map_of dir (sst_name (fm_number fm)) = Some bs \<and> holds_table bs fm"
      using assms(2) fm by (auto simp: recoverable_def ver_sound_def)
    moreover have "0 \<le> fm_level fm" "fm_level fm < int kMaxLevels" using p(1) fm by (auto simp: levelled_def in_ver_files)
    ultimately show ?thesis using scan_dir_own(1) [OF p(4), of "fm_number fm"] by (auto simp: stored_at_def file_sound_def holds_table_def)
  qed
  then have "\<forall>fm \<in> set (ver_files ?ver). 0 \<le> fm_level fm" by (auto simp: stored_at_def)
  from files_fold_push [OF this] have "files (fold push_file (ver_files ?ver) empty_version) l = files ?ver l" if "l < kMaxLevels" for l
    using filter_level [OF p(1) that] by (simp add: empty_version_def)
  with sort_levels_same [OF p(3,2)] add_lives_stored [OF _ assms(3)] st show thesis
    by (intro that) (auto simp: version_to_manifest_files)
qed

lemma fresh_cache_matches:
  assumes "cache_matches c ver" "ver_files ver' = ver_files ver"
  shows "cache_matches (if 0 < n then Some (cache_new n) else None) ver'" "cached_numbers (if 0 < n then Some (cache_new n) else None) = {}"
  using assms by (auto simp: cache_matches_def cache_good_def cache_inv_new cached_numbers_def) (auto simp: cache_new_def coherent_def)

lemma open_recoverable:
  assumes "db_ok d" "recoverable d dir"
    and "no_fault (oio_wal io)" "no_fault (oio_manifest io)" "oio_open io = (\<lambda>_. (None, None, None))"
  obtains d' where "db_open os io coins dir = Some (Inr d')" "db_ok d'" "db_runs d' = db_runs d"
    "\<And>man. map_of dir ''MANIFEST'' = Some man \<Longrightarrow> manifest_persisted \<lparr>mlog = on_disk man\<rparr> (version_to_manifest (current_version d)) \<Longrightarrow> persisted d'"
    "0 < next_seq d \<Longrightarrow> next_seq d' \<le> next_seq d"
proof -
  let ?ver = "current_version d" and ?live = "version_to_manifest (current_version d)"
  obtain log man where dir: "map_of dir ''wal.log'' = Some log" "wal_reads log (mt_versions (mtable d))"
      "map_of dir ''MANIFEST'' = Some man" "manifest_reads man ?live" "own_names dir" "ver_sound (next_seq d) ?ver"
      "\<forall>fm \<in> set (ver_files ?ver). \<exists>bs. map_of dir (sst_name (fm_number fm)) = Some bs \<and> holds_table bs fm"
    using assms(2) by (auto simp: recoverable_def)
  let ?recs = "replay (oio_wal io) (Some log)" and ?log = "concat (map wal_frame (replay (oio_wal io) (Some log)))"
  note w = wal_recovered [of "oio_wal io" log]
  have ents: "mset (map rec_entry ?recs) = mset (mt_versions (mtable d))" and mf: "load_latest (oio_manifest io) (Some man) = ?live"
    using dir(2,4) assms(3,4) by (auto simp: wal_reads_def manifest_reads_def)
  obtain m where m: "replay_into coins ?recs (memtable_new kMemtableHeight) = Some m" "mt_ok m" "mem_sized m" "mt_versions m = mt_versions (mtable d)"
    by (rule replayed_memtable [OF assms(1) ents])
  obtain ver where ver: "add_lives io (fst (scan_dir dir)) ?live empty_version = Some (Inr ver)"
      "\<And>l. l < kMaxLevels \<Longrightarrow> files (sort_levels ver) l = files ?ver l" by (rule recovered_version [OF assms(1,2,5)]) blast
  note same = version_same_files [OF ver(2), simplified]
  define d' where "d' = reopened os dir ?recs m ?log man ?live (sort_levels ver)"
  have d': "current_version d' = sort_levels ver" "mtable d' = m" "next_seq d' = 1 + max (max_wal_seq ?recs) (max_sst_seq (sort_levels ver))"
      "cache d' = (if 0 < block_cache_bytes os then Some (cache_new (block_cache_bytes os)) else None)" "wlog (db_wal d') = on_disk ?log" "db_manifest d' = \<lparr>mlog = on_disk man\<rparr>"
    by (simp_all add: d'_def reopened_def wal_open_def)
  note seq = recovered_seq [OF assms(1) ents dir(6) same(1) d'(3)]
  have op: "db_open os io coins dir = Some (Inr d')" unfolding d'_def by (rule db_open_parts [OF dir(1,3) refl m(1) w(1) mf ver(1)])
  have runs: "db_runs d' = db_runs d" by (simp add: db_runs_def d' m(4) same(2))
  have nums: "\<forall>fm \<in> set (ver_files ?ver). fm_number fm < next_sst_number d'" unfolding d'_def by (rule recovered_number)
  have ok: "db_ok d'" using assms(1) m(2,3) same(1,3) seq(1) nums fresh_cache_matches [of "cache d" ?ver "sort_levels ver" "block_cache_bytes os"]
    by (auto simp: db_ok_def d' runs db_versions_def)
  have "ver_sound (next_seq d') (current_version d')"
    using dir(6) seq(2) same(1,5) ver(2) [of 0] by (auto simp: ver_sound_def file_sound_def d'(1))
  moreover have "tables_persisted (disk d') (ver_files (current_version d'))"
    unfolding d'(1) same(1) unfolding d'_def by (rule recovered_tables [OF assms(2)])
  moreover have "wal_persisted (db_wal d') (mt_versions m)" using w(2) ents by (auto simp: wal_persisted_def d' m(4) intro: exI [of _ ?recs])
  moreover have "dom (disk d') \<subseteq> number_range" using scan_dir_own(1) [OF dir(5)] by (auto simp: d'_def reopened_def split: if_splits)
  ultimately have "persisted d'" if "manifest_persisted \<lparr>mlog = on_disk man\<rparr> ?live" using that by (simp add: persisted_def d' same(4))
  with op ok runs dir(3) seq(3) show thesis by (intro that) auto
qed

lemma open_persisted:
  assumes "db_ok d" "persisted d" "crash_dir d dir"
    and "no_fault (oio_wal io)" "no_fault (oio_manifest io)" "oio_open io = (\<lambda>_. (None, None, None))"
  obtains d' where "db_open os io coins dir = Some (Inr d')" "db_ok d'" "persisted d'" "db_runs d' = db_runs d"
    "0 < next_seq d \<Longrightarrow> next_seq d' \<le> next_seq d"
proof -
  obtain man where man: "map_of dir ''MANIFEST'' = Some man" "crash_image (mlog (db_manifest d)) man" using assms(3) by (auto simp: crash_dir_def)
  have mp: "manifest_persisted (db_manifest d) (version_to_manifest (current_version d))" using assms(2) by (simp add: persisted_def)
  obtain d' where d': "db_open os io coins dir = Some (Inr d')" "db_ok d'" "db_runs d' = db_runs d"
      "manifest_persisted \<lparr>mlog = on_disk man\<rparr> (version_to_manifest (current_version d)) \<Longrightarrow> persisted d'"
      "0 < next_seq d \<Longrightarrow> next_seq d' \<le> next_seq d"
    by (rule open_recoverable [OF assms(1) persisted_recoverable [OF assms(2,3)] assms(4-6)]) (use man(1) in blast)
  have "manifest_persisted \<lparr>mlog = on_disk man\<rparr> (version_to_manifest (current_version d))"
    using mp manifest_persisted_reads(2) [OF mp man(2)] by (simp add: manifest_persisted_def)
  with d' show thesis by (intro that [of d']) auto
qed

end
