(* ===== verification/Durability.thy ===== *)
theory Durability
  imports Recovery
begin

text \<open>
  Which operations keep the state of the database on disk: batches of writes, flushes and
  compactions, when their system calls take effect.
\<close>

section \<open>Writes\<close>

lemma seq_max_bounds: "\<forall>e \<in> set es. eseq e \<le> seq_max es" "es \<noteq> [] \<Longrightarrow> \<exists>e \<in> set es. seq_max es = eseq e"
proof -
  have "(\<forall>e \<in> set es. eseq e \<le> seq_max es) \<and> (es \<noteq> [] \<longrightarrow> (\<exists>e \<in> set es. seq_max es = eseq e))"
  proof (induction es rule: rev_induct)
    case (snoc e es)
    show ?case
    proof (cases "es = []")
      case True
      then show ?thesis by (auto simp: seq_max_def)
    next
      case False
      with snoc show ?thesis by (auto simp: seq_max_snoc)
    qed
  qed simp
  then show "\<forall>e \<in> set es. eseq e \<le> seq_max es" "es \<noteq> [] \<Longrightarrow> \<exists>e \<in> set es. seq_max es = eseq e" by auto
qed

lemma append_batch_persisted:
  assumes "wal_persisted w es" "wmode w = EveryWrite" "append_batch rs True recs w = (w', None)" "\<forall>r \<in> set recs. rec_ok r" "recs \<noteq> []"
    and "mset es' = mset es + mset (map rec_entry recs)"
  shows "wal_persisted w' es'"
proof -
  obtain old where old: "wlog w = on_disk (concat (map wal_frame old))" "\<forall>r \<in> set old. rec_ok r" "mset (map rec_entry old) = mset es"
    using assms(1) by (auto simp: wal_persisted_def)
  note ack = append_batch_ack [OF assms(3,2,5)]
  have "wlog w' = on_disk (concat (map wal_frame (old @ recs)))" using ack old(1) by (cases "wlog w'") (simp add: on_disk_def)
  moreover have "\<forall>r \<in> set (old @ recs). rec_ok r" "mset (map rec_entry (old @ recs)) = mset es'" using old(2,3) assms(4,6) by auto
  ultimately show ?thesis unfolding wal_persisted_def by blast
qed

lemma append_snapshot_persisted:
  assumes "manifest_persisted m es" "append_snapshot rs True new m = (m', None)" "snapshot_ok new"
  shows "manifest_persisted m' new"
proof -
  obtain olds where olds: "mlog m = on_disk (concat (map snapshot_frame olds))" "\<forall>s \<in> set olds. snapshot_ok s"
    using assms(1) by (auto simp: manifest_persisted_def)
  have "contents (mlog m') = contents (mlog m) @ snapshot_frame new" "durable (mlog m') = length (contents (mlog m'))"
    by (rule append_snapshot_file [OF assms(2)], blast)+
  then have "mlog m' = on_disk (concat (map snapshot_frame (olds @ [new])))" using olds(1) by (cases "mlog m'") (simp add: on_disk_def)
  then show ?thesis unfolding manifest_persisted_def using olds(2) assms(3) by (intro exI [of _ "olds @ [new]"]) auto
qed

lemma rec_entry_record: "rec_entry (wal_record r) = req_entry r"
  by (simp add: rec_entry_def wal_record_def req_entry_def)

lemma commit_persisted:
  assumes "persisted d" "commit_batch rs True batch d = (Inr (), d')" "wmode (db_wal d) = EveryWrite" "batch \<noteq> []"
    and "mset (mt_versions (mtable d')) = mset (mt_versions (mtable d)) + mset (map (req_entry \<circ> snd) batch)"
    and "\<forall>(c, r) \<in> set batch. rec_ok (wal_record r)"
  shows "persisted d'"
proof -
  obtain w m where w: "append_batch rs True (map (wal_record \<circ> snd) batch) (db_wal d) = (w, None)" "d' = d\<lparr>db_wal := w, mtable := m\<rparr>"
    using assms(2) by (auto simp: commit_batch_def split: prod.splits option.splits)
  have "wal_persisted w (mt_versions m)"
  proof (rule append_batch_persisted [OF _ assms(3) w(1)])
    show "wal_persisted (db_wal d) (mt_versions (mtable d))" using assms(1) by (simp add: persisted_def)
    show "\<forall>r \<in> set (map (wal_record \<circ> snd) batch). rec_ok r" "map (wal_record \<circ> snd) batch \<noteq> []" using assms(4,6) by auto
    have "map (req_entry \<circ> snd) batch = map rec_entry (map (wal_record \<circ> snd) batch)" by (simp add: rec_entry_record)
    then show "mset (mt_versions m) = mset (mt_versions (mtable d)) + mset (map rec_entry (map (wal_record \<circ> snd) batch))"
      using assms(5) by (simp only: w(2)) simp
  qed
  then show ?thesis using assms(1) by (simp add: persisted_def w(2))
qed

text \<open>The snapshot that a flush appends to the MANIFEST.\<close>

definition flush_snapshot :: "db \<Rightarrow> manifest_entry list" where
  "flush_snapshot d = map meta_entry (files (current_version d) 0) @
     \<lparr>mnumber = next_sst_number d, mlevel = 0, smallest_key = ekey (hd (mt_versions (mtable d))), largest_key = ekey (last (mt_versions (mtable d)))\<rparr> #
     map meta_entry (concat (map (files (current_version d)) [1..<kMaxLevels]))"

text \<open>What a flush needs to be durable: the syncs take effect, and the snapshot stays within what recovery accepts.\<close>

definition flush_durable :: "flush_io \<Rightarrow> db \<Rightarrow> bool" where
  "flush_durable io d \<longleftrightarrow> opens (fio_table io) \<and> tio_sync (fio_table io) \<and> fio_sync io \<and> next_sst_number d \<in> number_range \<and>
     table_fit (mt_versions (mtable d)) \<and> (\<forall>e \<in> set (mt_versions (mtable d)). ekey e \<noteq> []) \<and> snapshot_ok (flush_snapshot d)"

text \<open>A table that was installed with an effective sync is on disk.\<close>

lemma installed_persisted:
  assumes "add_all es (writer_new rs) = Inr w" "install_table io num w dk = (Inr (w', t), dk')" "opens io" "tio_sync io"
    and "es \<noteq> []" "table_fit es" "ent_sorted es" "\<forall>e \<in> set es. stored e = e \<and> ekey e \<noteq> [] \<and> eseq e < n" "num \<in> number_range"
    and "fm = \<lparr>fm_number = num, fm_level = lv, fm_smallest = sst_writer.smallest_key w', fm_largest = sst_writer.largest_key w', fm_table = t\<rparr>"
  shows "file_sound n fm" "tables_persisted dk' [fm]" "\<exists>f. dk' = dk(num \<mapsto> f)" "fm_smallest fm = ekey (hd es)" "fm_largest fm = ekey (last es)"
proof -
  have op: "tio_open1 io = None" "tio_open2 io = None" "tio_open3 io = None" using assms(3) by (auto simp: opens_def)
  note f = installed_file [OF assms(1,2) op assms(5-7,10)]
  have es: "fm_entries fm = es" using f(2) assms(8) by (simp add: map_idI)
  have "\<forall>e \<in> set es. fits e" "length (sst_image es) < 2 ^ 63" using assms(6) by (auto simp: table_fit_def)
  note tab = sst_open_table(3) [OF assms(5) this f(8)]
  have on: "snd (wfd w') = on_disk (sst_image es)" using f(4) f(5) [OF assms(4)] by (cases "snd (wfd w')") (simp add: on_disk_def)
  have "seq_max es < n" using seq_max_bounds(2) [OF assms(5)] assms(8) by auto
  moreover have "fmax_seq (tfooter t) = seq_max es" using tab by (simp add: image_footer_def Let_def)
  moreover have "fm_smallest fm \<noteq> []" "fm_largest fm \<noteq> []" using f(6,7) assms(5,8) by auto
  ultimately show "file_sound n fm" using assms(9) seq_max_bounds(1) [of es] es assms(10) by (simp add: file_sound_def)
  show "tables_persisted dk' [fm]" using f(3,8) on assms(10) by (auto simp: tables_persisted_def holds_table_def)
  show "\<exists>f. dk' = dk(num \<mapsto> f)" using f(3) by blast
  show "fm_smallest fm = ekey (hd es)" "fm_largest fm = ekey (last es)" by (rule f)+
qed

lemma flushed_file:
  assumes "db_ok d" "flush_durable io d" "mt_versions (mtable d) \<noteq> []"
    and "add_all (mt_versions (mtable d)) (writer_new (tio_writes (fio_table io))) = Inr w"
    and "install_table (fio_table io) (next_sst_number d) w (disk d) = (Inr (w', t), dk)"
    and "fm = \<lparr>fm_number = next_sst_number d, fm_level = 0, fm_smallest = sst_writer.smallest_key w',
                fm_largest = sst_writer.largest_key w', fm_table = t\<rparr>"
  shows "file_sound (next_seq d) fm" "tables_persisted dk [fm]" "version_to_manifest (add_l0 fm (current_version d)) = flush_snapshot d"
    "\<exists>f. dk = (disk d)(next_sst_number d \<mapsto> f)"
proof -
  let ?es = "mt_versions (mtable d)"
  have mt: "mt_ok (mtable d)" "\<forall>e \<in> set ?es. stored e = e \<and> eseq e < next_seq d" using assms(1) by (auto simp: db_ok_def mem_sized_def db_versions_files)
  have fd: "opens (fio_table io)" "tio_sync (fio_table io)" "table_fit ?es" "\<forall>e \<in> set ?es. ekey e \<noteq> []" "next_sst_number d \<in> number_range"
    using assms(2) by (auto simp: flush_durable_def)
  have ents: "\<forall>e \<in> set ?es. stored e = e \<and> ekey e \<noteq> [] \<and> eseq e < next_seq d" using mt(2) fd(4) by blast
  note f = installed_persisted [OF assms(4,5) fd(1,2) assms(3) fd(3) skiplist.versions_sorted [OF mt(1)] ents fd(5) assms(6)]
  show "file_sound (next_seq d) fm" "tables_persisted dk [fm]" "\<exists>f. dk = (disk d)(next_sst_number d \<mapsto> f)" by (rule f)+
  show "version_to_manifest (add_l0 fm (current_version d)) = flush_snapshot d"
    using f(4,5) assms(6) by (simp add: version_to_manifest_files ver_files_add_l0 flush_snapshot_def meta_entry_def)
qed

lemma levelled_add_l0:
  assumes "levelled ver" "fm_level fm = 0"
  shows "levelled (add_l0 fm ver)"
proof -
  have "fm_level g = 0" if "g \<in> set (files ver 0)" for g using assms(1) [unfolded levelled_def, rule_format, OF kMaxLevels_pos(1) that] by simp
  then show ?thesis using assms by (auto simp: levelled_def add_l0_def)
qed

lemma ver_sound_add_l0:
  assumes "ver_sound n ver" "file_sound n fm" "fm_level fm = 0" "\<forall>g \<in> set (ver_files ver). fm_number g < fm_number fm"
  shows "ver_sound n (add_l0 fm ver)"
  using assms levelled_add_l0 [of ver fm] in_ver_filesI [OF _ kMaxLevels_pos(1), of _ ver]
  by (auto simp: ver_sound_def set_ver_files_add_l0) (auto simp: add_l0_def sorted_wrt_append)

lemma ver_sound_mono: "ver_sound n ver \<Longrightarrow> n \<le> n' \<Longrightarrow> ver_sound n' ver"
  by (auto simp: ver_sound_def file_sound_def intro: order.strict_trans2)

text \<open>Files under new numbers do not disturb the tables of a version.\<close>

lemma tables_persisted_new:
  assumes "tables_persisted dk fms" "\<forall>fm \<in> set fms. dk' (fm_number fm) = dk (fm_number fm)"
  shows "tables_persisted dk' fms"
  using assms by (auto simp: tables_persisted_def)

text \<open>The parts of a durable flush that got to its end.\<close>

lemma flush_parts:
  assumes "db_ok d" "persisted d" "flush_durable io d" "mt_versions (mtable d) \<noteq> []"
    and "add_all (mt_versions (mtable d)) (writer_new (tio_writes (fio_table io))) = Inr w"
    and "install_table (fio_table io) (next_sst_number d) w (disk d) = (Inr (w', t), dk)"
    and "fm = \<lparr>fm_number = next_sst_number d, fm_level = 0, fm_smallest = sst_writer.smallest_key w',
                fm_largest = sst_writer.largest_key w', fm_table = t\<rparr>"
  shows "ver_sound (next_seq d) (add_l0 fm (current_version d))" "tables_persisted dk (ver_files (add_l0 fm (current_version d)))"
    "tables_persisted dk (ver_files (current_version d))" "dom dk \<subseteq> number_range"
    "version_to_manifest (add_l0 fm (current_version d)) = flush_snapshot d"
proof -
  let ?ver = "current_version d"
  note f = flushed_file [OF assms(1,3-7)]
  have p: "ver_sound (next_seq d) ?ver" "tables_persisted (disk d) (ver_files ?ver)" "dom (disk d) \<subseteq> number_range" "next_sst_number d \<in> number_range"
    using assms(2,3) by (auto simp: persisted_def flush_durable_def)
  have nums: "\<forall>g \<in> set (ver_files ?ver). fm_number g < next_sst_number d" using assms(1) by (auto simp: db_ok_def)
  show "ver_sound (next_seq d) (add_l0 fm ?ver)" using ver_sound_add_l0 [OF p(1) f(1)] nums assms(7) by simp
  obtain g where dk: "dk = (disk d)(next_sst_number d \<mapsto> g)" using f(4) by blast
  show old: "tables_persisted dk (ver_files ?ver)" using nums by (intro tables_persisted_new [OF p(2)]) (auto simp: dk)
  with f(2) show "tables_persisted dk (ver_files (add_l0 fm ?ver))" by (auto simp: tables_persisted_def set_ver_files_add_l0)
  show "dom dk \<subseteq> number_range" using p(3,4) by (auto simp: dk)
  show "version_to_manifest (add_l0 fm ?ver) = flush_snapshot d" by (rule f(3))
qed

lemma flush_persisted:
  assumes "db_ok d" "persisted d" "flush io d = (Inr (), d')" "flush_durable io d"
  shows "persisted d'"
proof (cases "approx_bytes (mtable d) = 0")
  case True
  then show ?thesis using assms(2,3) by (simp add: flush_empty)
next
  case False
  let ?ver = "current_version d"
  have mt: "mt_ok (mtable d)" "mem_sized (mtable d)" using assms(1) by (auto simp: db_ok_def)
  have ne: "mt_versions (mtable d) \<noteq> []" using False mem_sized_empty [OF mt(2)] by simp
  have fd: "fio_sync io" "snapshot_ok (flush_snapshot d)" "manifest_persisted (db_manifest d) (version_to_manifest ?ver)"
    using assms(2,4) by (auto simp: flush_durable_def persisted_def)
  from assms(3) False mt(1) show ?thesis
  proof (cases rule: flush_cases)
    case (installed w w' t dk m fm)
    note f = flush_parts [OF assms(1,2,4) ne installed(2,3,4)]
    have "manifest_persisted m (version_to_manifest (current_version d'))"
      using append_snapshot_persisted [OF fd(3)] installed(5,6) fd(1,2) f(5) by simp
    moreover have "wal_persisted (db_wal d') []" by (simp add: wal_persisted_def installed(16) wal_open_def on_disk_def)
    moreover have "mt_versions (mtable d') = []" by (simp add: installed(7) mt_versions_new kMemtableHeight_def)
    ultimately show ?thesis using f(1,2,4) by (simp add: persisted_def installed(6,9,12,13))
  qed simp
qed

lemma maybe_flush_persisted:
  assumes "db_ok d" "persisted d" "maybe_flush io d = (Inr (), d')" "flush_threshold_bytes (opts d) \<le> approx_bytes (mtable d) \<Longrightarrow> flush_durable io d"
  shows "persisted d'" "db_ok d'" "db_versions d' = db_versions d"
  using assms flush_persisted [OF assms(1,2)] flush_ok(1,2) [OF assms(1)]
  by (auto simp: maybe_flush_def flush_durable_def split: if_splits)

end
