(* ===== verification/Crash_Points.thy ===== *)
theory Crash_Points
  imports Durability
begin

text \<open>
  A crash in the middle of an operation: what is on disk at each point of a batch and of a flush, and what recovery
  makes of it.
\<close>

section \<open>What recovery finds\<close>

lemma recoverableI:
  assumes "crash_dir ds dir" "ver_sound (next_seq d) (current_version d)" "tables_persisted (disk ds) (ver_files (current_version d))"
    and "\<And>log. crash_image (wlog (db_wal ds)) log \<Longrightarrow> wal_reads log (mt_versions (mtable d))"
    and "\<And>man. map_of dir ''MANIFEST'' = Some man \<Longrightarrow> manifest_reads man (version_to_manifest (current_version d))"
  shows "recoverable d dir"
  using assms(1,2) tables_persisted_dir [OF assms(3,1)] assms(4,5) unfolding recoverable_def crash_dir_def by blast

lemma append_snapshot_reads:
  assumes "manifest_persisted m es" "append_snapshot rs ok new m = (m', e)" "snapshot_ok new" "crash_image (mlog m') man"
  shows "manifest_reads man es \<or> manifest_reads man new"
proof -
  obtain olds where olds: "mlog m = on_disk (concat (map snapshot_frame olds))" "\<forall>s \<in> set olds. snapshot_ok s" "last ([] # olds) = es"
    using assms(1) by (auto simp: manifest_persisted_def)
  have "contents (mlog m) = concat (map snapshot_frame olds)" "durable (mlog m) = length (contents (mlog m))" "\<forall>s \<in> set (olds @ [new]). snapshot_ok s"
    using olds(1,2) assms(3) by (auto simp: on_disk_def)
  from append_snapshot_crash [OF this assms(2,4)] olds(3) show ?thesis by (auto simp: manifest_reads_def)
qed

lemma install_table_disk: "install_table io num w dk = (r, dk') \<Longrightarrow> dk' = dk \<or> (\<exists>f. dk' = dk(num \<mapsto> f))"
  by (auto simp: install_table_def Let_def split: sum.splits if_splits)

section \<open>A crash during a batch\<close>

lemma unique_versions_subset: "unique_versions A \<Longrightarrow> B \<subseteq> A \<Longrightarrow> unique_versions B"
  unfolding unique_versions_def by (meson subsetD)

text \<open>The database in which the first records of the batch, and no others, have been written.\<close>

lemma commit_prefix:
  assumes "db_ok d" "assign_seqs reqs (next_seq d) = (reqs', n)" "unat (next_seq d) + length reqs < 2 ^ 64" "length coins = length reqs"
  obtains dm where "commit_batch [] True (take m (zip coins reqs')) (d\<lparr>next_seq := n\<rparr>) = (Inr (), dm)" "db_ok dm"
    "next_seq dm = n" "current_version dm = current_version d"
    "mset (mt_versions (mtable dm)) = mset (mt_versions (mtable d)) + mset (map rec_entry (take m (map wal_record reqs')))"
proof -
  let ?b = "take m (zip coins reqs')"
  note a = assigned_entries [OF assms(2,3)]
  have d1: "db_ok (d\<lparr>next_seq := n\<rparr>)" "db_versions (d\<lparr>next_seq := n\<rparr>) = db_versions d"
    using db_ok_frame [OF assms(1), of "d\<lparr>next_seq := n\<rparr>"] a(3) by (simp_all add: db_versions_def)
  have len: "length coins = length reqs'" using a(4) assms(4) by simp
  then have b: "map snd ?b = take m reqs'" by (simp add: take_map [symmetric])
  have sub: "req_entry ` snd ` set ?b \<subseteq> req_entry ` set reqs'" using arg_cong [OF b, of set] set_take_subset [of m reqs'] by (auto simp: image_iff)
  have old: "\<forall>e \<in> db_versions (d\<lparr>next_seq := n\<rparr>). eseq e < next_seq d" using assms(1) d1(2) by (simp add: db_ok_def)
  have "next_seq d \<le> eseq e \<and> eseq e < n" if "e \<in> req_entry ` snd ` set ?b" for e using bspec [OF a(2) subsetD [OF sub that]] .
  then have new: "\<forall>e \<in> req_entry ` snd ` set ?b. next_seq d \<le> eseq e \<and> eseq e < next_seq (d\<lparr>next_seq := n\<rparr>)" by simp
  have uniq: "unique_versions (req_entry ` snd ` set ?b)" by (rule unique_versions_subset [OF a(1) sub])
  obtain r dm where c: "commit_batch [] True ?b (d\<lparr>next_seq := n\<rparr>) = (r, dm)" by force
  have "mt_ok (mtable d)" "mem_sized (mtable d)" using assms(1) by (auto simp: db_ok_def)
  from apply_batch_ok [OF this, of ?b] have r: "r = Inr ()"
    using c by (auto simp: commit_batch_def append_batch_def wal_write_def file_write_def write_fully_Nil split: if_splits)
  note cb = commit_batch_ok [OF d1(1) old uniq new c]
  have "map (req_entry \<circ> snd) ?b = map req_entry (map snd ?b)" by simp
  also have "\<dots> = map rec_entry (take m (map wal_record reqs'))" unfolding b by (simp add: take_map rec_entry_record)
  finally have "map (req_entry \<circ> snd) ?b = map rec_entry (take m (map wal_record reqs'))" .
  with cb(1,3-5) r c show thesis by (intro that [of dm]) (simp_all del: mset_map)
qed

lemma batch_crash:
  assumes "db_ok d" "persisted d" "assign_seqs reqs (next_seq d) = (reqs', n)" "unat (next_seq d) + length reqs < 2 ^ 64"
    and "length coins = length reqs" "\<forall>r \<in> set reqs'. rec_ok (wal_record r)" "commit_batch rs ok (zip coins reqs') (d\<lparr>next_seq := n\<rparr>) = (r, d')"
    and "crash_dir d' dir"
  obtains m dm where "m \<le> length reqs" "commit_batch [] True (take m (zip coins reqs')) (d\<lparr>next_seq := n\<rparr>) = (Inr (), dm)" "db_ok dm" "recoverable dm dir"
    "map_of dir ''MANIFEST'' = Some (contents (mlog (db_manifest d)))" "current_version dm = current_version d"
proof -
  let ?recs = "map wal_record reqs'"
  have len: "length reqs' = length reqs" using assigned_entries(4) [OF assms(3,4)] .
  obtain w e where w: "append_batch rs ok ?recs (db_wal d) = (w, e)" by force
  have snd: "map (wal_record \<circ> snd) (zip coins reqs') = ?recs" using len assms(5) by (simp add: map_map [symmetric] del: map_map)
  have d': "db_wal d' = w" "db_manifest d' = db_manifest d" "disk d' = disk d"
    using assms(7) w by (auto simp: commit_batch_def snd split: option.splits)
  obtain old where old: "wlog (db_wal d) = on_disk (concat (map wal_frame old))" "\<forall>r \<in> set old. rec_ok r" "mset (map rec_entry old) = mset (mt_versions (mtable d))"
    using assms(2) by (auto simp: persisted_def wal_persisted_def)
  obtain log where log: "map_of dir ''wal.log'' = Some log" "crash_image (wlog w) log" using assms(8) d'(1) by (auto simp: crash_dir_def)
  have "\<forall>r \<in> set (old @ ?recs). rec_ok r" using old(2) assms(6) by auto
  from append_batch_crash [OF _ _ this w log(2)] obtain m where m: "m \<le> length ?recs" "\<forall>rs. no_fault rs \<longrightarrow> replay rs (Some log) = old @ take m ?recs"
    using old(1) by (auto simp: on_disk_def)
  obtain dm where dm: "commit_batch [] True (take m (zip coins reqs')) (d\<lparr>next_seq := n\<rparr>) = (Inr (), dm)" "db_ok dm" "next_seq dm = n"
      "current_version dm = current_version d" "mset (mt_versions (mtable dm)) = mset (mt_versions (mtable d)) + mset (map rec_entry (take m ?recs))"
    by (rule commit_prefix [OF assms(1,3-5)])
  have "wal_reads log (mt_versions (mtable dm))" using m(2) old(3) dm(5) by (simp add: wal_reads_def)
  moreover have p: "ver_sound (next_seq d) (current_version d)" "tables_persisted (disk d') (ver_files (current_version d))"
      "manifest_persisted (db_manifest d') (version_to_manifest (current_version d))" using assms(2) d' by (auto simp: persisted_def)
  moreover obtain man where man: "map_of dir ''MANIFEST'' = Some man" "crash_image (mlog (db_manifest d')) man" using assms(8) by (auto simp: crash_dir_def)
  ultimately have "recoverable dm dir"
    using assms(8) log(1) tables_persisted_dir [OF p(2) assms(8)] manifest_persisted_reads(1) [OF p(3) man(2)] ver_sound_mono [OF p(1) assigned_entries(3) [OF assms(3,4)]]
    unfolding recoverable_def crash_dir_def dm(3,4) by blast
  moreover have "man = contents (mlog (db_manifest d))" using manifest_persisted_reads(2) [OF p(3) man(2)] d'(2) by (simp add: on_disk_def)
  ultimately show thesis using that m(1) len dm(1,2,4) man(1) by simp
qed

section \<open>A crash during a flush\<close>

text \<open>
  What is on disk at the points of a flush: before the rename of the table, after it, after the snapshot was written and before it
  is synced, after the sync, and after the log was truncated. A failing system call ends the list.
\<close>

definition flush_stages :: "flush_io \<Rightarrow> db \<Rightarrow> db list" where
  "flush_stages io d =
     (if approx_bytes (mtable d) = 0 then [d]
      else case raw_entries (mtable d) of None \<Rightarrow> [d] | Some es \<Rightarrow>
      case add_all es (writer_new (tio_writes (fio_table io))) of Inl e \<Rightarrow> [d] | Inr w \<Rightarrow>
      case install_table (fio_table io) (next_sst_number d) w (disk d) of
        (Inl e, dk) \<Rightarrow> [d, d\<lparr>disk := dk\<rparr>]
      | (Inr (w', t), dk) \<Rightarrow>
          let new_ver = add_l0 \<lparr>fm_number = next_sst_number d, fm_level = 0, fm_smallest = sst_writer.smallest_key w',
                fm_largest = sst_writer.largest_key w', fm_table = t\<rparr> (current_version d);
              append = (\<lambda>ok. append_snapshot (fio_writes io) ok (version_to_manifest new_ver) (db_manifest d)) in
          [d, d\<lparr>disk := dk\<rparr>, d\<lparr>disk := dk, db_manifest := fst (append False)\<rparr>, d\<lparr>disk := dk, db_manifest := fst (append (fio_sync io))\<rparr>] @
          (if snd (append (fio_sync io)) = None then [snd (flush io d)] else []))"

text \<open>With the table in the version and its entries still in the memtable, nothing reads differently.\<close>

lemma table_added:
  fixes io :: flush_io
  assumes "db_ok d" "mt_versions (mtable d) \<noteq> []" "opens (fio_table io)" "table_fit (mt_versions (mtable d))"
    and "add_all (mt_versions (mtable d)) (writer_new (tio_writes (fio_table io))) = Inr w"
    and "install_table (fio_table io) (next_sst_number d) w (disk d) = (Inr (w', t), dk)"
    and "fm = \<lparr>fm_number = next_sst_number d, fm_level = 0, fm_smallest = sst_writer.smallest_key w',
                fm_largest = sst_writer.largest_key w', fm_table = t\<rparr>"
    and "dv = d\<lparr>current_version := add_l0 fm (current_version d), next_sst_number := next_sst_number d + 1\<rparr>"
  shows "db_ok dv" "db_versions dv = db_versions d"
proof -
  let ?es = "mt_versions (mtable d)" and ?io = "io\<lparr>fio_writes := []\<rparr>"
  have mt: "mt_ok (mtable d)" "mem_sized (mtable d)" using assms(1) by (auto simp: db_ok_def)
  have ne: "approx_bytes (mtable d) \<noteq> 0" using assms(2) mem_sized_empty [OF mt(2)] by simp
  obtain r d' where fl: "flush ?io d = (r, d')" by force
  have d': "current_version d' = add_l0 fm (current_version d)" "cache d' = cache d" "next_seq d' = next_seq d" "next_sst_number d' = next_sst_number d + 1"
    using fl ne raw_entries_versions [OF mt(1)] assms(5-7)
    by (auto simp: flush_def append_snapshot_def file_write_def write_fully_Nil Let_def)
  have f: "db_ok d'" "db_versions d' = db_versions d" using flush_ok(1,2) [OF assms(1) fl _ assms(4)] assms(3) by auto
  have op: "tio_open1 (fio_table io) = None" "tio_open2 (fio_table io) = None" "tio_open3 (fio_table io) = None" using assms(3) by (auto simp: opens_def)
  have es: "fm_entries fm = ?es"
    using installed_file(2) [OF assms(5,6) op assms(2,4) skiplist.versions_sorted [OF mt(1)] assms(7)] by (simp add: map_stored_id [OF mt(2)])
  have runs: "db_runs dv = ?es # ?es # ver_runs (current_version d)" by (simp add: db_runs_def assms(8) ver_runs_add_l0 es)
  then show vs: "db_versions dv = db_versions d" by (simp add: db_versions_def db_runs_def)
  have "sorted_wrt recent (db_runs dv)" unfolding runs using assms(1) by (auto simp: db_ok_def db_runs_def recent_def)
  then show "db_ok dv" using f(1) mt assms(1) d' vs by (simp add: db_ok_def) (simp add: assms(8))
qed

lemma flush_stages_cases:
  assumes "ds \<in> set (flush_stages io d)" "mt_ok (mtable d)"
  obtains (before) "ds = d"
  | (finished) "flush io d = (Inr (), ds)"
  | (renamed) w res dk where "install_table (fio_table io) (next_sst_number d) w (disk d) = (res, dk)" "ds = d\<lparr>disk := dk\<rparr>"
  | (appended) w w' t dk fm ok where "approx_bytes (mtable d) \<noteq> 0" "add_all (mt_versions (mtable d)) (writer_new (tio_writes (fio_table io))) = Inr w"
      "install_table (fio_table io) (next_sst_number d) w (disk d) = (Inr (w', t), dk)"
      "fm = \<lparr>fm_number = next_sst_number d, fm_level = 0, fm_smallest = sst_writer.smallest_key w',
         fm_largest = sst_writer.largest_key w', fm_table = t\<rparr>"
      "ds = d\<lparr>disk := dk, db_manifest := fst (append_snapshot (fio_writes io) ok (version_to_manifest (add_l0 fm (current_version d))) (db_manifest d))\<rparr>"
proof (cases "ds = d")
  case False
  note raw = raw_entries_versions [OF assms(2)]
  have ne: "approx_bytes (mtable d) \<noteq> 0" using False assms(1) by (auto simp: flush_stages_def split: if_splits)
  obtain w where w: "add_all (mt_versions (mtable d)) (writer_new (tio_writes (fio_table io))) = Inr w"
    using False assms(1) ne raw by (auto simp: flush_stages_def split: sum.splits)
  obtain res dk where it: "install_table (fio_table io) (next_sst_number d) w (disk d) = (res, dk)" by force
  show thesis
  proof (cases res)
    case (Inl e)
    then have "ds = d\<lparr>disk := dk\<rparr>" using False assms(1) ne by (simp add: flush_stages_def raw w it)
    with it show thesis by (rule renamed)
  next
    case (Inr wt)
    then obtain w' t where r: "res = Inr (w', t)" by (cases wt) auto
    let ?fm = "\<lparr>fm_number = next_sst_number d, fm_level = 0, fm_smallest = sst_writer.smallest_key w', fm_largest = sst_writer.largest_key w', fm_table = t\<rparr>"
    let ?ap = "\<lambda>ok. append_snapshot (fio_writes io) ok (version_to_manifest (add_l0 ?fm (current_version d))) (db_manifest d)"
    have "fst (flush io d) = Inr ()" if "snd (?ap (fio_sync io)) = None"
      using that ne by (cases "?ap (fio_sync io)") (simp add: flush_def raw w it r Let_def)
    then consider "ds = d\<lparr>disk := dk\<rparr>" | "flush io d = (Inr (), ds)" | ok where "ds = d\<lparr>disk := dk, db_manifest := fst (?ap ok)\<rparr>"
      using False assms(1) ne by (auto simp: flush_stages_def raw w it r Let_def prod_eq_iff split: if_splits)
    then show thesis by cases (use renamed it finished appended [OF ne w it [unfolded r] refl] in blast)+
  qed
qed (rule before)

lemma flush_crash:
  assumes "db_ok d" "persisted d" "flush_durable io d" "ds \<in> set (flush_stages io d)" "crash_dir ds dir"
  obtains dv where "db_ok dv" "recoverable dv dir" "db_versions dv = db_versions d"
proof -
  let ?ver = "current_version d" and ?es = "mt_versions (mtable d)"
  have mt: "mt_ok (mtable d)" "mem_sized (mtable d)" using assms(1) by (auto simp: db_ok_def)
  have fd: "opens (fio_table io)" "table_fit ?es" "snapshot_ok (flush_snapshot d)" using assms(3) by (auto simp: flush_durable_def)
  have p: "wal_persisted (db_wal d) ?es" "manifest_persisted (db_manifest d) (version_to_manifest ?ver)" "ver_sound (next_seq d) ?ver" "tables_persisted (disk d) (ver_files ?ver)"
    using assms(2) by (auto simp: persisted_def)
  have nums: "\<forall>g \<in> set (ver_files ?ver). fm_number g < next_sst_number d" using assms(1) by (auto simp: db_ok_def)
  obtain man where man: "map_of dir ''MANIFEST'' = Some man" "crash_image (mlog (db_manifest ds)) man" using assms(5) by (auto simp: crash_dir_def)
  have more: "tables_persisted ((disk d)(next_sst_number d \<mapsto> f)) (ver_files ?ver)" for f using nums by (intro tables_persisted_new [OF p(4)]) auto
  have keep: "recoverable d dir" if "manifest_reads man (version_to_manifest ?ver)" "db_wal ds = db_wal d" "install_table (fio_table io) (next_sst_number d) w (disk d) = (res, disk ds)" for w res
    by (rule recoverableI [OF assms(5) p(3)])
      (use that man(1) wal_persisted_reads [OF p(1)] install_table_disk [OF that(3)] p(4) more in auto)
  from assms(4) mt(1) show thesis
  proof (cases rule: flush_stages_cases)
    case before
    then show thesis using that [OF assms(1)] persisted_recoverable [OF assms(2)] assms(5) by simp
  next
    case finished
    from flush_ok(1,2) [OF assms(1) finished fd(1,2)] persisted_recoverable [OF flush_persisted [OF assms(1,2) finished assms(3)] assms(5)]
    show thesis by (rule_tac that [of ds])
  next
    case (renamed w res dk)
    then show thesis using that [OF assms(1)] keep manifest_persisted_reads(1) [OF p(2)] man(2) by simp
  next
    case (appended w w' t dk fm ok)
    define dv where "dv = d\<lparr>current_version := add_l0 fm ?ver, next_sst_number := next_sst_number d + 1\<rparr>"
    have es: "?es \<noteq> []" using appended(1) mem_sized_empty [OF mt(2)] by simp
    note parts = flush_parts [OF assms(1-3) es appended(2-4)]
    obtain m' e where a: "append_snapshot (fio_writes io) ok (version_to_manifest (add_l0 fm ?ver)) (db_manifest d) = (m', e)" by force
    have "manifest_reads man (version_to_manifest ?ver) \<or> manifest_reads man (version_to_manifest (add_l0 fm ?ver))"
      by (rule append_snapshot_reads [OF p(2) a]) (use fd(3) parts(5) man(2) appended(5) a in simp_all)
    moreover have "recoverable dv dir" if "manifest_reads man (version_to_manifest (add_l0 fm ?ver))"
      by (rule recoverableI [OF assms(5)]) (use parts(1,2) appended(5) wal_persisted_reads [OF p(1)] man(1) that in \<open>auto simp: dv_def\<close>)
    ultimately show thesis
      using that [OF assms(1)] keep appended(3,5) that [of dv] table_added [OF assms(1) es fd(1,2) appended(2-4) dv_def] by auto
  qed
qed

end
