(* ===== verification/Session.thy ===== *)
theory Session
  imports Crash_Points Compact_Pick
begin

text \<open>
  What the programs on top of the database rely on: a database whose every acknowledged write is on disk is a map from keys
  to values. \<open>get\<close>, \<open>scan\<close>, \<open>put\<close>, \<open>del\<close>, \<open>flush\<close> and \<open>DB::open\<close> after a crash, each as an operation on that map.
\<close>

section \<open>The map a database stands for\<close>

definition db_map :: "db \<Rightarrow> key \<rightharpoonup> bytes" where
  "db_map d k = status_value (run_status (concat (db_runs d)) k UINT64_MAX)"

definition settled :: "db \<Rightarrow> bool" where
  "settled d \<longleftrightarrow> db_ok d \<and> persisted d \<and> wmode (db_wal d) = EveryWrite \<and> opt_sync (opts d) = EveryWrite"

lemma db_map_get: "db_ok d \<Longrightarrow> map_option fst (get_impl no_error k UINT64_MAX d) = Some (Inr (db_map d k))"
  using get_impl_run [of d k UINT64_MAX] by (auto simp: db_map_def)

lemma db_map_eqI:
  assumes "db_ok d" "db_ok d'" "db_versions d' = db_versions d"
  shows "db_map d' = db_map d"
proof
  fix k
  have "Some (Inr (db_map d' k) :: sst_error + bytes option) = Some (Inr (db_map d k))"
    unfolding db_map_get [OF assms(1), symmetric] db_map_get [OF assms(2), symmetric] by (rule get_same_visible [OF assms(1,2)]) (simp add: assms(3))
  then show "db_map d' k = db_map d k" by simp
qed

lemma db_map_insert:
  assumes "db_ok d" "db_ok d'" "db_versions d' = insert (req_entry (write_req ty k v (next_seq d))) (db_versions d)"
  shows "db_map d' = (db_map d)(k := if ty = Put then Some v else None)"
proof
  fix k'
  let ?e = "req_entry (write_req ty k v (next_seq d))"
  have "Some (Inr (db_map d' k') :: sst_error + bytes option) = (if k' = ekey ?e \<and> next_seq d \<le> UINT64_MAX then
      Some (Inr (if etomb ?e then None else Some (evalue ?e))) else Some (Inr (db_map d k')))"
    unfolding db_map_get [OF assms(1), symmetric] db_map_get [OF assms(2), symmetric]
    by (rule reads_after_write [OF assms]) (simp add: req_entry_def)
  then show "db_map d' k' = ((db_map d)(k := if ty = Put then Some v else None)) k'" by (simp add: req_entry_def split: if_splits)
qed

lemma db_map_Some: "db_map d k = Some v \<longleftrightarrow> (\<exists>e. lookup_run (concat (db_runs d)) k UINT64_MAX = Some e \<and> \<not> etomb e \<and> evalue e = v)"
  unfolding db_map_def by (rule status_value_Some)

lemma finite_db_map: "finite (dom (db_map d))"
proof -
  have "k \<in> ekey ` set (concat (db_runs d))" if k: "k \<in> dom (db_map d)" for k
  proof -
    obtain e where "lookup_run (concat (db_runs d)) k UINT64_MAX = Some e" using k db_map_Some by blast
    then show ?thesis using lookup_run_SomeD by (metis image_eqI)
  qed
  then have "dom (db_map d) \<subseteq> ekey ` set (concat (db_runs d))" by blast
  then show ?thesis by (rule finite_subset) simp
qed

text \<open>What a call of a client leaves as it is of the files: it may add files with new numbers to level 0.\<close>

definition advanced :: "db \<Rightarrow> db \<Rightarrow> bool" where
  "advanced d d' \<longleftrightarrow> grown (current_version d) (current_version d') \<and> next_sst_number d \<le> next_sst_number d' \<and> force_compact d' = force_compact d \<and>
     set (ver_files (current_version d')) \<subseteq> set (ver_files (current_version d)) \<union> {fm. next_sst_number d \<le> fm_number fm} \<and>
     cached_numbers (cache d') \<subseteq> cached_numbers (cache d) \<union> fm_number ` set (ver_files (current_version d)) \<union> {n. next_sst_number d \<le> n} \<and>
     (\<forall>n < next_sst_number d. disk d' n = disk d n)"

lemma grown_trans: "grown a b \<Longrightarrow> grown b c \<Longrightarrow> grown a c"
  by (auto simp: grown_def)

lemma advanced_same: "current_version d' = current_version d \<Longrightarrow> next_sst_number d' = next_sst_number d \<Longrightarrow> force_compact d' = force_compact d \<Longrightarrow>
    cached_numbers (cache d') \<subseteq> cached_numbers (cache d) \<union> fm_number ` set (ver_files (current_version d)) \<Longrightarrow> disk d' = disk d \<Longrightarrow> advanced d d'"
  by (auto simp: advanced_def grown_def)

lemma advanced_trans:
  assumes "advanced a b" "advanced b c"
  shows "advanced a c"
proof -
  have "set (ver_files (current_version c)) \<subseteq> set (ver_files (current_version a)) \<union> {fm. next_sst_number a \<le> fm_number fm}"
    using assms by (fastforce simp: advanced_def)
  moreover have "cached_numbers (cache c) \<subseteq> cached_numbers (cache a) \<union> fm_number ` set (ver_files (current_version a)) \<union> {n. next_sst_number a \<le> n}"
  proof
    fix n assume "n \<in> cached_numbers (cache c)"
    then consider "n \<in> cached_numbers (cache b)" | fm where "fm \<in> set (ver_files (current_version b))" "n = fm_number fm" | "next_sst_number b \<le> n"
      using assms(2) by (auto simp: advanced_def)
    then show "n \<in> cached_numbers (cache a) \<union> fm_number ` set (ver_files (current_version a)) \<union> {n. next_sst_number a \<le> n}"
      using assms(1) by cases (auto simp: advanced_def)
  qed
  moreover have "disk c n = disk a n" if "n < next_sst_number a" for n using assms that by (simp add: advanced_def)
  ultimately show ?thesis using assms grown_trans by (fastforce simp: advanced_def)
qed

section \<open>Reads\<close>

lemma db_map_cache [simp]: "db_map (d\<lparr>cache := c\<rparr>) = db_map d"
  by (simp add: db_map_def [abs_def] db_runs_def)

lemma settled_cache: "settled d \<Longrightarrow> db_ok (d\<lparr>cache := c\<rparr>) \<Longrightarrow> settled (d\<lparr>cache := c\<rparr>)"
  by (simp add: settled_def persisted_def)

lemma ok_get_impl:
  assumes "db_ok d"
  obtains c where "get_impl no_error k s d = Some (Inr (status_value (run_status (concat (db_runs d)) k s)), d\<lparr>cache := c\<rparr>)"
    "db_ok (d\<lparr>cache := c\<rparr>)" "advanced d (d\<lparr>cache := c\<rparr>)"
proof -
  obtain c where c: "get_impl no_error k s d = Some (Inr (status_value (run_status (concat (db_runs d)) k s)), d\<lparr>cache := c\<rparr>)" "db_ok (d\<lparr>cache := c\<rparr>)"
      "cached_numbers c \<subseteq> cached_numbers (cache d) \<union> fm_number ` set (ver_files (current_version d))"
    using get_impl_run [OF assms, of k s] by blast
  show thesis by (rule that [of c]) (use c advanced_same [of "d\<lparr>cache := c\<rparr>" d] in simp_all)
qed

lemma ok_get:
  assumes "db_ok d"
  obtains c where "db_get no_error k d = Some (Inr (db_map d k), d\<lparr>cache := c\<rparr>)" "db_ok (d\<lparr>cache := c\<rparr>)" "advanced d (d\<lparr>cache := c\<rparr>)"
  using ok_get_impl [OF assms, of k UINT64_MAX] by (auto simp: db_get_def db_map_def)

lemma settled_scan:
  assumes "settled d" "top_ok merge_source_ops pick"
  shows "db_scan pick (\<lambda>_. healthy) a b d = Some (map (\<lambda>k. (k, the (db_map d k))) (sorted_list_of_set {k \<in> dom (db_map d). a \<le> k \<and> k \<le> b}), None)"
proof -
  have ok: "db_ok d" using assms(1) by (simp add: settled_def)
  let ?run = "concat (db_runs d)" and ?ks = "{k \<in> dom (db_map d). a \<le> k \<and> k \<le> b}"
  obtain out where out: "scan_impl pick (\<lambda>_. healthy) a b UINT64_MAX d = Some (map (\<lambda>e. (ekey e, evalue e)) out, None)"
    "sorted_wrt (\<lambda>a b. ekey a < ekey b) out"
    "\<forall>e. e \<in> set out \<longleftrightarrow> a \<le> ekey e \<and> ekey e \<le> b \<and> lookup_run ?run (ekey e) UINT64_MAX = Some e \<and> \<not> etomb e"
    using scan_impl_spec [OF ok assms(2)] by blast
  note look = db_map_Some [of d]
  have "sorted_wrt (<) (map ekey out)" using out(2) by (simp add: sorted_wrt_map)
  moreover have "k \<in> set (map ekey out) \<longleftrightarrow> k \<in> ?ks" for k
  proof
    assume "k \<in> set (map ekey out)"
    then obtain e where "e \<in> set out" "k = ekey e" by auto
    then have "lookup_run ?run k UINT64_MAX = Some e" "\<not> etomb e" "a \<le> k" "k \<le> b" using out(3) by blast+
    then show "k \<in> ?ks" using look [of k "evalue e"] by auto
  next
    assume k: "k \<in> ?ks"
    then obtain e where e: "lookup_run ?run k UINT64_MAX = Some e" "\<not> etomb e" using look [of k] by blast
    then have "ekey e = k" using lookup_run_SomeD by blast
    then have "e \<in> set out" using out(3) e k by blast
    then show "k \<in> set (map ekey out)" using \<open>ekey e = k\<close> by auto
  qed
  then have "set (map ekey out) = ?ks" by blast
  ultimately have keys: "sorted_list_of_set ?ks = map ekey out"
    using finite_subset [OF _ finite_db_map, of ?ks d] by (intro strict_sorted_equal) auto
  have "db_map d (ekey e) = Some (evalue e)" if "e \<in> set out" for e using out(3) look that by blast
  then show ?thesis unfolding keys using out(1) by (simp add: db_scan_def cong: map_cong)
qed

section \<open>Writes and flushes\<close>

lemma append_batch_succeeds: "EFail \<notin> set rs \<Longrightarrow> snd (append_batch rs ok recs w) = None"
  using write_fully_ok [of rs "concat (map wal_frame recs)"] by (auto simp: append_batch_def wal_write_def file_write_def split: prod.splits option.splits)

lemma commit_batch_keeps: "commit_batch rs ok b d = (r, d') \<Longrightarrow> wmode (db_wal d') = wmode (db_wal d) \<and> opts d' = opts d \<and> next_seq d' = next_seq d \<and> live_snapshots d' = live_snapshots d"
  by (auto simp: commit_batch_def append_batch_def wal_write_def Let_def split: prod.splits option.splits if_splits)

lemma commit_batch_advanced: "commit_batch rs ok b (d\<lparr>next_seq := n\<rparr>) = (r, d') \<Longrightarrow> advanced d d'"
  by (rule advanced_same) (auto simp: commit_batch_def split: prod.splits option.splits)

lemma flush_advanced:
  assumes "flush io d = (Inr (), d')" "mt_ok (mtable d)"
  shows "advanced d d'"
proof (cases "approx_bytes (mtable d) = 0")
  case True
  then show ?thesis using assms(1) by (auto simp: flush_empty intro: advanced_same)
next
  case False
  have f: "force_compact d' = force_compact d" using assms(1) by (auto simp: flush_def Let_def split: prod.splits option.splits sum.splits if_splits)
  from assms(1) False assms(2) show ?thesis
  proof (cases rule: flush_cases)
    case (installed w w' t dk m fm)
    obtain f where dk: "dk = (disk d)(next_sst_number d \<mapsto> f)" using installed(3) by (auto simp: install_table_def Let_def split: sum.splits if_splits)
    have "grown (current_version d) (current_version d')" using installed(6) by (simp add: grown_def add_l0_def)
    with dk f installed(4,6,8,10,13) show ?thesis by (auto simp: advanced_def set_ver_files_add_l0)
  qed simp
qed

lemma flush_keeps:
  "flush io d = (r, d') \<Longrightarrow> opts d' = opts d \<and> next_seq d' = next_seq d \<and> live_snapshots d' = live_snapshots d \<and> wmode (db_wal d') \<in> {wmode (db_wal d), opt_sync (opts d)}"
  by (auto simp: flush_def wal_open_def Let_def split: prod.splits option.splits sum.splits if_splits)

lemma settled_flush:
  assumes "settled d" "io_healthy io" "approx_bytes (mtable d) \<noteq> 0 \<Longrightarrow> flush_durable io d"
  obtains d' where "flush io d = (Inr (), d')" "settled d'" "db_map d' = db_map d" "next_seq d' = next_seq d" "advanced d d'"
    "db_versions d' = db_versions d" "live_snapshots d' = live_snapshots d"
proof (cases "approx_bytes (mtable d) = 0")
  case True
  then show thesis using that [of d] assms(1) by (simp add: flush_empty advanced_same)
next
  case False
  note fd = assms(3) [OF this]
  have d: "db_ok d" "persisted d" "table_fit (mt_versions (mtable d))" "opens (fio_table io)" using assms(1) fd by (auto simp: settled_def flush_durable_def)
  obtain d' where f: "flush io d = (Inr (), d')" using flush_succeeds [OF d(1) assms(2) d(3)] by (metis prod.collapse)
  note ok = flush_ok [OF d(1) f d(4,3)]
  have "mt_ok (mtable d)" using d(1) by (simp add: db_ok_def)
  note adv = flush_advanced [OF f this]
  show thesis by (rule that [OF f _ _ _ adv ok(2)]) (use assms(1) ok(1) flush_persisted [OF d(1,2) f fd] flush_keeps [OF f] db_map_eqI [OF d(1) ok(1,2)] in \<open>auto simp: settled_def\<close>)
qed

lemma settled_write:
  assumes "settled d" "unat (next_seq d) + 1 < 2 ^ 64" "rec_ok \<lparr>rtype = ty, rseq = next_seq d, rkey = k, rval = v\<rparr>" "EFail \<notin> set rs" "io_healthy io"
    and fd: "\<And>d1. commit_batch rs True [(cs, write_req ty k v (next_seq d))] (d\<lparr>next_seq := next_seq d + 1\<rparr>) = (Inr (), d1) \<Longrightarrow>
       flush_threshold_bytes (opts d1) \<le> approx_bytes (mtable d1) \<Longrightarrow> flush_durable io d1"
  obtains d1 d' where "commit_batch rs True [(cs, write_req ty k v (next_seq d))] (d\<lparr>next_seq := next_seq d + 1\<rparr>) = (Inr (), d1)"
    "settled d1" "db_map d1 = (db_map d)(k := if ty = Put then Some v else None)" "next_seq d1 = next_seq d + 1"
    "write_alone rs True cs io ty k v d = (Inr (), d')" "settled d'" "db_map d' = db_map d1" "next_seq d' = next_seq d + 1" "advanced d d'"
    "db_versions d' = insert (req_entry (write_req ty k v (next_seq d))) (db_versions d)" "live_snapshots d' = live_snapshots d"
proof -
  let ?r = "write_req ty k v (next_seq d)" and ?d = "d\<lparr>next_seq := next_seq d + 1\<rparr>"
  have d: "db_ok d" "persisted d" "wmode (db_wal d) = EveryWrite" using assms(1) by (auto simp: settled_def)
  obtain r d' where w: "write_alone rs True cs io ty k v d = (r, d')" by force
  from d(1) w assms(2) show thesis
  proof (cases rule: write_alone_parts)
    case (1 r2 d2)
    have "snd (append_batch rs True [wal_record ?r] (db_wal d)) = None" by (rule append_batch_succeeds [OF assms(4)])
    then have r2: "r2 = Inr ()" using 1(1,4) by (auto simp: commit_batch_def split: prod.splits option.splits)
    note c = 1(1) [unfolded r2]
    have "next_seq d \<le> next_seq d + 1" using unat_seq [of "next_seq d" 1] assms(2) by (simp add: word_le_nat_alt)
    then have "persisted ?d" using d(2) by (auto simp: persisted_def intro: ver_sound_mono)
    then have "persisted d2" by (rule commit_persisted [OF _ c]) (use d(3) assms(3) 1(5) [OF r2] in \<open>simp_all add: wal_record_def\<close>)
    then have s: "settled d2" using 1(2) commit_batch_keeps [OF c] assms(1) by (simp add: settled_def)
    have vs: "db_versions d2 = insert (req_entry ?r) (db_versions d)" using 1(4) r2 by simp
    have m: "db_map d2 = (db_map d)(k := if ty = Put then Some v else None)" by (rule db_map_insert [OF d(1) 1(2)]) (use 1(4) r2 in simp)
    show thesis
    proof (cases "flush_threshold_bytes (opts d2) \<le> approx_bytes (mtable d2)")
      case True
      obtain d'' where "flush io d2 = (Inr (), d'')" "settled d''" "db_map d'' = db_map d2" "next_seq d'' = next_seq d2" "advanced d2 d''"
          "db_versions d'' = db_versions d2" "live_snapshots d'' = live_snapshots d2"
        by (rule settled_flush [OF s assms(5) fd [OF c True]])
      then show thesis using that [OF c s m] vs w 1(3) r2 True commit_batch_keeps [OF c] advanced_trans [OF commit_batch_advanced [OF c]] by (simp add: maybe_flush_def)
    next
      case False
      then show thesis using that [OF c s m] vs w 1(3) r2 s commit_batch_keeps [OF c] commit_batch_advanced [OF c] by (simp add: maybe_flush_def)
    qed
  qed
qed

text \<open>A write is within the limits of the log and leaves a memtable that can be flushed when it is full.\<close>

definition write_fits :: "sys_ret list \<Rightarrow> bool list \<Rightarrow> flush_io \<Rightarrow> RecType \<Rightarrow> key \<Rightarrow> bytes \<Rightarrow> db \<Rightarrow> bool" where
  "write_fits rs cs io ty k v d \<longleftrightarrow> unat (next_seq d) + 1 < 2 ^ 64 \<and> length k \<le> max_len \<and> length v \<le> max_len \<and>
     (let d1 = snd (commit_batch rs True [(cs, write_req ty k v (next_seq d))] (d\<lparr>next_seq := next_seq d + 1\<rparr>)) in
      flush_threshold_bytes (opts d1) \<le> approx_bytes (mtable d1) \<longrightarrow> flush_durable io d1)"

lemma fitting_write:
  assumes "settled d" "write_fits rs cs io ty k v d" "EFail \<notin> set rs" "io_healthy io" "ty \<in> {Put, Delete}"
  obtains d' where "write_alone rs True cs io ty k v d = (Inr (), d')" "settled d'" "db_map d' = (db_map d)(k := if ty = Put then Some v else None)" "advanced d d'"
    "db_versions d' = insert (req_entry (write_req ty k v (next_seq d))) (db_versions d)" "live_snapshots d' = live_snapshots d" "next_seq d' = next_seq d + 1"
proof -
  have "rec_ok \<lparr>rtype = ty, rseq = next_seq d, rkey = k, rval = v\<rparr>" using assms(2,5) by (auto simp: write_fits_def rec_ok_def rectype_of_def rectype_byte_def)
  note r = this
  have fd: "flush_durable io d1" if "commit_batch rs True [(cs, write_req ty k v (next_seq d))] (d\<lparr>next_seq := next_seq d + 1\<rparr>) = (Inr (), d1)"
      "flush_threshold_bytes (opts d1) \<le> approx_bytes (mtable d1)" for d1
    using assms(2) that by (simp add: write_fits_def)
  have n: "unat (next_seq d) + 1 < 2 ^ 64" using assms(2) unfolding write_fits_def by blast
  obtain d1 d' where "db_map d1 = (db_map d)(k := if ty = Put then Some v else None)" "write_alone rs True cs io ty k v d = (Inr (), d')" "settled d'" "db_map d' = db_map d1" "advanced d d'"
      "db_versions d' = insert (req_entry (write_req ty k v (next_seq d))) (db_versions d)" "live_snapshots d' = live_snapshots d" "next_seq d' = next_seq d + 1"
    by (rule settled_write [OF assms(1) n r assms(3,4) fd])
  then show thesis using that [of d'] by simp
qed

text \<open>A write that does not fill the memtable fits.\<close>

lemma small_write_fits:
  assumes "settled d" "unat (next_seq d) + 1 < 2 ^ 64" "length k \<le> max_len" "length v \<le> max_len"
    and "approx_bytes (mtable d) + write_bytes (req_entry (write_req ty k v (next_seq d))) < flush_threshold_bytes (opts d)"
  shows "write_fits rs cs io ty k v d"
proof -
  have d: "db_ok d" "mem_sized (mtable d)" using assms(1) by (auto simp: settled_def db_ok_def)
  obtain r d' where w: "write_alone rs True cs io ty k v d = (r, d')" by force
  from d(1) w assms(2) show ?thesis
  proof (cases rule: write_alone_parts)
    case (1 r2 d2)
    have "approx_bytes (mtable d2) \<le> approx_bytes (mtable d) + write_bytes (req_entry (write_req ty k v (next_seq d)))"
    proof (cases r2)
      case (Inl e)
      then show ?thesis using 1(1) by (auto simp: commit_batch_def split: prod.splits option.splits)
    next
      case (Inr u)
      have "mem_sized (mtable d2)" using 1(2) by (simp add: db_ok_def)
      then have "approx_bytes (mtable d2) = sum_mset (image_mset write_bytes (mset (mt_versions (mtable d2))))"
        by (simp add: mem_sized_def flip: sum_mset_sum_list)
      also have "\<dots> = sum_mset (image_mset write_bytes (mset (mt_versions (mtable d)))) + write_bytes (req_entry (write_req ty k v (next_seq d)))"
        using 1(5) Inr by simp
      also have "sum_mset (image_mset write_bytes (mset (mt_versions (mtable d)))) = approx_bytes (mtable d)"
        using d(2) by (simp add: mem_sized_def flip: sum_mset_sum_list)
      finally show ?thesis by simp
    qed
    then show ?thesis using 1(1) commit_batch_keeps [OF 1(1)] assms(2-5) by (simp add: write_fits_def)
  qed
qed

section \<open>Opening\<close>

lemma option_sum_cases:
  obtains "x = None" | e where "x = Some (Inl e)" | y where "x = Some (Inr y)"
proof (cases x)
  case (Some a)
  then show thesis using that by (cases a) auto
qed (use that in simp)

lemma db_open_keeps:
  assumes "db_open os io coins dir = Some (Inr d)"
  shows "opts d = os" "wmode (db_wal d) = opt_sync os" "ran (disk d) \<subseteq> range on_disk" "finite (dom (disk d))"
proof -
  obtain m where m: "replay_into coins (replay (oio_wal io) (map_of dir ''wal.log'')) (memtable_new kMemtableHeight) = Some m"
    using assms by (cases "replay_into coins (replay (oio_wal io) (map_of dir ''wal.log'')) (memtable_new kMemtableHeight)") (auto simp: db_open_def Let_def)
  let ?live = "live_entries (oio_manifest io) (map_of dir ''MANIFEST'') (fst (scan_dir dir))"
  obtain ver where "add_lives io (fst (scan_dir dir)) ?live empty_version = Some (Inr ver)"
    using assms m by (cases "add_lives io (fst (scan_dir dir)) ?live empty_version" rule: option_sum_cases) (simp_all add: db_open_def Let_def split_beta)
  with assms m have d: "opts d = os" "wmode (db_wal d) = opt_sync os"
      "disk d = (\<lambda>num. if num \<notin> mnumber ` set ?live then None else map_option on_disk (map_of (fst (scan_dir dir)) num))"
    by (auto simp: db_open_def Let_def split_beta wal_open_def split: if_split_asm option.split_asm)
  show "opts d = os" "wmode (db_wal d) = opt_sync os" by fact+
  show "ran (disk d) \<subseteq> range on_disk" by (auto simp: d(3) ran_def split: if_splits)
  have "dom (disk d) \<subseteq> dom (map_of (fst (scan_dir dir)))" by (auto simp: d(3) split: if_splits)
  then show "finite (dom (disk d))" by (rule finite_subset) (rule finite_dom_map_of)
qed

lemma settled_open:
  assumes "db_ok d" "persisted d" "crash_dir d dir" "opt_sync os = EveryWrite"
    and "no_fault (oio_wal io)" "no_fault (oio_manifest io)" "oio_open io = (\<lambda>_. (None, None, None))"
  obtains d' where "db_open os io coins dir = Some (Inr d')" "settled d'" "db_map d' = db_map d" "db_runs d' = db_runs d"
    "0 < next_seq d \<Longrightarrow> next_seq d' \<le> next_seq d"
proof -
  obtain d' where d': "db_open os io coins dir = Some (Inr d')" "db_ok d'" "persisted d'" "db_runs d' = db_runs d" "0 < next_seq d \<Longrightarrow> next_seq d' \<le> next_seq d"
    by (rule open_persisted [OF assms(1-3,5-7)]) blast
  with assms(4) db_open_keeps [OF d'(1)] have "settled d'" "db_map d' = db_map d" by (auto simp: settled_def db_map_def)
  with d' that show thesis by blast
qed

section \<open>A crash during a put\<close>

text \<open>
  What is on disk while \<open>DB::put\<close> runs: as before, with any part of the record in the log, or, when the memtable is full, at any point of
  the flush that follows.
\<close>

inductive put_stage :: "sys_ret list \<Rightarrow> bool list \<Rightarrow> flush_io \<Rightarrow> key \<Rightarrow> bytes \<Rightarrow> db \<Rightarrow> db \<Rightarrow> bool" for rs cs io k v d where
  idle: "put_stage rs cs io k v d d"
| logging: "commit_batch rs' ok [(cs, write_req Put k v (next_seq d))] (d\<lparr>next_seq := next_seq d + 1\<rparr>) = (r, d1) \<Longrightarrow> put_stage rs cs io k v d d1"
| flushing: "commit_batch rs True [(cs, write_req Put k v (next_seq d))] (d\<lparr>next_seq := next_seq d + 1\<rparr>) = (Inr (), d1) \<Longrightarrow>
     flush_threshold_bytes (opts d1) \<le> approx_bytes (mtable d1) \<Longrightarrow> ds \<in> set (flush_stages io d1) \<Longrightarrow> put_stage rs cs io k v d ds"

lemma put_crash:
  assumes "settled d" "write_fits rs cs io Put k v d" "EFail \<notin> set rs" "io_healthy io" "put_stage rs cs io k v d ds" "crash_dir ds dir"
  obtains dv where "db_ok dv" "recoverable dv dir" "db_map dv = db_map d \<or> db_map dv = (db_map d)(k \<mapsto> v)"
proof -
  have d: "db_ok d" "persisted d" using assms(1) by (auto simp: settled_def)
  have rec: "rec_ok \<lparr>rtype = Put, rseq = next_seq d, rkey = k, rval = v\<rparr>" and n: "unat (next_seq d) + 1 < 2 ^ 64"
    using assms(2) by (auto simp: write_fits_def rec_ok_def rectype_of_def rectype_byte_def)
  let ?r = "write_req Put k v (next_seq d)" and ?d = "d\<lparr>next_seq := next_seq d + 1\<rparr>"
  from assms(5) show thesis
  proof cases
    case idle
    then show thesis using that [OF d(1)] persisted_recoverable [OF d(2)] assms(6) by blast
  next
    case (logging rs' ok r)
    have "assign_seqs [write_req Put k v 0] (next_seq d) = ([?r], next_seq d + 1)" by simp
    then obtain m dm where m: "m \<le> 1" "commit_batch [] True (take m [(cs, ?r)]) ?d = (Inr (), dm)" "db_ok dm" "recoverable dm dir"
      by (rule batch_crash [OF d, where coins = "[cs]" and rs = rs' and ok = ok]) (use n rec logging assms(6) in \<open>auto simp: wal_record_def\<close>)
    show thesis
    proof (cases m)
      case 0
      then have "dm = ?d" using m(2) by (simp add: commit_batch_def append_batch_def)
      then have "db_map dm = db_map d" by (simp add: db_map_def [abs_def] db_runs_def)
      then show thesis using that [OF m(3,4)] by blast
    next
      case (Suc j)
      then have c: "commit_batch [] True [(cs, ?r)] ?d = (Inr (), dm)" using m(1,2) by simp
      obtain r' d' where "write_alone [] True cs io Put k v d = (r', d')" by force
      from d(1) this n have "db_versions dm = insert (req_entry ?r) (db_versions d)" by (cases rule: write_alone_parts) (use c in auto)
      from db_map_insert [OF d(1) m(3) this] that [OF m(3,4)] show thesis by simp
    qed
  next
    case (flushing d1)
    have fd: "flush_durable io d1" using assms(2) flushing by (simp add: write_fits_def)
    obtain d2 where d2: "commit_batch rs True [(cs, ?r)] ?d = (Inr (), d2)" "settled d2" "db_map d2 = (db_map d)(k := if Put = Put then Some v else None)"
      by (rule settled_write [OF assms(1) n rec assms(3,4)]) (use assms(2) in \<open>auto simp: write_fits_def\<close>)
    then have d1: "d2 = d1" "db_ok d1" "persisted d1" using flushing(1) by (auto simp: settled_def)
    obtain dv where dv: "db_ok dv" "recoverable dv dir" "db_versions dv = db_versions d1" by (rule flush_crash [OF d1(2,3) fd flushing(3) assms(6)])
    show thesis using that [OF dv(1,2)] db_map_eqI [OF d1(2) dv(1,3)] d2(3) d1(1) by simp
  qed
qed

end
