(* ===== verification/Compact_Crash.thy ===== *)
theory Compact_Crash
  imports Compact_Spec Crash_Points
begin

text \<open>
  Compaction and the disk: the outputs of a merge are on disk before they are committed, and a crash at
  any point of the commit recovers either version, which read the same.
\<close>

section \<open>The outputs on disk\<close>

definition piece_ok :: "u64 \<Rightarrow> entry \<Rightarrow> bool" where
  "piece_ok n e \<longleftrightarrow> stored e = e \<and> ekey e \<noteq> [] \<and> eseq e < n"

lemma made_file_persisted:
  assumes "made_file ios lv num es fm f" "opens (ios num)" "tio_sync (ios num)" "es \<noteq> []" "table_fit es" "ent_sorted es"
    and "\<forall>e \<in> set es. piece_ok n e" "num \<in> number_range"
  shows "file_sound n fm" "fm_level fm = int lv" "fm_number fm = num" "\<exists>bs. f = on_disk bs \<and> holds_table bs fm"
proof -
  obtain w w' t dk where m: "add_all es (writer_new (tio_writes (ios num))) = Inr w" "install_table (ios num) num w dk = (Inr (w', t), dk(num \<mapsto> f))"
      "fm = \<lparr>fm_number = num, fm_level = int lv, fm_smallest = sst_writer.smallest_key w', fm_largest = sst_writer.largest_key w', fm_table = t\<rparr>"
    using assms(1) by (auto simp: made_file_def)
  note f = installed_persisted [OF m(1,2) assms(2-6) _ assms(8) m(3)]
  show "file_sound n fm" "fm_level fm = int lv" "fm_number fm = num" "\<exists>bs. f = on_disk bs \<and> holds_table bs fm"
    using f(1,2) assms(7) m(3) by (auto simp: piece_ok_def tables_persisted_def)
qed

lemma made_files_persisted:
  assumes "made_files ios num lv i chs fms dk dk'" "\<forall>m. opens (ios m) \<and> tio_sync (ios m)" "inj num"
    and "\<forall>ch \<in> set chs. ch \<noteq> [] \<and> table_fit ch \<and> ent_sorted ch \<and> (\<forall>e \<in> set ch. piece_ok n e)" "\<forall>fm \<in> set fms. fm_number fm \<in> number_range"
  shows "(\<forall>fm \<in> set fms. file_sound n fm \<and> fm_level fm = int lv) \<and> tables_persisted dk' fms \<and> (\<forall>j < i. dk' (num j) = dk (num j))"
  using assms
proof (induction chs arbitrary: i fms dk)
  case Nil
  then show ?case by (simp add: tables_persisted_def)
next
  case (Cons ch chs)
  obtain fm fms' f where f: "fms = fm # fms'" "made_file ios lv (num i) ch fm f" "made_files ios num lv (Suc i) chs fms' (dk(num i \<mapsto> f)) dk'"
    using Cons.prems(1) by auto
  have "opens (ios (num i))" "tio_sync (ios (num i))" "ch \<noteq> []" "table_fit ch" "ent_sorted ch" "\<forall>e \<in> set ch. piece_ok n e" "num i \<in> number_range"
    using Cons.prems(2,4,5) f(1,2) by (auto simp: made_file_def)
  note m = made_file_persisted [OF f(2) this]
  have IH: "\<forall>fm \<in> set fms'. file_sound n fm \<and> fm_level fm = int lv" "tables_persisted dk' fms'" "\<And>j. j < Suc i \<Longrightarrow> dk' (num j) = (dk(num i \<mapsto> f)) (num j)"
    using Cons.IH [OF f(3) Cons.prems(2,3)] Cons.prems(4,5) f(1) by auto
  have "dk' (num j) = dk (num j)" if "j < i" for j using IH(3) [of j] that injD [OF Cons.prems(3), of j i] by auto
  moreover have "tables_persisted dk' [fm]" using IH(3) [of i] m(3,4) by (auto simp: tables_persisted_def)
  ultimately show ?case using IH(1,2) m(1,2) by (auto simp: f(1) tables_persisted_def)
qed

lemma merge_outputs_persisted:
  assumes "top_ok merge_source_ops pick" "\<forall>fm \<in> set (job_inputs job). fm_ok fm" "unique_versions (set (concat (map fm_entries (job_inputs job))))"
    and "merge_inputs pick (\<lambda>_. healthy) ios num limit job old dk = Some (Inr st)" "\<forall>m. opens (ios m) \<and> tio_sync (ios m)" "inj num" "\<forall>fm \<in> set (outputs st). fm_number fm \<in> number_range"
    and "pieces_fit (job_pieces limit job old)" "\<forall>fm \<in> set (job_inputs job). file_sound n fm"
  shows "\<forall>fm \<in> set (outputs st). file_sound n fm \<and> fm_level fm = int (output_level job)" "tables_persisted (ms_disk st) (outputs st)"
proof -
  let ?p = "job_pieces limit job old"
  have "merge_list ios num limit job old (job_versions job) (merge_start dk) = Inr st" using merge_inputs_list [OF assms(1-3)] assms(4) by simp
  from merge_list_files [OF writing_start(1) this] have made: "made_files ios num (output_level job) 0 ?p (outputs st) dk (ms_disk st)"
    by (simp add: writing_start job_pieces_def) (simp add: merge_start_def)
  have ents: "piece_ok n e" if e: "e \<in> set (concat ?p)" for e
  proof -
    obtain fm where fm: "fm \<in> set (job_inputs job)" "e \<in> set (fm_entries fm)" using job_pieces_entries(4) [of limit job old] e by auto
    have "fm_ok fm" "file_sound n fm" using fm(1) assms(2,9) by auto
    then have "fm_smallest fm \<noteq> []" "fm_smallest fm \<le> ekey e" "eseq e < n" "stored e = e"
      using fm_ok_range [OF _ fm(2)] fm_entries_stored [OF _ fm(2)] fm(2) by (auto simp: file_sound_def intro: le_less_trans)
    then show ?thesis by (auto simp: piece_ok_def)
  qed
  have "\<forall>ch \<in> set ?p. ch \<noteq> [] \<and> table_fit ch \<and> ent_sorted ch \<and> (\<forall>e \<in> set ch. piece_ok n e)"
  proof
    fix ch assume ch: "ch \<in> set ?p"
    then obtain xs ys where "?p = xs @ ch # ys" by (meson split_list)
    then have "ent_sorted ch" using job_pieces_entries(3) [of limit job old] by (simp add: sorted_wrt_append)
    then show "ch \<noteq> [] \<and> table_fit ch \<and> ent_sorted ch \<and> (\<forall>e \<in> set ch. piece_ok n e)"
      using ch ents job_pieces_entries(2) [of limit job old] assms(8) by (auto simp: pieces_fit_def)
  qed
  from made_files_persisted [OF made assms(5,6) this assms(7)]
  show "\<forall>fm \<in> set (outputs st). file_sound n fm \<and> fm_level fm = int (output_level job)" "tables_persisted (ms_disk st) (outputs st)" by auto
qed

text \<open>The merge adds its outputs to the directory and leaves every other file alone.\<close>

lemma made_files_disk: "made_files ios num lv i chs fms dk dk' \<Longrightarrow> n \<notin> fm_number ` set fms \<Longrightarrow> dk' n = dk n"
  by (induction chs arbitrary: i fms dk) (fastforce simp: made_file_def)+

lemma merge_persisted:
  assumes "db_ok d" "persisted d" "job_shape (current_version d) job" "top_ok merge_source_ops pick"
    and "merge_inputs pick (\<lambda>_. healthy) ios num limit job old (disk d) = Some (Inr st)"
    and "\<forall>n \<in> fm_number ` set (outputs st). n \<in> number_range \<and> n \<notin> fm_number ` set (ver_files (current_version d))"
  shows "persisted (d\<lparr>disk := ms_disk st\<rparr>)" "n \<notin> fm_number ` set (outputs st) \<Longrightarrow> ms_disk st n = disk d n"
proof -
  have "merge_list ios num limit job old (job_versions job) (merge_start (disk d)) = Inr st"
    using merge_inputs_list [OF assms(4) job_inputs_ok [OF assms(1,3)]] assms(5) by simp
  from merge_list_files [OF writing_start(1) this] have made: "made_files ios num (output_level job) 0 (job_pieces limit job old) (outputs st) (disk d) (ms_disk st)"
    by (simp add: writing_start job_pieces_def) (simp add: merge_start_def)
  have p: "tables_persisted (disk d) (ver_files (current_version d))" "dom (disk d) \<subseteq> number_range" using assms(2) by (auto simp: persisted_def)
  have "tables_persisted (ms_disk st) (ver_files (current_version d))"
    by (rule tables_persisted_new [OF p(1)]) (use assms(6) made_files_disk [OF made] in blast)
  moreover have "dom (ms_disk st) \<subseteq> number_range" using assms(6) made_files_disk [OF made] p(2) by (metis domIff subset_iff)
  ultimately show "persisted (d\<lparr>disk := ms_disk st\<rparr>)" using assms(2) by (simp add: persisted_def)
  show "n \<notin> fm_number ` set (outputs st) \<Longrightarrow> ms_disk st n = disk d n" by (rule made_files_disk [OF made])
qed

lemma ver_sound_replace:
  assumes "ver_sound n ver" "version_ok ver" "job_shape ver job" "outputs_ok ver job outs"
    and "\<forall>fm \<in> set outs. file_sound n fm \<and> fm_level fm = int (output_level job)"
  shows "ver_sound n (replace_files job outs ver)"
proof -
  have o: "1 \<le> output_level job" "set (job_inputs job) \<subseteq> set (ver_files ver)" using assms(3) by (auto simp: job_shape_def)
  note lev = replace_files_level [OF assms(2) o(2,1)]
  have "levelled (replace_files job outs ver)" using assms(1,5) by (auto simp: levelled_def lev ver_sound_def without_def)
  moreover have "sorted_wrt (\<lambda>f g. fm_number f < fm_number g) (files (replace_files job outs ver) 0)"
    using assms(1) o(1) by (simp add: lev ver_sound_def without_def sorted_wrt_filter)
  ultimately show ?thesis using assms(1,5) replace_files_ok(2) [OF assms(2-4)] by (auto simp: ver_sound_def)
qed

section \<open>A crash during the commit\<close>

text \<open>
  What is on disk at the points of \<open>commit_round\<close>: before it, after the snapshot was written and before it is
  synced, after the sync, and while the input files are unlinked one after the other.
\<close>

inductive commit_stage :: "sys_ret list \<Rightarrow> bool \<Rightarrow> compaction_job \<Rightarrow> merge_state \<Rightarrow> db \<Rightarrow> db \<Rightarrow> bool" for rs ok job st d where
  merged: "commit_stage rs ok job st d d"
| appended: "outputs st \<noteq> [] \<Longrightarrow> ok' \<in> {False, ok} \<Longrightarrow>
     append_snapshot rs ok' (version_to_manifest (replace_files job (outputs st) (current_version d))) (db_manifest d) = (m, e) \<Longrightarrow>
     commit_stage rs ok job st d (d\<lparr>db_manifest := m\<rparr>)"
| unlinking: "outputs st \<noteq> [] \<Longrightarrow>
     append_snapshot rs ok (version_to_manifest (replace_files job (outputs st) (current_version d))) (db_manifest d) = (m, None) \<Longrightarrow>
     gone \<subseteq> fm_number ` set (job_inputs job) \<Longrightarrow>
     commit_stage rs ok job st d (d\<lparr>db_manifest := m, disk := (\<lambda>n. if n \<in> gone then None else disk d n)\<rparr>)"

lemma replaced_tables:
  assumes "version_ok ver" "job_shape ver job" "outputs_ok ver job outs" "tables_persisted dk (ver_files ver)" "tables_persisted dk outs"
    and "gone \<subseteq> fm_number ` set (job_inputs job)"
  shows "tables_persisted (\<lambda>n. if n \<in> gone then None else dk n) (ver_files (replace_files job outs ver))"
proof -
  have sub: "set (job_inputs job) \<subseteq> set (ver_files ver)" using assms(2) by (auto simp: job_shape_def)
  have "fm_number fm \<notin> gone" if "fm \<in> set (ver_files ver) - set (job_inputs job)" for fm
    using input_numbers [OF assms(1) sub] assms(6) that by blast
  moreover have "fm_number fm \<notin> gone" if "fm \<in> set outs" for fm
  proof -
    have "fm_number ` set outs \<inter> fm_number ` set (ver_files ver) = {}" using assms(3) by (simp add: outputs_ok_def)
    then show ?thesis using that subset_trans [OF assms(6) image_mono [OF sub]] by (meson disjoint_iff imageI subsetD)
  qed
  ultimately show ?thesis using assms(4,5) replace_files_ok(2) [OF assms(1-3)] unfolding tables_persisted_def by auto
qed

lemma commit_succeeds:
  assumes "outputs st \<noteq> []"
  obtains d' where "commit_round [] True job st d = Inr d'" "current_version d' = replace_files job (outputs st) (current_version d)"
    "mtable d' = mtable d" "next_seq d' = next_seq d"
  using assms that by (simp add: commit_round_def append_snapshot_def file_write_def write_fully_Nil Let_def)

lemma new_version_persisted:
  assumes "db_ok d" "persisted d" "job_shape (current_version d) job" "top_ok merge_source_ops pick" "\<forall>n. opens (ios n) \<and> tio_sync (ios n)"
    and "pieces_fit (job_pieces limit job old)" "merge_inputs pick (\<lambda>_. healthy) ios num limit job old dk = Some (Inr st)" "inj num"
    and "\<forall>fm \<in> set (outputs st). fm_number fm \<in> number_range" "fresh_numbers d (outputs st)" "\<forall>fm \<in> set (outputs st). disk d (fm_number fm) = ms_disk st (fm_number fm)"
  shows "ver_sound (next_seq d) (replace_files job (outputs st) (current_version d))"
    "gone \<subseteq> fm_number ` set (job_inputs job) \<Longrightarrow>
       tables_persisted (\<lambda>n. if n \<in> gone then None else disk d n) (ver_files (replace_files job (outputs st) (current_version d)))"
proof -
  let ?ver = "current_version d" and ?fs = "outputs st"
  have p: "ver_sound (next_seq d) ?ver" "tables_persisted (disk d) (ver_files ?ver)" "version_ok ?ver" using assms(1,2) by (auto simp: persisted_def db_ok_def)
  have op: "\<forall>n. opens (ios n)" using assms(5) by blast
  note oks = merge_outputs_ok [OF assms(1,3,4) op assms(6,7,8,10)]
  have "\<forall>fm \<in> set (job_inputs job). file_sound (next_seq d) fm" using assms(3) p(1) by (auto simp: ver_sound_def job_shape_def)
  note mp = merge_outputs_persisted [OF assms(4) job_inputs_ok [OF assms(1,3)] assms(7,5,8,9,6) this]
  show "ver_sound (next_seq d) (replace_files job ?fs ?ver)" by (rule ver_sound_replace [OF p(1,3) assms(3) oks mp(1)])
  have "tables_persisted (disk d) ?fs" using assms(11) by (intro tables_persisted_new [OF mp(2)]) auto
  then show "gone \<subseteq> fm_number ` set (job_inputs job) \<Longrightarrow> tables_persisted (\<lambda>n. if n \<in> gone then None else disk d n) (ver_files (replace_files job ?fs ?ver))"
    by (rule replaced_tables [OF p(3) assms(3) oks p(2)])
qed

text \<open>A commit that returned leaves the database on disk.\<close>

lemma commit_round_persisted:
  assumes "db_ok d" "persisted d" "job_shape (current_version d) job" "top_ok merge_source_ops pick" "\<forall>n. opens (ios n) \<and> tio_sync (ios n)"
    and "pieces_fit (job_pieces limit job old)" "merge_inputs pick (\<lambda>_. healthy) ios num limit job old dk = Some (Inr st)" "inj num"
    and "\<forall>fm \<in> set (outputs st). fm_number fm \<in> number_range" "fresh_numbers d (outputs st)" "\<forall>fm \<in> set (outputs st). disk d (fm_number fm) = ms_disk st (fm_number fm)"
    and "snapshot_ok (version_to_manifest (replace_files job (outputs st) (current_version d)))" "commit_round rs True job st d = Inr d'"
  shows "persisted d'"
proof (cases "outputs st = []")
  case True
  then show ?thesis using assms(2,13) by (auto simp: commit_round_def persisted_def)
next
  case False
  let ?gone = "fm_number ` set (job_inputs job)"
  obtain m where m: "append_snapshot rs True (version_to_manifest (replace_files job (outputs st) (current_version d))) (db_manifest d) = (m, None)"
      "current_version d' = replace_files job (outputs st) (current_version d)" "mtable d' = mtable d" "next_seq d' = next_seq d" "db_wal d' = db_wal d"
      "db_manifest d' = m" "disk d' = (\<lambda>n. if n \<in> ?gone then None else disk d n)"
    using False assms(13) by (auto simp: commit_round_def Let_def split: option.splits prod.splits)
  have p: "manifest_persisted (db_manifest d) (version_to_manifest (current_version d))" "dom (disk d) \<subseteq> number_range" using assms(2) by (auto simp: persisted_def)
  have "dom (disk d') \<subseteq> number_range" using p(2) by (auto simp: m(7) split: if_splits)
  with new_version_persisted(1) [OF assms(1-11)] new_version_persisted(2) [OF assms(1-11), of ?gone] append_snapshot_persisted [OF p(1) m(1) assms(12)] assms(2)
  show ?thesis by (simp add: persisted_def m)
qed

lemma commit_crash:
  assumes "db_ok d" "persisted d" "job_shape (current_version d) job" "top_ok merge_source_ops pick" "\<forall>n. opens (ios n) \<and> tio_sync (ios n)"
    and "pieces_fit (job_pieces limit job old)" "merge_inputs pick (\<lambda>_. healthy) ios num limit job old dk = Some (Inr st)" "inj num"
    and "\<forall>fm \<in> set (outputs st). fm_number fm \<in> number_range" "fresh_numbers d (outputs st)" "\<forall>fm \<in> set (outputs st). disk d (fm_number fm) = ms_disk st (fm_number fm)"
    and "snapshot_ok (version_to_manifest (replace_files job (outputs st) (current_version d)))"
    and "commit_stage rs True job st d ds" "crash_dir ds dir"
  obtains dv where "db_ok dv" "recoverable dv dir"
    "\<And>k s. old \<le> s \<or> (\<forall>x \<in> set (job_versions job). eseq x \<le> s) \<Longrightarrow> map_option fst (get_impl no_error k s dv) = map_option fst (get_impl no_error k s d)"
proof -
  note result = that
  let ?ver = "current_version d" and ?fs = "outputs st"
  let ?nv = "replace_files job ?fs ?ver"
  have p: "wal_persisted (db_wal d) (mt_versions (mtable d))" "manifest_persisted (db_manifest d) (version_to_manifest ?ver)" "ver_sound (next_seq d) ?ver"
      "tables_persisted (disk d) (ver_files ?ver)" using assms(2) by (auto simp: persisted_def)
  have op: "\<forall>n. opens (ios n)" using assms(5) by blast
  note nv = new_version_persisted [OF assms(1-11)]
  obtain man where man: "map_of dir ''MANIFEST'' = Some man" "crash_image (mlog (db_manifest ds)) man" using assms(14) by (auto simp: crash_dir_def)
  have keep: thesis if "manifest_reads man (version_to_manifest ?ver)" "db_wal ds = db_wal d" "disk ds = disk d"
  proof -
    have "recoverable d dir" by (rule recoverableI [OF assms(14) p(3)]) (use that p(4) man(1) wal_persisted_reads [OF p(1)] in auto)
    with assms(1) show thesis by (rule result) simp
  qed
  have new: thesis if m: "manifest_reads man (version_to_manifest ?nv)" and ds: "db_wal ds = db_wal d" "disk ds = (\<lambda>n. if n \<in> gone then None else disk d n)"
      "gone \<subseteq> fm_number ` set (job_inputs job)" and ne: "?fs \<noteq> []" for gone
  proof -
    obtain d' where d': "commit_round [] True job st d = Inr d'" "current_version d' = ?nv" "mtable d' = mtable d" "next_seq d' = next_seq d"
      by (rule commit_succeeds [OF ne])
    have "recoverable d' dir"
      by (rule recoverableI [OF assms(14)]) (use nv(1) nv(2) [OF ds(3)] ds(1,2) d' m man(1) wal_persisted_reads [OF p(1)] in auto)
    with commit_outputs(1) [OF assms(1,3,4) op assms(6,7,8,10) d'(1)] commit_outputs(2) [OF assms(1,3,4) op assms(6,7,8,10) d'(1)]
    show thesis by (rule_tac result [of d']) blast+
  qed
  from assms(13) show thesis
  proof cases
    case merged
    then show thesis using keep manifest_persisted_reads(1) [OF p(2)] man(2) by simp
  next
    case (appended ok' m e)
    then have "manifest_reads man (version_to_manifest ?ver) \<or> manifest_reads man (version_to_manifest ?nv)"
      using append_snapshot_reads [OF p(2) appended(4) assms(12)] man(2) by simp
    then show thesis using keep new [of "{}"] appended(1,2) by auto
  next
    case (unlinking m gone)
    from append_snapshot_persisted [OF p(2) unlinking(3) assms(12)] have "manifest_reads man (version_to_manifest ?nv)"
      using manifest_persisted_reads(1) man(2) unlinking(1) by auto
    then show thesis using new [of gone] unlinking(1,2,4) by simp
  qed
qed

end
