(* ===== verification/Background.thy ===== *)
theory Background
  imports Session Compact_Crash
begin

text \<open>
  The compaction thread beside a client: \<open>compaction_loop\<close> of \<open>src/db.cpp\<close> as steps on the database, between which the client reads, writes and
  flushes. Every interleaving keeps what the commit of the thread relies on, and no step of the thread changes what the client sees.
\<close>

section \<open>The thread\<close>

text \<open>Where the thread is: waiting, merging the inputs of a job, or with the outputs written and not yet committed.\<close>

datatype thread = Resting | Merging compaction_job u64 | Merged compaction_job u64 merge_state

text \<open>
  The steps of a round: nothing to do, a job is chosen, its inputs are merged into new files, they are committed. The calls of
  the merge do not fail, and the versions it keeps can be written to tables.
\<close>

inductive bg_step :: "db \<times> thread \<Rightarrow> db \<times> thread \<Rightarrow> bool" where
  no_job: "begin_round d = (None, d') \<Longrightarrow> bg_step (d, Resting) (d', Resting)"
| chosen: "begin_round d = (Some (job, old), d') \<Longrightarrow> bg_step (d, Resting) (d', Merging job old)"
| merged: "top_ok merge_source_ops pick \<Longrightarrow> \<forall>n. opens (ios n) \<and> tio_sync (ios n) \<Longrightarrow> pieces_fit (job_pieces (target_file_size (opts d)) job old) \<Longrightarrow>
     merge_inputs pick (\<lambda>_. healthy) ios (\<lambda>i. next_sst_number d + int i) (target_file_size (opts d)) job old (disk d) = Some (Inr st) \<Longrightarrow>
     {next_sst_number d..<next_sst_number d + int (ms_started st)} \<subseteq> number_range \<Longrightarrow>
     bg_step (d, Merging job old) (d\<lparr>disk := ms_disk st, next_sst_number := next_sst_number d + int (ms_started st)\<rparr>, Merged job old st)"
| committed: "snapshot_ok (version_to_manifest (replace_files job (outputs st) (current_version d))) \<Longrightarrow> commit_round rs True job st d = Inr d' \<Longrightarrow>
     bg_step (d, Merged job old st) (d', Resting)"

inductive_cases bg_stepE: "bg_step (d, t) (d', t')"

section \<open>What the commit relies on\<close>

definition merge_done :: "db \<Rightarrow> compaction_job \<Rightarrow> u64 \<Rightarrow> merge_state \<Rightarrow> bool" where
  "merge_done d job old st \<longleftrightarrow> (\<exists>pick ios num limit dk. top_ok merge_source_ops pick \<and> (\<forall>n. opens (ios n) \<and> tio_sync (ios n)) \<and> inj num \<and>
     pieces_fit (job_pieces limit job old) \<and> merge_inputs pick (\<lambda>_. healthy) ios num limit job old dk = Some (Inr st)) \<and>
   fresh_numbers d (outputs st) \<and> (\<forall>fm \<in> set (outputs st). fm_number fm \<in> number_range \<and> disk d (fm_number fm) = ms_disk st (fm_number fm))"

fun thread_ok :: "db \<Rightarrow> thread \<Rightarrow> bool" where
  "thread_ok d Resting \<longleftrightarrow> True"
| "thread_ok d (Merging job old) \<longleftrightarrow> job_shape (current_version d) job"
| "thread_ok d (Merged job old st) \<longleftrightarrow> job_shape (current_version d) job \<and> merge_done d job old st"

definition beside_ok :: "db \<Rightarrow> thread \<Rightarrow> bool" where
  "beside_ok d t \<longleftrightarrow> settled d \<and> \<not> force_compact d \<and> thread_ok d t"

text \<open>A call of the client does not disturb the thread.\<close>

lemma fresh_numbers_advanced:
  assumes "fresh_numbers d fms" "advanced d d'"
  shows "fresh_numbers d' fms"
proof -
  have "n < next_sst_number d' \<and> n \<notin> fm_number ` set (ver_files (current_version d')) \<and> n \<notin> cached_numbers (cache d')" if n: "n \<in> fm_number ` set fms" for n
  proof -
    have f: "n < next_sst_number d" "n \<notin> fm_number ` set (ver_files (current_version d))" "n \<notin> cached_numbers (cache d)" using assms(1) n by (auto simp: fresh_numbers_def)
    then show ?thesis using assms(2) by (fastforce simp: advanced_def)
  qed
  then show ?thesis by (simp add: fresh_numbers_def)
qed

lemma advanced_thread:
  assumes "thread_ok d t" "advanced d d'" "db_ok d'"
  shows "thread_ok d' t"
proof -
  have shape: "job_shape (current_version d') job" if "job_shape (current_version d) job" for job
    using job_shape_grown [OF that] assms(2,3) by (simp add: advanced_def db_ok_def)
  have "merge_done d' job old st" if m: "merge_done d job old st" for job old st
  proof -
    have fr: "fresh_numbers d (outputs st)" using m by (simp add: merge_done_def)
    have "disk d' (fm_number fm) = disk d (fm_number fm)" if "fm \<in> set (outputs st)" for fm
      using fr assms(2) that by (simp add: fresh_numbers_def advanced_def)
    then show ?thesis using m fresh_numbers_advanced [OF fr assms(2)] by (simp add: merge_done_def)
  qed
  with shape assms(1) show ?thesis by (cases t) auto
qed

section \<open>The steps of the thread\<close>

lemma begin_ok:
  assumes "beside_ok d Resting" "begin_round d = (Some (job, old), d')"
  shows "beside_ok d' (Merging job old)" "db_map d' = db_map d"
proof -
  note job = begin_round_job [OF assms(2)]
  have d: "db_ok d" "persisted d" "\<not> force_compact d" using assms(1) by (auto simp: beside_ok_def settled_def)
  have "\<forall>fm \<in> set (files (current_version d) 0). fm_smallest fm \<noteq> []" using d(2) in_ver_filesI [of _ "current_version d" 0]
    by (auto simp: persisted_def ver_sound_def file_sound_def)
  then have "job_shape (current_version d) job" unfolding job(1) using d(1,3) job(1,2) by (intro pick_shape) (auto simp: db_ok_def)
  moreover have "db_ok d'" using db_ok_frame(1) [OF d(1), of d'] by (simp add: job(4))
  ultimately show "beside_ok d' (Merging job old)" "db_map d' = db_map d"
    using assms(1) by (simp_all add: beside_ok_def settled_def persisted_def job(4) db_map_def [abs_def] db_runs_def)
qed

lemma merge_ok:
  assumes "beside_ok d (Merging job old)" "bg_step (d, Merging job old) (d', t')"
  shows "beside_ok d' t'" "db_map d' = db_map d"
proof -
  have d: "db_ok d" "persisted d" "\<not> force_compact d" "job_shape (current_version d) job" using assms(1) by (auto simp: beside_ok_def settled_def)
  from assms(2) obtain pick ios st where st: "top_ok merge_source_ops pick" "\<forall>n. opens (ios n) \<and> tio_sync (ios n)" "pieces_fit (job_pieces (target_file_size (opts d)) job old)"
      "merge_inputs pick (\<lambda>_. healthy) ios (\<lambda>i. next_sst_number d + int i) (target_file_size (opts d)) job old (disk d) = Some (Inr st)"
      "{next_sst_number d..<next_sst_number d + int (ms_started st)} \<subseteq> number_range"
      "d' = d\<lparr>disk := ms_disk st, next_sst_number := next_sst_number d + int (ms_started st)\<rparr>" "t' = Merged job old st"
    by (cases rule: bg_stepE) auto
  have "\<forall>n. opens (ios n)" using st(2) by blast
  note m = merge_outputs [OF st(1) job_inputs_ok [OF d(1,4)] st(4) this st(3)]
  have num: "fm_number fm \<in> {next_sst_number d..<next_sst_number d + int (ms_started st)}" if "fm \<in> set (outputs st)" for fm
  proof -
    have "fm_number fm \<in> set (map fm_number (outputs st))" using that by simp
    then show ?thesis unfolding m(2) m(3) by auto
  qed
  have new: "n \<in> number_range \<and> n \<notin> fm_number ` set (ver_files (current_version d)) \<and> n \<notin> cached_numbers (cache d)" if "n \<in> fm_number ` set (outputs st)" for n
    using num that st(5) db_ok_numbers(1,2) [OF d(1)] by fastforce
  then have fresh: "\<forall>n \<in> fm_number ` set (outputs st). n \<in> number_range \<and> n \<notin> fm_number ` set (ver_files (current_version d))" by blast
  have "persisted d'" using merge_persisted(1) [OF d(1,2,4) st(1,4) fresh] by (simp add: st(6) persisted_def)
  moreover have ok: "db_ok d'" using db_ok_frame(1) [OF d(1), of d'] by (simp add: st(6))
  moreover have "fresh_numbers d' (outputs st)" using new num by (auto simp: fresh_numbers_def st(6))
  moreover have "inj (\<lambda>i. next_sst_number d + int i)" by (simp add: inj_on_def)
  with st(1-4) have "\<exists>pick ios num limit dk. top_ok merge_source_ops pick \<and> (\<forall>n. opens (ios n) \<and> tio_sync (ios n)) \<and> inj num \<and>
     pieces_fit (job_pieces limit job old) \<and> merge_inputs pick (\<lambda>_. healthy) ios num limit job old dk = Some (Inr st)" by blast
  ultimately have "merge_done d' job old st" using new unfolding merge_done_def by (simp add: st(6))
  then show "beside_ok d' t'" "db_map d' = db_map d"
    using assms(1) ok \<open>persisted d'\<close> by (simp_all add: beside_ok_def settled_def st(6,7) db_map_def [abs_def] db_runs_def)
qed

lemma commit_round_keeps: "commit_round rs ok job st d = Inr d' \<Longrightarrow> opts d' = opts d \<and> db_wal d' = db_wal d \<and> force_compact d' = force_compact d \<and> next_seq d' = next_seq d \<and> live_snapshots d' = live_snapshots d"
  by (auto simp: commit_round_def Let_def split: if_splits prod.splits option.splits)

lemma commit_ok:
  assumes "beside_ok d (Merged job old st)" "snapshot_ok (version_to_manifest (replace_files job (outputs st) (current_version d)))" "commit_round rs True job st d = Inr d'"
  shows "beside_ok d' Resting" "db_map d' = db_map d"
proof -
  have d: "db_ok d" "persisted d" "job_shape (current_version d) job" "merge_done d job old st" using assms(1) by (auto simp: beside_ok_def settled_def)
  obtain pick ios num limit dk where st: "top_ok merge_source_ops pick" "\<forall>n. opens (ios n) \<and> tio_sync (ios n)" "inj num" "pieces_fit (job_pieces limit job old)"
      "merge_inputs pick (\<lambda>_. healthy) ios num limit job old dk = Some (Inr st)" "fresh_numbers d (outputs st)"
      "\<forall>fm \<in> set (outputs st). fm_number fm \<in> number_range" "\<forall>fm \<in> set (outputs st). disk d (fm_number fm) = ms_disk st (fm_number fm)"
    using d(4) by (auto simp: merge_done_def)
  have op: "\<forall>n. opens (ios n)" using st(2) by blast
  note c = commit_outputs [OF d(1,3) st(1) op st(4,5,3,6) assms(3)]
  have "persisted d'" by (rule commit_round_persisted [OF d(1-3) st(1,2,4,5,3,7,6,8) assms(2,3)])
  then show "beside_ok d' Resting" using assms(1) c(1) commit_round_keeps [OF assms(3)] by (simp add: beside_ok_def settled_def)
  show "db_map d' = db_map d"
  proof
    fix k
    have "Some (Inr (db_map d' k) :: sst_error + bytes option) = Some (Inr (db_map d k))"
      unfolding db_map_get [OF d(1), symmetric] db_map_get [OF c(1), symmetric] by (rule c(2)) simp
    then show "db_map d' k = db_map d k" by simp
  qed
qed

lemma bg_step_ok:
  assumes "beside_ok d t" "bg_step (d, t) (d', t')"
  shows "beside_ok d' t' \<and> db_map d' = db_map d"
  using assms(2)
proof cases
  case no_job
  then have "d' = d\<lparr>compaction_pending := False, compaction_running := False\<rparr>" by (auto simp: begin_round_def Let_def split: if_splits)
  moreover from this have "db_ok d'" using db_ok_frame(1) [of d d'] assms(1) by (simp add: beside_ok_def settled_def)
  ultimately show ?thesis using assms(1) no_job by (simp add: beside_ok_def settled_def persisted_def db_map_def [abs_def] db_runs_def)
next
  case (chosen job old)
  then show ?thesis using begin_ok assms(1) by simp
next
  case (merged pick ios job old st)
  then show ?thesis using merge_ok [of d job old d' t'] assms by simp
next
  case (committed job st rs old)
  then show ?thesis using commit_ok assms(1) by simp
qed

lemma bg_steps_ok:
  assumes "bg_step\<^sup>*\<^sup>* (d, t) (d', t')" "beside_ok d t"
  shows "beside_ok d' t'" "db_map d' = db_map d"
proof -
  have "beside_ok (fst x) (snd x) \<and> db_map (fst x) = db_map d" if "bg_step\<^sup>*\<^sup>* (d, t) x" for x
    using that
  proof (induction rule: rtranclp_induct)
    case (step y z)
    then show ?case using bg_step_ok [of "fst y" "snd y" "fst z" "snd z"] by simp
  qed (simp add: assms(2))
  from this [OF assms(1)] show "beside_ok d' t'" "db_map d' = db_map d" by simp_all
qed

text \<open>A crash while the thread commits.\<close>

lemma bg_crash:
  assumes "beside_ok d (Merged job old st)" "snapshot_ok (version_to_manifest (replace_files job (outputs st) (current_version d)))"
    and "commit_stage rs True job st d ds" "crash_dir ds dir"
  obtains dv where "db_ok dv" "recoverable dv dir" "db_map dv = db_map d"
proof -
  have d: "db_ok d" "persisted d" "job_shape (current_version d) job" "merge_done d job old st" using assms(1) by (auto simp: beside_ok_def settled_def)
  obtain pick ios num limit dk where st: "top_ok merge_source_ops pick" "\<forall>n. opens (ios n) \<and> tio_sync (ios n)" "inj num" "pieces_fit (job_pieces limit job old)"
      "merge_inputs pick (\<lambda>_. healthy) ios num limit job old dk = Some (Inr st)" "fresh_numbers d (outputs st)"
      "\<forall>fm \<in> set (outputs st). fm_number fm \<in> number_range" "\<forall>fm \<in> set (outputs st). disk d (fm_number fm) = ms_disk st (fm_number fm)"
    using d(4) by (auto simp: merge_done_def)
  obtain dv where dv: "db_ok dv" "recoverable dv dir" "\<And>k s. old \<le> s \<or> (\<forall>x \<in> set (job_versions job). eseq x \<le> s) \<Longrightarrow>
      map_option fst (get_impl no_error k s dv) = map_option fst (get_impl no_error k s d)"
    by (rule commit_crash [OF d(1-3) st(1,2,4,5,3,7,6,8) assms(2-4)]) blast
  have "db_map dv k = db_map d k" for k
    using dv(3) [of UINT64_MAX k] unfolding db_map_get [OF d(1)] db_map_get [OF dv(1)] by simp
  then show thesis using that [OF dv(1,2)] by blast
qed

end
