(* ===== verification/Recovery_Spec.thy ===== *)
theory Recovery_Spec
  imports Compact_Crash Compact_Properties
begin

text \<open>
  Durability and crash consistency of the database: what \<open>DB::open\<close> recovers after a crash at rest, after an
  acknowledged write, and in the middle of a batch, a flush or a compaction.
\<close>

section \<open>Opening any directory\<close>



section \<open>Examples\<close>

text \<open>A directory that a crash may leave of any database: everything written has reached the disk.\<close>

definition dir_of :: "db \<Rightarrow> directory" where
  "dir_of d = (''wal.log'', contents (wlog (db_wal d))) # (''MANIFEST'', contents (mlog (db_manifest d))) #
     map (\<lambda>n. (sst_name n, contents (the (disk d n)))) (sorted_list_of_set (dom (disk d)))"

lemma dir_of_crash:
  assumes "finite (dom (disk d))" "dom (disk d) \<subseteq> number_range" "\<forall>f \<in> {wlog (db_wal d), mlog (db_manifest d)} \<union> ran (disk d). durable f \<le> length (contents f)"
  shows "crash_dir d (dir_of d)"
proof -
  let ?ns = "sorted_list_of_set (dom (disk d))"
  have img: "crash_image f (contents f)" if "f \<in> {wlog (db_wal d), mlog (db_manifest d)} \<union> ran (disk d)" for f
    using assms(3) that by (auto simp: crash_image_def)
  have inj: "inj_on sst_name (dom (disk d))" using sst_name_inj assms(2) by (auto simp: inj_on_def number_range_def subset_iff)
  then have at: "map_of (map (\<lambda>n. (sst_name n, contents (the (disk d n)))) ?ns) (sst_name n) = Some (contents f)" if "disk d n = Some f" for n f
    using assms(1) that by (intro map_of_is_SomeI) (auto simp: distinct_map o_def)
  have "extension ''wal.log'' = ''.log''" "extension ''MANIFEST'' = []" by (simp_all add: extension_def ext_length_def Let_def)
  then have "own_names (dir_of d)" using inj assms(1,2)
    by (auto simp: own_names_def dir_of_def distinct_map o_def image_iff sst_name_other sst_name_other [THEN not_sym])
  then show ?thesis using at img sst_name_other by (auto simp: crash_dir_def dir_of_def ran_def)
qed

text \<open>The example database with its files, and a directory that a crash may leave of it.\<close>

definition ex_stored :: db where
  "ex_stored = ex_db\<lparr>db_manifest := \<lparr>mlog = on_disk (snapshot_frame [meta_entry ex_fm])\<rparr>, disk := [7 \<mapsto> on_disk (sst_image ex_entries)]\<rparr>"

definition ex_dir :: "bytes \<Rightarrow> directory" where
  "ex_dir log = [(sst_name 7, sst_image ex_entries), (''LOCK'', []), (''wal.log'', log), (''MANIFEST'', snapshot_frame [meta_entry ex_fm])]"

lemma ex_stored_ok: "db_ok ex_stored"
  using db_ok_frame(1) [OF ex_db_ok, of ex_stored] by (simp add: ex_stored_def)

lemma ex_stored_fields:
  "current_version ex_stored = current_version ex_db" "mtable ex_stored = mtable ex_db" "next_seq ex_stored = 7"
  "wlog (db_wal ex_stored) = on_disk []" "wmode (db_wal ex_stored) = EveryWrite" "opts ex_stored = default_options"
  by (simp_all add: ex_stored_def ex_db_def wal_open_def on_disk_def)

lemma ex_stored_persisted: "persisted ex_stored"
  unfolding persisted_def ex_stored_fields ex_db_runs
proof (intro conjI)
  show "wal_persisted (db_wal ex_stored) (mt_versions (mtable ex_db))"
    by (simp add: wal_persisted_def ex_stored_fields) (simp add: ex_db_def mt_versions_new kMemtableHeight_def)
  have "snapshot_ok [meta_entry ex_fm]" by (simp add: snapshot_ok_def entry_ok_def meta_entry_def ex_fm_def)
  then show "manifest_persisted (db_manifest ex_stored) (version_to_manifest (current_version ex_db))"
    by (auto simp: manifest_persisted_def version_to_manifest_files ex_db_runs ex_stored_def intro!: exI [of _ "[[meta_entry ex_fm]]"])
  have "sst_open None None None 7 (sst_image ex_entries) = Inr (fm_table ex_fm)"
    using sst_open_image [OF _ ex_fits ex_image_small] by (simp add: ex_blocks ex_fm_def) (simp add: ex_entries_def)
  then show "tables_persisted (disk ex_stored) [ex_fm]" by (auto simp: tables_persisted_def holds_table_def ex_stored_def) (simp add: ex_fm_def)
  have "fmax_seq (image_footer ex_entries) = 6" by (simp add: image_footer_def Let_def seq_max_def ex_entries_def)
  then have "file_sound 7 ex_fm" by (simp add: file_sound_def ex_fm_entries) (simp add: ex_fm_def ex_entries_def number_range_def)
  then show "ver_sound 7 (current_version ex_db)" unfolding ver_sound_def ex_db_runs by (simp add: levelled_def ex_db_def ex_fm_def)
qed (simp_all add: levelled_def ex_db_def ex_fm_def ex_stored_def number_range_def)

lemma ex_crash_dir:
  assumes "crash_image (wlog (db_wal d)) log" "db_manifest d = db_manifest ex_stored" "disk d = disk ex_stored"
  shows "crash_dir d (ex_dir log)"
proof -
  have names: "sst_name 7 \<noteq> ''wal.log''" "sst_name 7 \<noteq> ''MANIFEST''" by (rule sst_name_other)+
  have lock: "sst_name 7 \<noteq> ''LOCK''" "extension ''LOCK'' = []" "extension ''MANIFEST'' = []" "extension ''wal.log'' = ''.log''"
    by (simp_all add: sst_name_def padded_def decimal.simps digit_def extension_def ext_length_def Let_def)
  have "own_names (ex_dir log)" using names lock by (auto simp: own_names_def ex_dir_def number_range_def)
  then show ?thesis using names lock assms by (auto simp: crash_dir_def ex_dir_def ex_stored_def)
qed

definition ex_oio :: open_io where
  "ex_oio = \<lparr>oio_wal = [Xfer 3], oio_manifest = [], oio_open = (\<lambda>_. (None, None, None)), oio_scan = (\<lambda>_. healthy), oio_writes = [], oio_sync = True\<rparr>"

lemma ex_oio_healthy: "no_fault (oio_wal ex_oio)" "no_fault (oio_manifest ex_oio)" "oio_open ex_oio = (\<lambda>_. (None, None, None))"
  by (simp_all add: ex_oio_def)

definition ex_record :: wal_rec where
  "ex_record = \<lparr>rtype = Put, rseq = 7, rkey = [1], rval = [9]\<rparr>"

lemma ex_record_ok: "rec_ok ex_record"
  by (simp add: ex_record_def rec_ok_def max_len_def rectype_of_def rectype_byte_def)

text \<open>The example database after one more write, which stays in the memtable.\<close>

lemma ex_written:
  obtains d where "commit_batch [] True [([True], write_req Put [1] [9] 7)] (ex_stored\<lparr>next_seq := 8\<rparr>) = (Inr (), d)" "db_ok d" "persisted d"
    "mt_versions (mtable d) = [\<lparr>ekey = [1], evalue = [9], etomb = False, eseq = 7\<rparr>]" "\<not> flush_threshold_bytes (opts d) \<le> approx_bytes (mtable d)"
    "wlog (db_wal d) = on_disk (wal_frame ex_record)" "db_manifest d = db_manifest ex_stored" "disk d = disk ex_stored"
    "current_version d = current_version ex_db" "next_sst_number d = 8"
proof -
  let ?req = "write_req Put [1] [9] 7"
  obtain m where m: "apply_batch [([True], ?req)] (mtable ex_db) = Some m"
      "mt_versions m = [\<lparr>ekey = [1], evalue = [9], etomb = False, eseq = 7\<rparr>]" "db_ok (ex_db\<lparr>mtable := m, next_seq := 8\<rparr>)" by (rule ex_write)
  have small: "approx_bytes m < 4 * 1024 * 1024" using m(2,3) by (simp add: db_ok_def mem_sized_def write_bytes_def kNodeOverhead_def)
  define d where "d = ex_stored\<lparr>next_seq := 8, db_wal := (db_wal ex_stored)\<lparr>wlog := on_disk (wal_frame ex_record),
    fsync_count := fsync_count (db_wal ex_stored) + 1\<rparr>, mtable := m\<rparr>"
  have c: "commit_batch [] True [([True], ?req)] (ex_stored\<lparr>next_seq := 8\<rparr>) = (Inr (), d)"
    using m(1) by (simp add: commit_batch_def append_batch_def wal_write_def file_write_def write_fully_Nil wal_record_def durable_sync_def
        d_def ex_stored_def ex_db_def wal_open_def on_disk_def ex_record_def)
  have "persisted (ex_stored\<lparr>next_seq := 8\<rparr>)" using ex_stored_persisted ver_sound_mono [of 7 _ 8] by (auto simp: persisted_def ex_stored_fields)
  moreover have "mt_versions (mtable ex_stored) = []" by (simp add: ex_stored_fields) (simp add: ex_db_def mt_versions_new kMemtableHeight_def)
  ultimately have "persisted d"
    by (rule_tac commit_persisted [OF _ c]) (use ex_record_ok in \<open>simp_all add: d_def m(2) req_entry_def wal_record_def ex_record_def ex_stored_fields\<close>)
  moreover have "db_ok d" using db_ok_frame(1) [OF m(3), of d] by (simp add: d_def ex_stored_def ex_db_def)
  ultimately show thesis using c small m(2) by (intro that [of d]) (simp_all add: d_def ex_stored_fields default_options_def, simp_all add: ex_stored_def ex_db_def)
qed

text \<open>The database of two files, on disk.\<close>

lemma ex_file_disk:
  assumes "table_fit [e]" "piece_ok 7 e" "n \<in> number_range"
  obtains fm bs where "fm_ok fm" "fm_entries fm = [e]" "fm_number fm = n" "fm_smallest fm = ekey e" "fm_largest fm = ekey e" "has_source (fm_table fm)"
    "file_sound 7 fm" "fm_level fm = 0" "holds_table bs fm"
proof -
  have io: "EFail \<notin> set (tio_writes ex_tio)" "tio_rename ex_tio" "tio_sync ex_tio" by (simp_all add: ex_tio_def)
  obtain w w' t dk where it: "add_all [e] (writer_new (tio_writes ex_tio)) = Inr w" "install_table ex_tio n w Map.empty = (Inr (w', t), dk)"
    using install_table_succeeds [OF io(1,2) ex_tio_healthy(2) _ assms(1), of n Map.empty] by auto
  then obtain f where "dk = Map.empty(n \<mapsto> f)" by (auto simp: install_table_def Let_def split: sum.splits if_splits)
  then have "\<exists>fm. made_file (\<lambda>_. ex_tio) 0 n [e] fm f" unfolding made_file_def using it by blast
  then obtain fm where fm: "made_file (\<lambda>_. ex_tio) 0 n [e] fm f" by blast
  then have "made (\<lambda>_. ex_tio) 0 n [e] fm" unfolding made_file_def made_def by blast
  note m = made_ok [OF this ex_tio_healthy(2) _ assms(1)] and p = made_file_persisted [OF fm ex_tio_healthy(2) io(3) _ assms(1), of 7]
  show thesis using m p assms(2,3) by (auto simp: has_source_def piece_ok_def intro!: that)
qed

definition ex_two_disk :: "file_meta \<Rightarrow> file_meta \<Rightarrow> bytes \<Rightarrow> bytes \<Rightarrow> db" where
  "ex_two_disk f g bf bg = (ex_two f g)\<lparr>disk := [7 \<mapsto> on_disk bf, 8 \<mapsto> on_disk bg],
     db_manifest := \<lparr>mlog = on_disk (snapshot_frame (version_to_manifest (current_version (ex_two f g))))\<rparr>\<rparr>"

lemma ex_two_stored:
  obtains f g bf bg where "db_ok (ex_two f g)" "db_ok (ex_two_disk f g bf bg)" "persisted (ex_two_disk f g bf bg)" "fm_entries f = [ex_old]" "fm_entries g = [ex_new False]"
    "fm_smallest f = [1]" "fm_smallest g = [1]"
proof -
  have ent: "table_fit [ex_old]" "table_fit [ex_new False]" "piece_ok 7 ex_old" "piece_ok 7 (ex_new False)" "7 \<in> number_range" "8 \<in> number_range"
    by (simp_all add: one_fit [of _ 1] ex_old_def ex_new_def piece_ok_def stored_def number_range_def)
  obtain f bf where f: "fm_ok f" "fm_entries f = [ex_old]" "fm_number f = 7" "fm_smallest f = [1]" "fm_largest f = [1]" "has_source (fm_table f)"
      "file_sound 7 f" "fm_level f = 0" "holds_table bf f" by (rule ex_file_disk [OF ent(1,3,5)]) (simp add: ex_old_def)
  obtain g bg where g: "fm_ok g" "fm_entries g = [ex_new False]" "fm_number g = 8" "fm_smallest g = [1]" "fm_largest g = [1]" "has_source (fm_table g)"
      "file_sound 7 g" "fm_level g = 0" "holds_table bg g" by (rule ex_file_disk [OF ent(2,4,6)]) (simp add: ex_new_def)
  let ?d = "ex_two_disk f g bf bg"
  have ok: "db_ok (ex_two f g)" using f g by (intro ex_two_gen) (auto simp: recent_def unique_versions_def, simp_all add: ex_old_def ex_new_def)
  have v: "current_version ?d = current_version (ex_two f g)" "next_seq ?d = 7" "mt_versions (mtable ?d) = []" "db_wal ?d = db_wal ex_db"
    by (simp_all add: ex_two_disk_def ex_two_def ex_db_def mt_versions_new kMemtableHeight_def)
  have "wal_persisted (db_wal ?d) (mt_versions (mtable ?d))" unfolding v by (simp add: wal_persisted_def ex_db_def wal_open_def on_disk_def)
  moreover have "snapshot_ok [meta_entry f, meta_entry g]" by (rule snapshot_ok_small) (simp_all add: entry_ok_def meta_entry_def f g)
  then have "manifest_persisted (db_manifest ?d) (version_to_manifest (current_version ?d))" unfolding v
    by (auto simp: manifest_persisted_def version_to_manifest_files ex_two_files ex_two_disk_def intro!: exI [of _ "[[meta_entry f, meta_entry g]]"])
  moreover have "ver_sound 7 (current_version ?d)" unfolding v ver_sound_def ex_two_files using f g by (auto simp: levelled_def ex_two_def)
  moreover have "tables_persisted (disk ?d) (ver_files (current_version ?d))" unfolding v ex_two_files using f g by (auto simp: tables_persisted_def ex_two_disk_def)
  moreover have "dom (disk ?d) \<subseteq> number_range" by (simp add: ex_two_disk_def number_range_def)
  ultimately have "persisted ?d" unfolding persisted_def v(2) by blast
  moreover have "db_ok ?d" using db_ok_frame(1) [OF ok, of ?d] by (simp add: ex_two_disk_def)
  ultimately show thesis using that ok f g by blast
qed

text \<open>The two files merged into a third, before the commit.\<close>

lemma ex_merged:
  obtains d0 job d1 st d t bs where "db_ok d0" "begin_round d0 = (Some (job, UINT64_MAX), d1)" "2 \<le> length (ver_files (current_version d0))" "next_seq d0 = 7"
    "\<forall>fm \<in> set (files (current_version d0) 0). fm_smallest fm \<noteq> []" "pieces_fit (job_pieces (2 * 1024 * 1024) job UINT64_MAX)"
    "merge_inputs (first_top merge_source_ops) (\<lambda>_. healthy) (\<lambda>_. ex_tio) (\<lambda>i. 9 + int i) (2 * 1024 * 1024) job UINT64_MAX (disk d0) = Some (Inr st)"
    "db_ok d" "persisted d" "current_version d = current_version d0" "fresh_numbers d (outputs st)" "disk d = ms_disk st" "outputs st = [t]" "fm_number t = 9"
    "version_to_manifest (replace_files job [t] (current_version d)) = [meta_entry t]" "fm_smallest t = [1]" "fm_largest t = [1]" "fm_level t = 1"
    "wlog (db_wal d) = on_disk []" "mlog (db_manifest d) = on_disk bs" "ran (disk d) \<subseteq> range on_disk" "finite (dom (disk d))"
proof -
  obtain f g bf bg where fg: "db_ok (ex_two f g)" "db_ok (ex_two_disk f g bf bg)" "persisted (ex_two_disk f g bf bg)" "fm_entries f = [ex_old]" "fm_entries g = [ex_new False]"
      "fm_smallest f = [1]" "fm_smallest g = [1]" by (rule ex_two_stored)
  let ?d = "ex_two_disk f g bf bg"
  let ?job = "full_job (current_version ?d)" and ?pick = "first_top merge_source_ops" and ?lim = "2 * 1024 * 1024 :: nat"
  have ex: "force_compact ?d" "live_snapshots ?d = []" "next_seq ?d = 7" "target_file_size (opts ?d) = ?lim" "current_version ?d = current_version (ex_two f g)" "next_sst_number ?d = 9"
    "disk ?d = [7 \<mapsto> on_disk bf, 8 \<mapsto> on_disk bg]"
    by (simp_all add: ex_two_disk_def ex_two_def ex_db_def default_options_def)
  have old: "oldest_live_snapshot (live_snapshots ?d) = UINT64_MAX" by (simp add: ex(2) oldest_live_snapshot_def)
  have "is_bottommost ?job" by (simp add: full_job_def)
  then have pieces: "job_pieces ?lim ?job UINT64_MAX = [[ex_new False]]"
    using ex_two_versions [OF fg(4,5)] unfolding ex(5) by (simp add: job_pieces_def ex_new_def del: keep_list.simps)
  have fit: "pieces_fit [[ex_new False]]" by (simp add: pieces_fit_def one_fit [of _ 1] ex_new_def)
  have nd: "\<not> compact_done (current_version ?d)" unfolding ex(5) by (rule ex_two_files(3))
  note br = begin_forced [OF ex(1) nd, unfolded old]
  have h: "\<forall>n. table_healthy ex_tio" "\<forall>n. opens ex_tio \<and> tio_sync ex_tio" using ex_tio_healthy by (simp_all add: ex_tio_def)
  obtain st d2 where r: "merge_inputs ?pick (\<lambda>_. healthy) (\<lambda>_. ex_tio) (\<lambda>i. 9 + int i) ?lim ?job UINT64_MAX (disk ?d) = Some (Inr st)"
      "d2 = ?d\<lparr>compaction_pending := False, compaction_running := True, disk := ms_disk st, next_sst_number := 9 + int (ms_started st)\<rparr>"
      "db_ok d2" "fresh_numbers d2 (outputs st)"
    by (rule full_round_parts [OF fg(2) ex(1) nd first_top_ok h(1), of "[]" True, unfolded old ex(4,6) pieces]) (use fit in auto)
  have shape: "job_shape (current_version ?d) ?job" by (rule full_shape [OF _ nd]) (use fg(2) in \<open>simp add: db_ok_def\<close>)
  note mo = merge_outputs [OF first_top_ok job_inputs_ok [OF fg(2) shape] r(1) _ , unfolded pieces, OF _ fit]
  have op: "\<forall>n. opens ex_tio" using h(2) by simp
  obtain t where t: "outputs st = [t]" "fm_entries t = [ex_new False]" using mo(1) op by auto
  have t2: "fm_number t = 9" "fm_smallest t = [1]" "fm_largest t = [1]" using mo(2,6) op t by (auto simp: ex_new_def)
  have inp: "job_inputs ?job = [f, g]" unfolding ex(5) by (simp add: full_job_def ex_two_files)
  have inj: "inj (\<lambda>i. 9 + int i)" by (simp add: inj_on_def)
  have "\<forall>fm \<in> set (job_inputs ?job). file_sound 7 fm" using fg(3) by (simp add: persisted_def ver_sound_def full_job_def ex(3))
  note mp = merge_outputs_persisted [OF first_top_ok job_inputs_ok [OF fg(2) shape] r(1) h(2) inj _ _ this, unfolded pieces, OF _ fit]
  have rng: "\<forall>fm \<in> set (outputs st). fm_number fm \<in> number_range" using t t2 by (simp add: number_range_def)
  have lvl: "fm_level t = 1" "tables_persisted (ms_disk st) [t]" using mp rng t(1) by (simp_all add: full_job_def)
  have "\<forall>n \<in> fm_number ` set (outputs st). n \<in> number_range \<and> n \<notin> fm_number ` set (ver_files (current_version ?d))"
    using r(4) rng by (auto simp: fresh_numbers_def r(2))
  note p = merge_persisted [OF fg(2,3) shape first_top_ok r(1) this]
  have "persisted d2" using p(1) by (simp add: r(2) persisted_def)
  obtain bt where bt: "ms_disk st 9 = Some (on_disk bt)" using lvl(2) t2(1) by (auto simp: tables_persisted_def)
  have disk: "ms_disk st = [7 \<mapsto> on_disk bf, 8 \<mapsto> on_disk bg, 9 \<mapsto> on_disk bt]" using p(2) bt by (auto simp: fun_eq_iff ex(7) t(1) t2(1))
  have "version_to_manifest (replace_files ?job [t] (current_version ?d)) = [meta_entry t]"
    unfolding version_to_manifest_files replace_files_def inp by (simp add: ver_files_def upt_levels ex(5) full_job_def) (simp add: ex_two_def)
  moreover have "wlog (db_wal d2) = on_disk []" "\<exists>bs. mlog (db_manifest d2) = on_disk bs"
    by (auto simp: r(2) ex_two_disk_def ex_two_def ex_db_def wal_open_def on_disk_def)
  moreover have "ran (disk d2) \<subseteq> range on_disk" "finite (dom (disk d2))" using disk by (auto simp: r(2) ran_def split: if_splits)
  moreover have "2 \<le> length (ver_files (current_version ?d))" "\<forall>fm \<in> set (files (current_version ?d) 0). fm_smallest fm \<noteq> []"
    using fg(6,7) unfolding ex(5) by (simp_all add: ex_two_files) (simp add: ex_two_def)
  moreover have "pieces_fit (job_pieces ?lim ?job UINT64_MAX)" using fit pieces by simp
  ultimately show thesis using that [OF fg(2) br _ ex(3) _ _ r(1,3) \<open>persisted d2\<close> _ r(4) _ t(1) t2(1) _ t2(2,3) lvl(1)]
    by (auto simp: r(2))
qed

section \<open>Properties\<close>

text \<open>
  C2. Recovery. \<open>DB::open\<close> on the directory that a crash leaves of a database whose state is on disk returns a database,
  which satisfies the invariant, is itself on disk again, and reads as before at every key and every snapshot. How the kernel splits
  the reads, the order of the directory, and the coin flips of the rebuilt memtable do not matter.
\<close>

theorem open_recovers:
  assumes "db_ok d" "persisted d" "crash_dir d dir"
    and "no_fault (oio_wal io)" "no_fault (oio_manifest io)" "oio_open io = (\<lambda>_. (None, None, None))"
  shows "\<exists>d'. db_open os io coins dir = Some (Inr d') \<and> db_ok d' \<and> persisted d' \<and>
    (\<forall>k s. map_option fst (get_impl no_error k s d') = map_option fst (get_impl no_error k s d))"
proof -
  obtain d' where d': "db_open os io coins dir = Some (Inr d')" "db_ok d'" "persisted d'" "db_runs d' = db_runs d"
    by (rule open_persisted [OF assms])
  then have "db_versions d' = db_versions d" by (simp add: db_versions_def)
  with d' get_same_visible [OF assms(1) d'(2)] show ?thesis by auto
qed

theorem open_recovers_witness:
  "\<exists>d'. db_open default_options ex_oio (\<lambda>_. [True]) (ex_dir []) = Some (Inr d') \<and>
     map_option fst (get_impl no_error [1] 6 d') = map_option fst (get_impl no_error [1] 6 ex_stored)"
proof -
  have dir: "crash_dir ex_stored (ex_dir [])" by (rule ex_crash_dir) (simp_all add: ex_stored_fields)
  from open_recovers [OF ex_stored_ok ex_stored_persisted dir ex_oio_healthy, of default_options "\<lambda>_. [True]"] show ?thesis by blast
qed

text \<open>
  C1. Durability end to end. A \<open>put\<close> or \<open>del\<close> that returned under \<open>EveryWrite\<close>, with syncs that took effect, survives a crash: reopening
  the directory succeeds, the key reads as written, and all other reads are as before the write. This holds
  whether or not the write flushed the memtable.
\<close>

theorem acknowledged_write_recovered:
  assumes "db_ok d" "persisted d" "wmode (db_wal d) = EveryWrite" "unat (next_seq d) + 1 < 2 ^ 64"
    and "rec_ok \<lparr>rtype = ty, rseq = next_seq d, rkey = k, rval = v\<rparr>"
    and "write_alone rs True cs fio ty k v d = (Inr (), d')"
    and "\<And>d1. commit_batch rs True [(cs, write_req ty k v (next_seq d))] (d\<lparr>next_seq := next_seq d + 1\<rparr>) = (Inr (), d1) \<Longrightarrow>
       flush_threshold_bytes (opts d1) \<le> approx_bytes (mtable d1) \<Longrightarrow> flush_durable fio d1"
    and "crash_dir d' dir" "no_fault (oio_wal io)" "no_fault (oio_manifest io)" "oio_open io = (\<lambda>_. (None, None, None))"
  shows "\<exists>d''. db_open os io coins dir = Some (Inr d'') \<and> db_ok d'' \<and> persisted d'' \<and>
    (\<forall>k' s. map_option fst (get_impl no_error k' s d'') =
       (if k' = k \<and> next_seq d \<le> s then Some (Inr (if ty = Put then Some v else None)) else map_option fst (get_impl no_error k' s d)))"
proof -
  let ?r = "write_req ty k v (next_seq d)" and ?d1 = "d\<lparr>next_seq := next_seq d + 1\<rparr>"
  from assms(1,6,4) show ?thesis
  proof (cases rule: write_alone_parts)
    case (1 r2 d2)
    have r2: "r2 = Inr ()" and fl: "maybe_flush fio d2 = (Inr (), d')" using 1(3) by (auto split: sum.splits)
    have "next_seq d \<le> next_seq d + 1" using unat_seq [of "next_seq d" 1] assms(4) by (simp add: word_le_nat_alt)
    then have "persisted ?d1" using assms(2) by (auto simp: persisted_def intro: ver_sound_mono)
    then have "persisted d2" by (rule commit_persisted [OF _ 1(1) [unfolded r2]]) (use assms(3,5) 1(5) [OF r2] in \<open>simp_all add: wal_record_def\<close>)
    note p = maybe_flush_persisted [OF 1(2) this fl assms(7) [OF 1(1) [unfolded r2]]]
    obtain d'' where d'': "db_open os io coins dir = Some (Inr d'')" "db_ok d''" "persisted d''" "db_runs d'' = db_runs d'"
      by (rule open_persisted [OF p(2,1) assms(8-11)])
    have "db_versions d'' = insert (req_entry ?r) (db_versions d)" "eseq (req_entry ?r) = next_seq d"
      using d''(4) p(3) 1(4) r2 by (simp_all add: db_versions_def req_entry_def)
    from reads_after_write [OF assms(1) d''(2) this] d''(1-3) show ?thesis by (auto simp: req_entry_def)
  qed
qed

theorem acknowledged_write_recovered_witness:
  "\<exists>d' d''. write_alone [] True [True] ex_io Put [1] [9] ex_stored = (Inr (), d') \<and>
     db_open default_options ex_oio (\<lambda>_. [True]) (ex_dir (wal_frame ex_record)) = Some (Inr d'') \<and>
     map_option fst (get_impl no_error [1] 9 d'') = Some (Inr (Some [9]))"
proof -
  obtain d1 where d1: "commit_batch [] True [([True], write_req Put [1] [9] 7)] (ex_stored\<lparr>next_seq := 8\<rparr>) = (Inr (), d1)"
      "\<not> flush_threshold_bytes (opts d1) \<le> approx_bytes (mtable d1)"
      "wlog (db_wal d1) = on_disk (wal_frame ex_record)" "db_manifest d1 = db_manifest ex_stored" "disk d1 = disk ex_stored" by (rule ex_written)
  then have w: "write_alone [] True [True] ex_io Put [1] [9] ex_stored = (Inr (), d1)" by (simp add: write_alone_def ex_stored_fields maybe_flush_def)
  have rec: "rec_ok \<lparr>rtype = Put, rseq = next_seq ex_stored, rkey = [1], rval = [9]\<rparr>" using ex_record_ok by (simp add: ex_record_def ex_stored_fields)
  have dir: "crash_dir d1 (ex_dir (wal_frame ex_record))" by (rule ex_crash_dir) (simp_all add: d1)
  have "\<exists>d''. db_open default_options ex_oio (\<lambda>_. [True]) (ex_dir (wal_frame ex_record)) = Some (Inr d'') \<and> db_ok d'' \<and> persisted d'' \<and>
      (\<forall>k s. map_option fst (get_impl no_error k s d'') = (if k = [1] \<and> next_seq ex_stored \<le> s then Some (Inr (if Put = Put then Some [9] else None))
         else map_option fst (get_impl no_error k s ex_stored)))"
    by (rule acknowledged_write_recovered [OF ex_stored_ok ex_stored_persisted ex_stored_fields(5) _ rec w _ dir ex_oio_healthy])
      (use d1(1,2) in \<open>simp_all add: ex_stored_fields\<close>)
  then obtain d'' where d'': "db_open default_options ex_oio (\<lambda>_. [True]) (ex_dir (wal_frame ex_record)) = Some (Inr d'')"
      "\<And>k s. map_option fst (get_impl no_error k s d'') = (if k = [1] \<and> next_seq ex_stored \<le> s then Some (Inr (if Put = Put then Some [9] else None))
         else map_option fst (get_impl no_error k s ex_stored))" by blast
  have "map_option fst (get_impl no_error [1] 9 d'') = Some (Inr (Some [9]))" unfolding d''(2) by (simp add: ex_stored_fields)
  with w d''(1) show ?thesis by blast
qed

text \<open>
  C3. A crash while a batch is written. Whatever part of the batch has reached the log, whether the write failed, and whether the sync
  took effect: reopening succeeds, and reads are those of the database with the first \<open>m\<close> writes of the batch
  and no others.
\<close>

theorem batch_crash_prefix:
  assumes "db_ok d" "persisted d" "assign_seqs reqs (next_seq d) = (reqs', n)" "unat (next_seq d) + length reqs < 2 ^ 64"
    and "length cs = length reqs" "\<forall>r \<in> set reqs'. rec_ok (wal_record r)"
    and "commit_batch rs ok (zip cs reqs') (d\<lparr>next_seq := n\<rparr>) = (r, d1)" "crash_dir d1 dir"
    and "no_fault (oio_wal io)" "no_fault (oio_manifest io)" "oio_open io = (\<lambda>_. (None, None, None))"
  shows "\<exists>m \<le> length reqs. \<exists>dm d'. commit_batch [] True (take m (zip cs reqs')) (d\<lparr>next_seq := n\<rparr>) = (Inr (), dm) \<and>
    db_open os io coins dir = Some (Inr d') \<and> db_ok d' \<and> persisted d' \<and>
    (\<forall>k s. map_option fst (get_impl no_error k s d') = map_option fst (get_impl no_error k s dm))"
proof -
  obtain m dm where m: "m \<le> length reqs" "commit_batch [] True (take m (zip cs reqs')) (d\<lparr>next_seq := n\<rparr>) = (Inr (), dm)" "db_ok dm" "recoverable dm dir"
      "map_of dir ''MANIFEST'' = Some (contents (mlog (db_manifest d)))" "current_version dm = current_version d"
    by (rule batch_crash [OF assms(1-8)])
  obtain d' where d': "db_open os io coins dir = Some (Inr d')" "db_ok d'" "db_runs d' = db_runs dm"
      "manifest_persisted \<lparr>mlog = on_disk (contents (mlog (db_manifest d)))\<rparr> (version_to_manifest (current_version d)) \<Longrightarrow> persisted d'"
    by (rule open_recoverable [OF m(3,4) assms(9-11)]) (use m(5,6) in auto)
  have "on_disk (contents (mlog (db_manifest d))) = mlog (db_manifest d)" using assms(2) by (auto simp: persisted_def manifest_persisted_def on_disk_def)
  then have "manifest_persisted \<lparr>mlog = on_disk (contents (mlog (db_manifest d)))\<rparr> (version_to_manifest (current_version d))"
    using assms(2) by (simp add: persisted_def manifest_persisted_def)
  with d' m(1,2) get_same_visible [OF m(3) d'(2)] show ?thesis by (auto simp: db_versions_def)
qed

theorem batch_crash_prefix_witness:
  "\<exists>m \<le> 1. \<exists>dm d'. commit_batch [] True (take m [([True], write_req Put [1] [9] 7)]) (ex_stored\<lparr>next_seq := 8\<rparr>) = (Inr (), dm) \<and>
     db_open default_options ex_oio (\<lambda>_. [True]) (ex_dir (take 3 (wal_frame ex_record))) = Some (Inr d') \<and>
     (\<forall>k s. map_option fst (get_impl no_error k s d') = map_option fst (get_impl no_error k s dm))"
proof -
  let ?reqs = "[write_req Put [1] [9] 0]"
  have seqs: "assign_seqs ?reqs (next_seq ex_stored) = ([write_req Put [1] [9] 7], 8)" by (simp add: ex_stored_fields)
  define d1 where "d1 = ex_stored\<lparr>next_seq := 8, db_wal := (db_wal ex_stored)\<lparr>wlog := \<lparr>contents = take 5 (wal_frame ex_record), durable = 0\<rparr>\<rparr>\<rparr>"
  have c: "commit_batch [Xfer 5, EFail] True (zip [[True]] [write_req Put [1] [9] 7]) (ex_stored\<lparr>next_seq := 8\<rparr>) = (Inl (WalError WriteFailed), d1)"
    using wal_frame_length [of ex_record]
    by (simp add: commit_batch_def append_batch_def wal_write_def file_write_def write_fully_torn wal_record_def ex_record_def
        d1_def ex_stored_def ex_db_def wal_open_def)
  have dir: "crash_dir d1 (ex_dir (take 3 (wal_frame ex_record)))"
    by (rule ex_crash_dir) (auto simp: d1_def crash_image_def wal_frame_length intro!: exI [of _ 3])
  have "\<exists>m \<le> length ?reqs. \<exists>dm d'. commit_batch [] True (take m (zip [[True]] [write_req Put [1] [9] 7])) (ex_stored\<lparr>next_seq := 8\<rparr>) = (Inr (), dm) \<and>
      db_open default_options ex_oio (\<lambda>_. [True]) (ex_dir (take 3 (wal_frame ex_record))) = Some (Inr d') \<and> db_ok d' \<and> persisted d' \<and>
      (\<forall>k s. map_option fst (get_impl no_error k s d') = map_option fst (get_impl no_error k s dm))"
    by (rule batch_crash_prefix [OF ex_stored_ok ex_stored_persisted seqs _ _ _ c dir ex_oio_healthy])
      (use ex_record_ok in \<open>simp_all add: ex_stored_fields wal_record_def ex_record_def\<close>)
  then show ?thesis by fastforce
qed

text \<open>
  C4. A crash during a flush changes no read: at whatever point it happens, before or after the rename of the table, in the
  middle of the MANIFEST record, before or after its sync, or after the log was truncated, reopening recovers a
  database that reads as before.
\<close>

theorem flush_crash_safe:
  assumes "db_ok d" "persisted d" "flush_durable fio d" "ds \<in> set (flush_stages fio d)" "crash_dir ds dir"
    and "no_fault (oio_wal io)" "no_fault (oio_manifest io)" "oio_open io = (\<lambda>_. (None, None, None))"
  shows "\<exists>d'. db_open os io coins dir = Some (Inr d') \<and> db_ok d' \<and>
    (\<forall>k s. map_option fst (get_impl no_error k s d') = map_option fst (get_impl no_error k s d))"
proof -
  obtain dv where dv: "db_ok dv" "recoverable dv dir" "db_versions dv = db_versions d" by (rule flush_crash [OF assms(1-5)])
  obtain d' where d': "db_open os io coins dir = Some (Inr d')" "db_ok d'" "db_runs d' = db_runs dv"
    by (rule open_recoverable [OF dv(1,2) assms(6-8)]) blast
  then have "db_versions d' = db_versions d" using dv(3) by (simp add: db_versions_def)
  with d'(1,2) get_same_visible [OF assms(1) d'(2)] show ?thesis by auto
qed

theorem flush_crash_safe_witness:
  "\<exists>d ds d'. ds \<in> set (flush_stages ex_io d) \<and> disk ds \<noteq> disk d \<and> db_open default_options ex_oio (\<lambda>_. [True]) (dir_of ds) = Some (Inr d') \<and>
     map_option fst (get_impl no_error [1] 9 d') = map_option fst (get_impl no_error [1] 9 d)"
proof -
  obtain d where d: "db_ok d" "persisted d" "mt_versions (mtable d) = [\<lparr>ekey = [1], evalue = [9], etomb = False, eseq = 7\<rparr>]"
      "current_version d = current_version ex_db" "next_sst_number d = 8" "disk d = disk ex_stored" "wlog (db_wal d) = on_disk (wal_frame ex_record)" "db_manifest d = db_manifest ex_stored"
    by (rule ex_written)
  have "snapshot_ok (flush_snapshot d)"
    unfolding flush_snapshot_def d(3-5) by (rule snapshot_ok_small) (simp_all add: ex_db_def meta_entry_def ex_fm_def entry_ok_def upt_levels)
  then have fd: "flush_durable ex_io d"
    using ex_io_healthy(2) ex_one_fit d(3) by (simp add: flush_durable_def d(5) number_range_def) (simp add: ex_io_def)
  have mt: "mt_ok (mtable d)" "mem_sized (mtable d)" using d(1) by (auto simp: db_ok_def)
  have ne: "mt_versions (mtable d) \<noteq> []" "approx_bytes (mtable d) \<noteq> 0" using d(3) mem_sized_empty [OF mt(2)] by auto
  have io: "EFail \<notin> set (tio_writes (fio_table ex_io))" "tio_rename (fio_table ex_io)" by (simp_all add: ex_io_def)
  obtain w w' t dk where it: "add_all (mt_versions (mtable d)) (writer_new (tio_writes (fio_table ex_io))) = Inr w"
      "install_table (fio_table ex_io) (next_sst_number d) w (disk d) = (Inr (w', t), dk)"
    using install_table_succeeds [OF io ex_io_healthy(2) ne(1), of "next_sst_number d" "disk d"] ex_one_fit d(3) by auto
  note f = flushed_file [OF d(1) fd ne(1) it refl]
  obtain bs where dk: "dk = [7 \<mapsto> on_disk (sst_image ex_entries), 8 \<mapsto> on_disk bs]"
    using f(2,4) by (auto simp: tables_persisted_def d(5,6) ex_stored_def)
  let ?ds = "d\<lparr>disk := dk\<rparr>"
  have ds: "?ds \<in> set (flush_stages ex_io d)" using ne(2) it by (simp add: flush_stages_def raw_entries_versions [OF mt(1)] Let_def)
  have "crash_dir ?ds (dir_of ?ds)"
    by (rule dir_of_crash) (auto simp: dk number_range_def d(7,8) ex_stored_def on_disk_def ran_def split: if_splits)
  moreover have "dk 8 \<noteq> disk d 8" by (simp add: dk d(6) ex_stored_def)
  then have "disk ?ds \<noteq> disk d" by auto
  ultimately show ?thesis using flush_crash_safe [OF d(1,2) fd ds _ ex_oio_healthy, of "dir_of ?ds" default_options "\<lambda>_. [True]"] ds by blast
qed

text \<open>
  C5. A crash during the commit of a compaction: before it, in the middle of the MANIFEST record, before or after its sync,
  or with any of the input files already unlinked, reopening recovers a database that reads as before at every sequence
  number from the last one given out when the job was chosen. A commit that returned leaves the database on disk.
\<close>

theorem compaction_crash_safe:
  assumes "db_ok d0" "begin_round d0 = (Some (job, old), d1)" "force_compact d0 \<Longrightarrow> 2 \<le> length (ver_files (current_version d0))"
    and "\<forall>fm \<in> set (files (current_version d0) 0). fm_smallest fm \<noteq> []"
    and "top_ok merge_source_ops pick" "\<forall>n. opens (ios n) \<and> tio_sync (ios n)" "inj num" "pieces_fit (job_pieces limit job old)"
    and "merge_inputs pick (\<lambda>_. healthy) ios num limit job old dk = Some (Inr st)"
    and "db_ok d" "persisted d" "grown (current_version d0) (current_version d)" "fresh_numbers d (outputs st)"
    and "\<forall>fm \<in> set (outputs st). fm_number fm \<in> number_range \<and> disk d (fm_number fm) = ms_disk st (fm_number fm)"
    and "snapshot_ok (version_to_manifest (replace_files job (outputs st) (current_version d)))"
    and "commit_stage rs True job st d ds" "crash_dir ds dir"
    and "no_fault (oio_wal io)" "no_fault (oio_manifest io)" "oio_open io = (\<lambda>_. (None, None, None))"
  shows "(\<exists>d'. db_open os io coins dir = Some (Inr d') \<and> db_ok d' \<and>
      (\<forall>k s. next_seq d0 - 1 \<le> s \<longrightarrow> map_option fst (get_impl no_error k s d') = map_option fst (get_impl no_error k s d))) \<and>
    (\<forall>d'. commit_round rs True job st d = Inr d' \<longrightarrow> persisted d')"
proof -
  note job = begin_round_job [OF assms(2)]
  have ver: "version_ok (current_version d0)" "version_ok (current_version d)" using assms(1,10) by (auto simp: db_ok_def)
  have shape0: "job_shape (current_version d0) job" unfolding job(1) by (rule pick_shape [OF ver(1)]) (use job(1,2) assms(3,4) in auto)
  from shape0 assms(12) ver(2) have shape: "job_shape (current_version d) job" by (rule job_shape_grown)
  have outs: "\<forall>fm \<in> set (outputs st). fm_number fm \<in> number_range" "\<forall>fm \<in> set (outputs st). disk d (fm_number fm) = ms_disk st (fm_number fm)"
    using assms(14) by auto
  obtain dv where dv: "db_ok dv" "recoverable dv dir" "\<And>k s. old \<le> s \<or> (\<forall>x \<in> set (job_versions job). eseq x \<le> s) \<Longrightarrow>
      map_option fst (get_impl no_error k s dv) = map_option fst (get_impl no_error k s d)"
    by (rule commit_crash [OF assms(10,11) shape assms(5,6,8,9,7) outs(1) assms(13) outs(2) assms(15-17)]) blast
  obtain d' where d': "db_open os io coins dir = Some (Inr d')" "db_ok d'" "db_runs d' = db_runs dv"
    by (rule open_recoverable [OF dv(1,2) assms(18-20)]) blast
  have "map_option fst (get_impl no_error k s d') = map_option fst (get_impl no_error k s d)" if "next_seq d0 - 1 \<le> s" for k s
    using get_same_visible [OF dv(1) d'(2), of k s] d'(3) dv(3) [of s k] snapshot_bound [OF assms(1) shape0 job(3), of s] that by (simp add: db_versions_def)
  with d'(1,2) commit_round_persisted [OF assms(10,11) shape assms(5,6,8,9,7) outs(1) assms(13) outs(2) assms(15)] show ?thesis by blast
qed

theorem compaction_crash_safe_witness:
  "\<exists>d ds d'. persisted d \<and> db_manifest ds \<noteq> db_manifest d \<and> db_open default_options ex_oio (\<lambda>_. [True]) (dir_of ds) = Some (Inr d') \<and>
     map_option fst (get_impl no_error [1] 6 d') = map_option fst (get_impl no_error [1] 6 d)"
proof -
  obtain d0 job d1 st d t bs where ex: "db_ok d0" "begin_round d0 = (Some (job, UINT64_MAX), d1)" "2 \<le> length (ver_files (current_version d0))" "next_seq d0 = 7"
      "\<forall>fm \<in> set (files (current_version d0) 0). fm_smallest fm \<noteq> []" "pieces_fit (job_pieces (2 * 1024 * 1024) job UINT64_MAX)"
      "merge_inputs (first_top merge_source_ops) (\<lambda>_. healthy) (\<lambda>_. ex_tio) (\<lambda>i. 9 + int i) (2 * 1024 * 1024) job UINT64_MAX (disk d0) = Some (Inr st)"
      "db_ok d" "persisted d" "current_version d = current_version d0" "fresh_numbers d (outputs st)" "disk d = ms_disk st" "outputs st = [t]" "fm_number t = 9"
      "version_to_manifest (replace_files job [t] (current_version d)) = [meta_entry t]" "fm_smallest t = [1]" "fm_largest t = [1]" "fm_level t = 1"
      "wlog (db_wal d) = on_disk []" "mlog (db_manifest d) = on_disk bs" "ran (disk d) \<subseteq> range on_disk" "finite (dom (disk d))"
    by (rule ex_merged)
  define m where "m = \<lparr>mlog = \<lparr>contents = bs @ snapshot_frame [meta_entry t], durable = length bs\<rparr>\<rparr>"
  have snap: "snapshot_ok (version_to_manifest (replace_files job (outputs st) (current_version d)))"
    unfolding ex(13,15) by (rule snapshot_ok_small) (simp_all add: entry_ok_def meta_entry_def ex(14,16-18))
  have ap: "append_snapshot [] False [meta_entry t] (db_manifest d) = (m, None)"
    by (simp add: append_snapshot_def m_def file_write_def write_fully_Nil durable_sync_def ex(20) on_disk_def)
  let ?ds = "d\<lparr>db_manifest := m\<rparr>"
  have st: "commit_stage [] True job st d ?ds"
    by (rule commit_stage.appended [where ok' = False and e = None]) (simp_all add: ex(13,15) ap del: append_snapshot_def)
  have dir: "crash_dir ?ds (dir_of ?ds)"
    by (rule dir_of_crash) (use ex(9,19,21,22) in \<open>auto simp: m_def persisted_def on_disk_def\<close>)
  have "contents (mlog m) \<noteq> contents (mlog (db_manifest d))" using snapshot_frame_length [of "[meta_entry t]"] by (auto simp: m_def ex(20) on_disk_def)
  then have "db_manifest ?ds \<noteq> db_manifest d" by auto
  moreover have "inj (\<lambda>i. 9 + int i)" "opens ex_tio" "tio_sync ex_tio" using ex_tio_healthy(2) by (simp_all add: inj_on_def) (simp add: ex_tio_def)
  ultimately obtain d' where "db_open default_options ex_oio (\<lambda>_. [True]) (dir_of ?ds) = Some (Inr d')"
      "map_option fst (get_impl no_error [1] 6 d') = map_option fst (get_impl no_error [1] 6 d)"
    using compaction_crash_safe [OF ex(1,2) _ ex(5) first_top_ok _ _ ex(6-9) _ ex(11) _ snap st dir ex_oio_healthy, of default_options "\<lambda>_. [True]"]
      ex(3,4,8-14) by (auto simp: number_range_def grown_def)
  with ex(9) \<open>db_manifest ?ds \<noteq> db_manifest d\<close> show ?thesis by blast
qed



end
