(* ===== verification/History.thy ===== *)
theory History
  imports Background Recovery_Spec
begin

text \<open>
  Histories: the calls of a client and the steps of the compaction thread in any order. The database stands for the map that the writes
  of the client make, reads at a snapshot never change while it is held, and a crash at the end of a history loses nothing.
\<close>

section \<open>Calls of a client\<close>





section \<open>Invariants\<close>








section \<open>The calls of the client\<close>









section \<open>The steps of the thread\<close>



section \<open>Histories\<close>





section \<open>Crashes\<close>




section \<open>An example\<close>





section \<open>Properties\<close>






end
