(* ===== verification/Cli.thy ===== *)
theory Cli
  imports Session Recovery_Spec
begin

text \<open>
  The interactive shell, \<open>cmd/keystone/main.cpp\<close>: it opens a database and runs one command per line of its input. The answers
  of the kernel to the calls made for a line are a parameter, \<open>cli_io\<close>. The shell is shown to behave like one over a
  map in memory that is never lost.
\<close>

section \<open>Lines and words\<close>

definition str :: "string \<Rightarrow> bytes" where
  "str s = map of_char s"

definition endl :: "string \<Rightarrow> bytes" where
  "endl s = str s @ [10]"

definition space :: "byte \<Rightarrow> bool" where
  "space b \<longleftrightarrow> b = 32 \<or> 9 \<le> b \<and> b \<le> 13"

text \<open>\<open>std::getline\<close>: up to the next newline, which is dropped, or to the end; nothing at the end of the input.\<close>

definition getline :: "bytes \<Rightarrow> (bytes \<times> bytes) option" where
  "getline s = (if s = [] then None else Some (takeWhile (\<lambda>b. b \<noteq> 10) s, tl (dropWhile (\<lambda>b. b \<noteq> 10) s)))"

text \<open>\<open>iss >> word\<close>: skip white space, then up to the next; it fails at the end of the line.\<close>

definition read_word :: "bytes \<Rightarrow> (bytes \<times> bytes) option" where
  "read_word s =
     (let s = dropWhile space s in
      if s = [] then None else Some (takeWhile (\<lambda>b. \<not> space b) s, dropWhile (\<lambda>b. \<not> space b) s))"

definition read_words2 :: "bytes \<Rightarrow> (bytes \<times> bytes) option" where
  "read_words2 s = Option.bind (read_word s) (\<lambda>(a, s). map_option (\<lambda>(b, _). (a, b)) (read_word s))"

section \<open>Commands\<close>

record cli_io =
  cio_writes :: "sys_ret list"
  cio_sync :: bool
  cio_coins :: "bool list"
  cio_flush :: flush_io
  cio_get :: "int \<Rightarrow> sys_ret option"
  cio_scan :: "int \<Rightarrow> preads"

text \<open>A line prints something and goes on, ends the loop, or an exception leaves \<open>main\<close> after some output.\<close>

datatype cli_step = Next bytes db | Break | Throws bytes

definition cli_put :: "cli_io \<Rightarrow> bytes \<Rightarrow> db \<Rightarrow> cli_step" where
  "cli_put io s d =
     (case read_words2 s of
        None \<Rightarrow> Next (endl ''ERR: put <key> <value>'') d
      | Some (k, v) \<Rightarrow>
          (case db_put (cio_writes io) (cio_sync io) (cio_coins io) (cio_flush io) k v d of
             (Inl _, _) \<Rightarrow> Throws []
           | (Inr _, d') \<Rightarrow> Next (endl ''OK'') d'))"

definition cli_get :: "cli_io \<Rightarrow> bytes \<Rightarrow> db \<Rightarrow> cli_step option" where
  "cli_get io s d =
     (case read_word s of
        None \<Rightarrow> Some (Next (endl ''ERR: get <key>'') d)
      | Some (k, _) \<Rightarrow>
          (case db_get (cio_get io) k d of
             None \<Rightarrow> None
           | Some (Inl _, _) \<Rightarrow> Some (Throws [])
           | Some (Inr (Some v), d') \<Rightarrow> Some (Next (v @ [10]) d')
           | Some (Inr None, d') \<Rightarrow> Some (Next (endl ''(nil)'') d')))"

definition cli_del :: "cli_io \<Rightarrow> bytes \<Rightarrow> db \<Rightarrow> cli_step" where
  "cli_del io s d =
     (case read_word s of
        None \<Rightarrow> Next (endl ''ERR: del <key>'') d
      | Some (k, _) \<Rightarrow>
          (case db_del (cio_writes io) (cio_sync io) (cio_coins io) (cio_flush io) k d of
             (Inl _, _) \<Rightarrow> Throws []
           | (Inr _, d') \<Rightarrow> Next (endl ''OK'') d'))"

definition rows :: "(key \<times> bytes) list \<Rightarrow> bytes" where
  "rows out = concat (map (\<lambda>(k, v). k @ str '' = '' @ v @ [10]) out)"

definition cli_scan :: "(merge_source list \<Rightarrow> nat) \<Rightarrow> cli_io \<Rightarrow> bytes \<Rightarrow> db \<Rightarrow> cli_step option" where
  "cli_scan pick io s d =
     (case read_words2 s of
        None \<Rightarrow> Some (Next (endl ''ERR: scan <start> <end>'') d)
      | Some (k1, k2) \<Rightarrow>
          (case db_scan pick (cio_scan io) k1 k2 d of
             None \<Rightarrow> None
           | Some (out, Some _) \<Rightarrow> Some (Throws (rows out))
           | Some (out, None) \<Rightarrow> Some (Next (rows out @ endl (''('' @ decimal (length out) @ '' results)'')) d)))"

definition cli_flush :: "cli_io \<Rightarrow> db \<Rightarrow> cli_step" where
  "cli_flush io d = (case flush (cio_flush io) d of (Inl _, _) \<Rightarrow> Throws [] | (Inr _, d') \<Rightarrow> Next (endl ''OK'') d')"

text \<open>The dash of the source is the three bytes of its UTF-8 encoding.\<close>

definition help_text :: bytes where
  "help_text = concat (map (\<lambda>(a, b). str a @ [226, 128, 148] @ endl b)
     [(''put <key> <value>  '', '' store a key-value pair''),
      (''get <key>          '', '' retrieve a value''),
      (''del <key>          '', '' delete a key''),
      (''scan <start> <end> '', '' range scan [start, end]''),
      (''flush              '', '' flush memtable to SSTable''),
      (''exit / quit        '', '' shut down'')])"

definition quoted :: "bytes \<Rightarrow> bytes" where
  "quoted s = [39] @ s @ [39]"

definition cli_line :: "(merge_source list \<Rightarrow> nat) \<Rightarrow> cli_io \<Rightarrow> bytes \<Rightarrow> db \<Rightarrow> cli_step option" where
  "cli_line pick io line d =
     (case read_word line of
        None \<Rightarrow> Some (Next [] d)
      | Some (cmd, s) \<Rightarrow>
          if cmd = str ''put'' then Some (cli_put io s d)
          else if cmd = str ''get'' then cli_get io s d
          else if cmd = str ''del'' then Some (cli_del io s d)
          else if cmd = str ''scan'' then cli_scan pick io s d
          else if cmd = str ''flush'' then Some (cli_flush io d)
          else if cmd = str ''help'' then Some (Next help_text d)
          else if cmd = str ''exit'' \<or> cmd = str ''quit'' then Some Break
          else Some (Next (str ''ERR: unknown command '' @ quoted cmd @ str ''. Type '' @ quoted (str ''help'') @ endl ''.'') d))"

section \<open>The loop and main\<close>

datatype cli_end = Returned bytes db | Aborted bytes

fun cli_print :: "bytes \<Rightarrow> cli_end \<Rightarrow> cli_end" where
  "cli_print out (Returned out' d) = Returned (out @ out') d"
| "cli_print out (Aborted out') = Aborted (out @ out')"

lemma getline_shorter:
  assumes "getline s = Some (line, s')"
  shows "length s' < length s"
proof -
  have "s \<noteq> []" "length s' = length (dropWhile (\<lambda>b. b \<noteq> 10) s) - 1" using assms by (auto simp: getline_def split: if_splits)
  then show ?thesis using length_dropWhile_le [of "\<lambda>b. b \<noteq> 10" s] length_greater_0_conv [of s] by linarith
qed

function cli_loop :: "(merge_source list \<Rightarrow> nat) \<Rightarrow> (nat \<Rightarrow> cli_io) \<Rightarrow> nat \<Rightarrow> bytes \<Rightarrow> db \<Rightarrow> cli_end option" where
  "cli_loop pick ios i input d =
     (case getline input of
        None \<Rightarrow> Some (Returned [] d)
      | Some (line, input') \<Rightarrow>
          (case cli_line pick (ios i) line d of
             None \<Rightarrow> None
           | Some (Next out d') \<Rightarrow> map_option (cli_print out) (cli_loop pick ios (Suc i) input' d')
           | Some Break \<Rightarrow> Some (Returned [] d)
           | Some (Throws out) \<Rightarrow> Some (Aborted out)))"
  by pat_completeness auto

termination
  by (relation "measure (\<lambda>(_, _, _, input, _). length input)") (auto dest: getline_shorter)

declare cli_loop.simps [simp del]

text \<open>The exit status with what went to the two output streams, or the end by an exception; and the database at the end.\<close>

datatype exit = Exit int bytes bytes | Terminate bytes

definition cli_main :: "(merge_source list \<Rightarrow> nat) \<Rightarrow> open_io \<Rightarrow> (nat \<Rightarrow> bool list) \<Rightarrow> (nat \<Rightarrow> cli_io) \<Rightarrow> string list \<Rightarrow> (string \<Rightarrow> directory)
    \<Rightarrow> bytes \<Rightarrow> (exit \<times> db option) option" where
  "cli_main pick oio coins ios argv dirs input =
     (if length argv \<noteq> 2 then Some (Exit 1 [] (endl ''usage: keystone <dir>''), None)
      else case db_open default_options oio coins (dirs (argv ! 1)) of
        None \<Rightarrow> None
      | Some (Inl _) \<Rightarrow> Some (Terminate [], None)
      | Some (Inr d) \<Rightarrow>
          map_option (\<lambda>r. case r of Returned out d' \<Rightarrow> (Exit 0 out [], Some d') | Aborted out \<Rightarrow> (Terminate out, None))
            (cli_loop pick ios 0 input d))"

section \<open>The shell over a map\<close>

lemma read_word_shorter:
  assumes "read_word s = Some (w, s')"
  shows "length s' < length s"
proof -
  have s: "dropWhile space s \<noteq> []" "s' = dropWhile (\<lambda>b. \<not> space b) (dropWhile space s)" using assms by (auto simp: read_word_def Let_def split: if_splits)
  then obtain b u where bu: "dropWhile space s = b # u" by (cases "dropWhile space s") auto
  then have "\<not> space b" by (metis hd_dropWhile list.sel(1) s(1))
  then have "length s' \<le> length u" using s(2) bu length_dropWhile_le [of "\<lambda>b. \<not> space b" u] by simp
  then show ?thesis using length_dropWhile_le [of space s] bu by simp
qed

function words :: "bytes \<Rightarrow> bytes list" where
  "words s = (case read_word s of None \<Rightarrow> [] | Some (w, s') \<Rightarrow> w # words s')"
  by pat_completeness auto

termination
  by (relation "measure length") (auto dest: read_word_shorter)

declare words.simps [simp del]

text \<open>One line, given as its words: what is printed and the new map, or nothing at the end of the session.\<close>

fun spec_line :: "bytes list \<Rightarrow> (key \<rightharpoonup> bytes) \<Rightarrow> (bytes \<times> (key \<rightharpoonup> bytes)) option" where
  "spec_line [] m = Some ([], m)"
| "spec_line (cmd # args) m =
     (if cmd = str ''put'' then Some (case args of k # v # _ \<Rightarrow> (endl ''OK'', m(k \<mapsto> v)) | _ \<Rightarrow> (endl ''ERR: put <key> <value>'', m))
      else if cmd = str ''get'' then Some (case args of k # _ \<Rightarrow> (case m k of Some v \<Rightarrow> v @ [10] | None \<Rightarrow> endl ''(nil)'', m) | _ \<Rightarrow> (endl ''ERR: get <key>'', m))
      else if cmd = str ''del'' then Some (case args of k # _ \<Rightarrow> (endl ''OK'', m(k := None)) | _ \<Rightarrow> (endl ''ERR: del <key>'', m))
      else if cmd = str ''scan'' then Some (case args of
          a # b # _ \<Rightarrow> (let ks = sorted_list_of_set {k \<in> dom m. a \<le> k \<and> k \<le> b} in
            (rows (map (\<lambda>k. (k, the (m k))) ks) @ endl (''('' @ decimal (length ks) @ '' results)''), m))
        | _ \<Rightarrow> (endl ''ERR: scan <start> <end>'', m))
      else if cmd = str ''flush'' then Some (endl ''OK'', m)
      else if cmd = str ''help'' then Some (help_text, m)
      else if cmd = str ''exit'' \<or> cmd = str ''quit'' then None
      else Some (str ''ERR: unknown command '' @ quoted cmd @ str ''. Type '' @ quoted (str ''help'') @ endl ''.'', m))"

fun spec_session :: "bytes list list \<Rightarrow> (key \<rightharpoonup> bytes) \<Rightarrow> bytes \<times> (key \<rightharpoonup> bytes)" where
  "spec_session [] m = ([], m)"
| "spec_session (ws # wss) m = (case spec_line ws m of None \<Rightarrow> ([], m) | Some (out, m') \<Rightarrow> (let (out', m'') = spec_session wss m' in (out @ out', m'')))"

function input_lines :: "bytes \<Rightarrow> bytes list" where
  "input_lines s = (case getline s of None \<Rightarrow> [] | Some (line, s') \<Rightarrow> line # input_lines s')"
  by pat_completeness auto

termination
  by (relation "measure length") (auto dest: getline_shorter)

declare input_lines.simps [simp del]

section \<open>The shell implements the shell over a map\<close>

text \<open>
  What a line needs: no call fails, a write is within the limits of the log and leaves a memtable that can be flushed when it is
  full, and so does the memtable of an explicit flush.
\<close>

definition io_fine :: "cli_io \<Rightarrow> bool" where
  "io_fine io \<longleftrightarrow> EFail \<notin> set (cio_writes io) \<and> cio_sync io \<and> io_healthy (cio_flush io) \<and> cio_get io = no_error \<and> cio_scan io = (\<lambda>_. healthy)"

definition line_fits :: "cli_io \<Rightarrow> bytes \<Rightarrow> db \<Rightarrow> bool" where
  "line_fits io line d \<longleftrightarrow> io_fine io \<and>
     (case words line of [] \<Rightarrow> True | cmd # args \<Rightarrow>
        (cmd = str ''put'' \<longrightarrow> (case args of k # v # _ \<Rightarrow> write_fits (cio_writes io) (cio_coins io) (cio_flush io) Put k v d | _ \<Rightarrow> True)) \<and>
        (cmd = str ''del'' \<longrightarrow> (case args of k # _ \<Rightarrow> write_fits (cio_writes io) (cio_coins io) (cio_flush io) Delete k [] d | _ \<Rightarrow> True)) \<and>
        (cmd = str ''flush'' \<longrightarrow> approx_bytes (mtable d) \<noteq> 0 \<longrightarrow> flush_durable (cio_flush io) d))"

fun session_fits :: "(merge_source list \<Rightarrow> nat) \<Rightarrow> (nat \<Rightarrow> cli_io) \<Rightarrow> nat \<Rightarrow> bytes list \<Rightarrow> db \<Rightarrow> bool" where
  "session_fits pick ios i [] d \<longleftrightarrow> True"
| "session_fits pick ios i (line # lines) d \<longleftrightarrow> line_fits (ios i) line d \<and>
     (case cli_line pick (ios i) line d of Some (Next _ d') \<Rightarrow> session_fits pick ios (Suc i) lines d' | _ \<Rightarrow> True)"

lemma read_word_words: "read_word s = None \<Longrightarrow> words s = []" "read_word s = Some (w, s') \<Longrightarrow> words s = w # words s'"
  by (simp_all add: words.simps [of s])

lemma read_words2_words: "read_words2 s = (case words s of a # b # _ \<Rightarrow> Some (a, b) | _ \<Rightarrow> None)"
proof (cases "read_word s")
  case (Some a)
  then obtain w s' where s: "read_word s = Some (w, s')" by (cases a) auto
  then show ?thesis using read_word_words(2) [OF s] read_word_words [of s'] by (cases "read_word s'") (auto simp: read_words2_def)
qed (simp add: read_words2_def read_word_words)

lemma cli_put_refines:
  assumes "settled d" "io_fine io" "\<And>k v r. words s = k # v # r \<Longrightarrow> write_fits (cio_writes io) (cio_coins io) (cio_flush io) Put k v d"
  obtains d' where "cli_put io s d = Next (case words s of k # v # _ \<Rightarrow> endl ''OK'' | _ \<Rightarrow> endl ''ERR: put <key> <value>'') d'" "settled d'"
    "db_map d' = (case words s of k # v # _ \<Rightarrow> (db_map d)(k \<mapsto> v) | _ \<Rightarrow> db_map d)"
proof (cases "read_words2 s")
  case None
  then show thesis using that [of d] assms(1) by (auto simp: cli_put_def read_words2_words split: list.splits)
next
  case (Some kv)
  then obtain k v r where w: "words s = k # v # r" by (auto simp: read_words2_words split: list.splits)
  have io: "EFail \<notin> set (cio_writes io)" "io_healthy (cio_flush io)" "cio_sync io" using assms(2) by (auto simp: io_fine_def)
  obtain d' where "write_alone (cio_writes io) True (cio_coins io) (cio_flush io) Put k v d = (Inr (), d')" "settled d'" "db_map d' = (db_map d)(k \<mapsto> v)"
    by (rule fitting_write [OF assms(1) assms(3) [OF w] io(1,2)]) auto
  then show thesis using that [of d'] io(3) w by (simp add: cli_put_def read_words2_words db_put_def)
qed

lemma cli_del_refines:
  assumes "settled d" "io_fine io" "\<And>k r. words s = k # r \<Longrightarrow> write_fits (cio_writes io) (cio_coins io) (cio_flush io) Delete k [] d"
  obtains d' where "cli_del io s d = Next (case words s of k # _ \<Rightarrow> endl ''OK'' | _ \<Rightarrow> endl ''ERR: del <key>'') d'" "settled d'"
    "db_map d' = (case words s of k # _ \<Rightarrow> (db_map d)(k := None) | _ \<Rightarrow> db_map d)"
proof (cases "read_word s")
  case None
  then show thesis using that [of d] assms(1) by (simp add: cli_del_def read_word_words)
next
  case (Some kr)
  then obtain k r where kr: "read_word s = Some (k, r)" by (cases kr) auto
  note w = read_word_words(2) [OF this]
  have io: "EFail \<notin> set (cio_writes io)" "io_healthy (cio_flush io)" "cio_sync io" using assms(2) by (auto simp: io_fine_def)
  obtain d' where "write_alone (cio_writes io) True (cio_coins io) (cio_flush io) Delete k [] d = (Inr (), d')" "settled d'" "db_map d' = (db_map d)(k := None)"
    by (rule fitting_write [OF assms(1) assms(3) [OF w] io(1,2)]) auto
  then show thesis using that [of d'] io(3) w kr by (simp add: cli_del_def db_del_def)
qed

lemma cli_get_refines:
  assumes "settled d" "io_fine io"
  obtains d' where "cli_get io s d = Some (Next (case words s of k # _ \<Rightarrow> (case db_map d k of Some v \<Rightarrow> v @ [10] | None \<Rightarrow> endl ''(nil)'') | _ \<Rightarrow> endl ''ERR: get <key>'') d')"
    "settled d'" "db_map d' = db_map d"
proof (cases "read_word s")
  case None
  then show thesis using that [of d] assms(1) by (simp add: cli_get_def read_word_words)
next
  case (Some kr)
  then obtain k r where kr: "read_word s = Some (k, r)" by (cases kr) auto
  have "db_ok d" using assms(1) by (simp add: settled_def)
  then obtain c where "db_get no_error k d = Some (Inr (db_map d k), d\<lparr>cache := c\<rparr>)" "db_ok (d\<lparr>cache := c\<rparr>)" by (rule ok_get)
  then show thesis using that [of "d\<lparr>cache := c\<rparr>"] settled_cache [OF assms(1)] assms(2) kr read_word_words(2) [OF kr]
    by (simp add: cli_get_def io_fine_def split: option.split)
qed

lemma cli_scan_refines:
  assumes "settled d" "io_fine io" "top_ok merge_source_ops pick"
  shows "cli_scan pick io s d = Some (Next (case words s of a # b # _ \<Rightarrow> (let ks = sorted_list_of_set {k \<in> dom (db_map d). a \<le> k \<and> k \<le> b} in
      rows (map (\<lambda>k. (k, the (db_map d k))) ks) @ endl (''('' @ decimal (length ks) @ '' results)'')) | _ \<Rightarrow> endl ''ERR: scan <start> <end>'') d)"
proof (cases "read_words2 s")
  case None
  then have "(case words s of a # b # _ \<Rightarrow> f a b | _ \<Rightarrow> x) = x" for f and x :: bytes by (auto simp: read_words2_words split: list.splits)
  with None show ?thesis by (simp add: cli_scan_def)
next
  case (Some ab)
  then obtain a b r where w: "words s = a # b # r" "ab = (a, b)" by (auto simp: read_words2_words split: list.splits)
  have "cio_scan io = (\<lambda>_. healthy)" using assms(2) by (simp add: io_fine_def)
  with Some w settled_scan [OF assms(1,3), of a b] show ?thesis by (simp add: cli_scan_def Let_def)
qed

lemma cli_flush_refines:
  assumes "settled d" "io_fine io" "approx_bytes (mtable d) \<noteq> 0 \<Longrightarrow> flush_durable (cio_flush io) d"
  obtains d' where "cli_flush io d = Next (endl ''OK'') d'" "settled d'" "db_map d' = db_map d"
proof -
  have "io_healthy (cio_flush io)" using assms(2) by (simp add: io_fine_def)
  then obtain d' where "flush (cio_flush io) d = (Inr (), d')" "settled d'" "db_map d' = db_map d" by (rule settled_flush [OF assms(1) _ assms(3)])
  then show thesis by (intro that [of d']) (simp_all add: cli_flush_def)
qed

text \<open>How a line of the shell answers a line over the map \<open>m\<close>.\<close>

definition answers :: "cli_step option \<Rightarrow> (bytes \<times> (key \<rightharpoonup> bytes)) option \<Rightarrow> bool" where
  "answers r s \<longleftrightarrow> (case s of None \<Rightarrow> r = Some Break | Some (out, m) \<Rightarrow> \<exists>d'. r = Some (Next out d') \<and> settled d' \<and> db_map d' = m)"

lemma answersI: "r = Some (Next out d') \<Longrightarrow> settled d' \<Longrightarrow> db_map d' = m \<Longrightarrow> s = Some (out, m) \<Longrightarrow> answers r s"
  by (auto simp: answers_def)

lemma cli_line_refines:
  assumes "settled d" "top_ok merge_source_ops pick" "line_fits io line d"
  shows "answers (cli_line pick io line d) (spec_line (words line) (db_map d))"
proof (cases "read_word line")
  case None
  then show ?thesis using assms(1) by (simp add: answers_def cli_line_def read_word_words)
next
  case (Some cs)
  then obtain cmd s where r: "read_word line = Some (cmd, s)" by (cases cs) auto
  note w = read_word_words(2) [OF r]
  have io: "io_fine io" using assms(3) by (simp add: line_fits_def)
  consider "cmd = str ''put''" | "cmd = str ''get''" "cmd \<noteq> str ''put''" | "cmd = str ''del''" "cmd \<notin> {str ''put'', str ''get''}"
    | "cmd = str ''scan''" "cmd \<notin> {str ''put'', str ''get'', str ''del''}" | "cmd = str ''flush''" "cmd \<notin> {str ''put'', str ''get'', str ''del'', str ''scan''}"
    | "cmd \<notin> {str ''put'', str ''get'', str ''del'', str ''scan'', str ''flush''}" by blast
  then show ?thesis
  proof cases
    case 1
    obtain d' where "cli_put io s d = Next (case words s of k # v # _ \<Rightarrow> endl ''OK'' | _ \<Rightarrow> endl ''ERR: put <key> <value>'') d'" "settled d'"
      "db_map d' = (case words s of k # v # _ \<Rightarrow> (db_map d)(k \<mapsto> v) | _ \<Rightarrow> db_map d)"
      by (rule cli_put_refines [OF assms(1) io]) (use assms(3) 1 w in \<open>auto simp: line_fits_def\<close>)
    then show ?thesis using 1 by (intro answersI) (auto simp: w r cli_line_def split: list.split)
  next
    case 2
    obtain d' where "cli_get io s d = Some (Next (case words s of k # _ \<Rightarrow> (case db_map d k of Some v \<Rightarrow> v @ [10] | None \<Rightarrow> endl ''(nil)'') | _ \<Rightarrow> endl ''ERR: get <key>'') d')"
      "settled d'" "db_map d' = db_map d" by (rule cli_get_refines [OF assms(1) io])
    then show ?thesis using 2 by (intro answersI) (auto simp: w r cli_line_def split: list.split)
  next
    case 3
    obtain d' where "cli_del io s d = Next (case words s of k # _ \<Rightarrow> endl ''OK'' | _ \<Rightarrow> endl ''ERR: del <key>'') d'" "settled d'"
      "db_map d' = (case words s of k # _ \<Rightarrow> (db_map d)(k := None) | _ \<Rightarrow> db_map d)"
      by (rule cli_del_refines [OF assms(1) io]) (use assms(3) 3 w in \<open>auto simp: line_fits_def\<close>)
    then show ?thesis using 3 by (intro answersI) (auto simp: w r cli_line_def split: list.split)
  next
    case 4
    note cli_scan_refines [OF assms(1) io assms(2), of s]
    then show ?thesis using 4 assms(1) by (intro answersI) (auto simp: w r cli_line_def Let_def split: list.split)
  next
    case 5
    obtain d' where "cli_flush io d = Next (endl ''OK'') d'" "settled d'" "db_map d' = db_map d"
      by (rule cli_flush_refines [OF assms(1) io]) (use assms(3) 5 w in \<open>auto simp: line_fits_def\<close>)
    then show ?thesis using 5 by (intro answersI [of _ _ d']) (auto simp: w r cli_line_def)
  next
    case 6
    then show ?thesis using assms(1) by (auto simp: answers_def w r cli_line_def)
  qed
qed

lemma cli_loop_refines:
  assumes "settled d" "top_ok merge_source_ops pick" "session_fits pick ios i (input_lines input) d"
    and "spec_session (map words (input_lines input)) (db_map d) = (out, m)"
  shows "\<exists>d'. cli_loop pick ios i input d = Some (Returned out d') \<and> settled d' \<and> db_map d' = m"
  using assms
proof (induction pick ios i input d arbitrary: out m rule: cli_loop.induct)
  case (1 pick ios i input d)
  show ?case
  proof (cases "getline input")
    case None
    then show ?thesis using "1.prems"(1,4) by (simp add: cli_loop.simps [of pick ios i input] input_lines.simps [of input])
  next
    case (Some a)
    then obtain line input' where g: "getline input = Some (line, input')" by (cases a) auto
    then have il: "input_lines input = line # input_lines input'" by (simp add: input_lines.simps [of input])
    have "line_fits (ios i) line d" using "1.prems"(3) by (simp add: il)
    note ans = cli_line_refines [OF "1.prems"(1,2) this]
    show ?thesis
    proof (cases "spec_line (words line) (db_map d)")
      case None
      then show ?thesis using ans "1.prems"(1,4) by (simp add: answers_def cli_loop.simps [of pick ios i input] g il)
    next
      case (Some om)
      then obtain out1 d1 where l: "cli_line pick (ios i) line d = Some (Next out1 d1)" "settled d1" "om = (out1, db_map d1)"
        using ans by (cases om) (auto simp: answers_def)
      obtain out2 where s: "spec_session (map words (input_lines input')) (db_map d1) = (out2, m)" "out = out1 @ out2"
        using "1.prems"(4) Some by (auto simp: il l(3) split: prod.splits)
      have "session_fits pick ios (Suc i) (input_lines input') d1" using "1.prems"(3) l(1) by (simp add: il)
      from "1.IH" [OF g refl l(1) refl l(2) "1.prems"(2) this s(1)] show ?thesis
        using l(1) s(2) by (auto simp: cli_loop.simps [of pick ios i input] g)
    qed
  qed
qed

section \<open>Properties\<close>

text \<open>
  C6. The shell on top of recovery. Started on the directory that a crash left of a database whose state was on disk, and with no failing
  calls, the shell runs its whole input, exits with 0, and prints exactly what the commands print over the map that the
  database was before the crash. At the end the database stands for the resulting map, and is on disk, so that the next session
  continues from it.
\<close>

theorem shell_implements_map:
  assumes "db_ok d" "persisted d" "crash_dir d (dirs name)" "top_ok merge_source_ops pick"
    and "no_fault (oio_wal oio)" "no_fault (oio_manifest oio)" "oio_open oio = (\<lambda>_. (None, None, None))"
    and "\<And>d'. db_open default_options oio coins (dirs name) = Some (Inr d') \<Longrightarrow> session_fits pick ios 0 (input_lines input) d'"
    and "spec_session (map words (input_lines input)) (db_map d) = (out, m)"
  shows "\<exists>d'. cli_main pick oio coins ios [prog, name] dirs input = Some (Exit 0 out [], Some d') \<and> db_ok d' \<and> persisted d' \<and> db_map d' = m"
proof -
  have "opt_sync default_options = EveryWrite" by (simp add: default_options_def)
  then obtain d0 where d0: "db_open default_options oio coins (dirs name) = Some (Inr d0)" "settled d0" "db_map d0 = db_map d"
    by (rule settled_open [OF assms(1-3) _ assms(5-7)]) blast
  have "\<exists>d'. cli_loop pick ios 0 input d0 = Some (Returned out d') \<and> settled d' \<and> db_map d' = m"
    by (rule cli_loop_refines [OF d0(2) assms(4) assms(8) [OF d0(1)]]) (simp add: d0(3) assms(9))
  with d0(1) show ?thesis by (auto simp: cli_main_def settled_def)
qed

definition ex_cio :: cli_io where
  "ex_cio = \<lparr>cio_writes = [Xfer 1, EINTR], cio_sync = True, cio_coins = [True], cio_flush = ex_io, cio_get = no_error, cio_scan = (\<lambda>_. healthy)\<rparr>"

definition ex_input :: bytes where
  "ex_input = endl ''put x y'' @ endl ''get x'' @ endl ''exit''"

lemma ex_input_words: "input_lines ex_input = [str ''put x y'', str ''get x'', str ''exit'']"
  "words (str ''put x y'') = [str ''put'', str ''x'', str ''y'']" "words (str ''get x'') = [str ''get'', str ''x'']" "words (str ''exit'') = [str ''exit'']"
  by (simp_all add: input_lines.simps getline_def words.simps read_word_def space_def ex_input_def endl_def str_def)

lemma ex_cio_fine: "io_fine ex_cio"
  using ex_io_healthy(1) by (simp add: io_fine_def ex_cio_def)

lemma ex_session:
  assumes "settled d" "mt_versions (mtable d) = []" "next_seq d \<le> 7" "opts d = default_options"
  shows "session_fits (first_top merge_source_ops) (\<lambda>_. ex_cio) 0 (input_lines ex_input) d"
proof -
  note io = ex_cio_fine
  have "unat (next_seq d) \<le> 7" using assms(3) by (simp add: word_le_nat_alt)
  then have n: "unat (next_seq d) + 1 < 2 ^ 64" by simp
  have "mem_sized (mtable d)" using assms(1) by (simp add: settled_def db_ok_def)
  then have "write_fits rs cs fio Put (str ''x'') (str ''y'') d" for rs cs fio
    by (intro small_write_fits [OF assms(1) n])
      (simp_all add: assms(2,4) mem_sized_def write_bytes_def kNodeOverhead_def req_entry_def default_options_def str_def max_len_def)
  then have fit: "line_fits ex_cio (str ''put x y'') d" by (simp add: line_fits_def io ex_input_words) (simp add: str_def)
  have get: "line_fits ex_cio (str ''get x'') e" "line_fits ex_cio (str ''exit'') e" for e
    by (simp_all add: line_fits_def io ex_input_words) (simp_all add: str_def)
  show ?thesis unfolding ex_input_words using fit get by (auto split: option.split cli_step.split)
qed

theorem shell_implements_map_witness:
  "\<exists>d'. cli_main (first_top merge_source_ops) ex_oio (\<lambda>_. [True]) (\<lambda>_. ex_cio) [''keystone'', ''db''] (\<lambda>_. ex_dir []) ex_input =
     Some (Exit 0 (endl ''OK'' @ endl ''y'') [], Some d') \<and> db_map d' (str ''x'') = Some (str ''y'')"
proof -
  let ?pick = "first_top merge_source_ops"
  have dir: "crash_dir ex_stored (ex_dir [])" by (rule ex_crash_dir) (simp_all add: ex_stored_fields)
  have sync: "opt_sync default_options = EveryWrite" by (simp add: default_options_def)
  have fits: "session_fits ?pick (\<lambda>_. ex_cio) 0 (input_lines ex_input) d'"
    if op: "db_open default_options ex_oio (\<lambda>_. [True]) (ex_dir []) = Some (Inr d')" for d'
  proof -
    obtain d where d: "db_open default_options ex_oio (\<lambda>_. [True]) (ex_dir []) = Some (Inr d)" "settled d" "db_runs d = db_runs ex_stored"
        "0 < next_seq ex_stored \<Longrightarrow> next_seq d \<le> next_seq ex_stored"
      by (rule settled_open [OF ex_stored_ok ex_stored_persisted dir sync ex_oio_healthy]) blast
    have "mt_versions (mtable d) = mt_versions (mtable ex_stored)" using d(3) by (simp add: db_runs_def)
    then have "mt_versions (mtable d) = []" by (simp add: ex_stored_fields) (simp add: ex_db_def mt_versions_new kMemtableHeight_def)
    then have "session_fits ?pick (\<lambda>_. ex_cio) 0 (input_lines ex_input) d"
      by (rule ex_session [OF d(2)]) (use d(4) db_open_keeps [OF d(1)] in \<open>simp_all add: ex_stored_fields\<close>)
    with op d(1) show ?thesis by simp
  qed
  have spec: "spec_session (map words (input_lines ex_input)) (db_map ex_stored) = (endl ''OK'' @ endl ''y'', (db_map ex_stored)(str ''x'' \<mapsto> str ''y''))"
    unfolding ex_input_words list.map by (simp add: endl_def) (simp add: str_def)
  show ?thesis
    using shell_implements_map [where dirs = "\<lambda>_. ex_dir []" and name = "''db''" and prog = "''keystone''" and coins = "\<lambda>_. [True]", OF ex_stored_ok ex_stored_persisted dir first_top_ok ex_oio_healthy fits spec]
    by auto
qed

end
