(* ===== verification/Torture.thy ===== *)
theory Torture
  imports Cli
begin

text \<open>
  The crash test, \<open>tools/torture.cpp\<close>. Its \<open>write\<close> command puts the keys \<open>key00000000\<close>, \<open>key00000001\<close>, \<dots> one after the other, from
  the first missing one on, until it is killed; its \<open>verify\<close> command checks that a prefix of them is there and nothing of the rest. The
  answers of the kernel to the calls made for the key with number \<open>i\<close> are a parameter.
\<close>

section \<open>The program\<close>

definition torture_key :: "nat \<Rightarrow> key" where
  "torture_key i = str (''key'' @ padded 8 i)"

definition torture_val :: "key \<Rightarrow> bytes" where
  "torture_val k = str ''val:'' @ k"

definition torture_options :: options where
  "torture_options = default_options\<lparr>flush_threshold_bytes := 64 * 1024\<rparr>"

partial_function (option) torture_start :: "(nat \<Rightarrow> int \<Rightarrow> sys_ret option) \<Rightarrow> nat \<Rightarrow> db \<Rightarrow> (sst_error + nat \<times> db) option" where
  "torture_start rp i d =
     (case db_get (rp i) (torture_key i) d of
        None \<Rightarrow> None
      | Some (Inl e, _) \<Rightarrow> Some (Inl e)
      | Some (Inr None, d') \<Rightarrow> Some (Inr (i, d'))
      | Some (Inr (Some _), d') \<Rightarrow> torture_start rp (Suc i) d')"

text \<open>The state after the first \<open>n\<close> turns of the endless loop, or the exception that ended it before.\<close>

fun torture_puts :: "(nat \<Rightarrow> cli_io) \<Rightarrow> nat \<Rightarrow> nat \<Rightarrow> db \<Rightarrow> db_error + db" where
  "torture_puts ios i 0 d = Inr d"
| "torture_puts ios i (Suc n) d =
     (case db_put (cio_writes (ios i)) (cio_sync (ios i)) (cio_coins (ios i)) (cio_flush (ios i)) (torture_key i) (torture_val (torture_key i)) d of
        (Inl e, _) \<Rightarrow> Inl e
      | (Inr _, d') \<Rightarrow> torture_puts ios (Suc i) n d')"

definition torture_write :: "open_io \<Rightarrow> (nat \<Rightarrow> bool list) \<Rightarrow> (nat \<Rightarrow> cli_io) \<Rightarrow> directory \<Rightarrow> nat \<Rightarrow> (exit + db) option" where
  "torture_write oio coins ios dir n =
     (case db_open torture_options oio coins dir of
        None \<Rightarrow> None
      | Some (Inl _) \<Rightarrow> Some (Inl (Terminate []))
      | Some (Inr d) \<Rightarrow>
          (case torture_start (\<lambda>i. cio_get (ios i)) 0 d of
             None \<Rightarrow> None
           | Some (Inl _) \<Rightarrow> Some (Inl (Terminate []))
           | Some (Inr (start, d')) \<Rightarrow> Some (case torture_puts ios start n d' of Inl _ \<Rightarrow> Inl (Terminate []) | Inr d'' \<Rightarrow> Inr d'')))"

text \<open>The first loop of \<open>verify\<close>: the length of the prefix, or the message about a wrong value, which is printed up to its first zero byte.\<close>

partial_function (option) verify_prefix :: "(nat \<Rightarrow> int \<Rightarrow> sys_ret option) \<Rightarrow> nat \<Rightarrow> db \<Rightarrow> (exit + nat \<times> db) option" where
  "verify_prefix rp i d =
     (case db_get (rp i) (torture_key i) d of
        None \<Rightarrow> None
      | Some (Inl _, _) \<Rightarrow> Some (Inl (Terminate []))
      | Some (Inr None, d') \<Rightarrow> Some (Inr (i, d'))
      | Some (Inr (Some v), d') \<Rightarrow>
          if v \<noteq> torture_val (torture_key i)
          then Some (Inl (Exit 1 [] (str ''CORRUPTION: '' @ torture_key i @ str '' expected='' @ torture_val (torture_key i) @ str '' got='' @ takeWhile (\<lambda>b. b \<noteq> 0) v @ [10])))
          else verify_prefix rp (Suc i) d')"

text \<open>The second loop: no key of the next thousand is there.\<close>

fun verify_holes :: "(nat \<Rightarrow> int \<Rightarrow> sys_ret option) \<Rightarrow> nat \<Rightarrow> nat list \<Rightarrow> db \<Rightarrow> (exit + db) option" where
  "verify_holes rp p [] d = Some (Inr d)"
| "verify_holes rp p (i # is) d =
     (case db_get (rp i) (torture_key i) d of
        None \<Rightarrow> None
      | Some (Inl _, _) \<Rightarrow> Some (Inl (Terminate []))
      | Some (Inr (Some _), _) \<Rightarrow> Some (Inl (Exit 1 [] (str ''HOLE: '' @ torture_key i @ str '' present after gap at '' @ endl (decimal p))))
      | Some (Inr None, d') \<Rightarrow> verify_holes rp p is d')"

definition torture_verify :: "open_io \<Rightarrow> (nat \<Rightarrow> bool list) \<Rightarrow> (nat \<Rightarrow> int \<Rightarrow> sys_ret option) \<Rightarrow> directory \<Rightarrow> exit option" where
  "torture_verify oio coins rp dir =
     (case db_open default_options oio coins dir of
        None \<Rightarrow> None
      | Some (Inl _) \<Rightarrow> Some (Terminate [])
      | Some (Inr d) \<Rightarrow>
          (case verify_prefix rp 0 d of
             None \<Rightarrow> None
           | Some (Inl x) \<Rightarrow> Some x
           | Some (Inr (p, d')) \<Rightarrow>
               map_option (\<lambda>r. case r of Inl x \<Rightarrow> x | Inr _ \<Rightarrow> Exit 0 (endl (decimal p)) []) (verify_holes rp p [p + 1..<p + 1000] d')))"

text \<open>The program: how it ended, or its state after \<open>n\<close> puts.\<close>

definition torture_main :: "open_io \<Rightarrow> (nat \<Rightarrow> bool list) \<Rightarrow> (nat \<Rightarrow> cli_io) \<Rightarrow> string list \<Rightarrow> (string \<Rightarrow> directory) \<Rightarrow> nat \<Rightarrow> (exit + db) option" where
  "torture_main oio coins ios argv dirs n =
     (if length argv < 3 then Some (Inl (Exit 1 [] (endl ''usage: torture <write|verify> <dir>'')))
      else let cmd = argv ! 1; dir = argv ! 2 in
      if cmd = ''write'' then torture_write oio coins ios (dirs dir) n
      else if cmd = ''verify'' then map_option Inl (torture_verify oio coins (\<lambda>i. cio_get (ios i)) (dirs dir))
      else Some (Inl (Exit 1 [] (str ''unknown subcommand: '' @ endl cmd))))"

section \<open>What the loops do\<close>

text \<open>The first \<open>n\<close> keys are there with their values, and none of the others.\<close>

definition torture_prefix :: "nat \<Rightarrow> (key \<rightharpoonup> bytes) \<Rightarrow> bool" where
  "torture_prefix n m \<longleftrightarrow> (\<forall>i. m (torture_key i) = (if i < n then Some (torture_val (torture_key i)) else None))"

lemma torture_key_inj: "torture_key i = torture_key j \<Longrightarrow> i = j"
proof -
  have "unat (of_char c :: byte) = of_char c" for c
    using unat_of_nat [of "of_char c", where 'a = 8] by (simp add: of_nat_of_char)
  then have "inj (of_char :: char \<Rightarrow> byte)" by (metis injI of_char_eq_iff)
  assume "torture_key i = torture_key j"
  then have "padded 8 i = padded 8 j" using \<open>inj of_char\<close> by (simp add: torture_key_def str_def inj_map_eq_map)
  then show ?thesis by (metis padded_digits(3))
qed

lemma torture_prefix_Suc: "torture_prefix n m \<Longrightarrow> torture_prefix (Suc n) (m(torture_key n \<mapsto> torture_val (torture_key n)))"
  by (auto simp: torture_prefix_def less_Suc_eq dest: torture_key_inj)

lemma start_finds:
  assumes "db_ok d" "torture_prefix n (db_map d)" "i \<le> n"
  shows "\<exists>c. torture_start (\<lambda>_. no_error) i d = Some (Inr (n, d\<lparr>cache := c\<rparr>)) \<and> db_ok (d\<lparr>cache := c\<rparr>)"
  using assms
proof (induction "n - i" arbitrary: i d)
  case 0
  then have "db_map d (torture_key i) = None" "i = n" by (auto simp: torture_prefix_def)
  then show ?case by (rule_tac ok_get [OF "0.prems"(1), of "torture_key i"]) (auto simp: torture_start.simps)
next
  case (Suc k)
  obtain c where c: "db_get no_error (torture_key i) d = Some (Inr (db_map d (torture_key i)), d\<lparr>cache := c\<rparr>)" "db_ok (d\<lparr>cache := c\<rparr>)"
    by (rule ok_get [OF Suc.prems(1)])
  have i: "k = n - Suc i" "Suc i \<le> n" using Suc.hyps(2) by auto
  then have "db_map d (torture_key i) = Some (torture_val (torture_key i))" using Suc.prems(2) by (simp add: torture_prefix_def)
  then have "torture_start (\<lambda>_. no_error) i d = torture_start (\<lambda>_. no_error) (Suc i) (d\<lparr>cache := c\<rparr>)" using c(1) by (simp add: torture_start.simps [of _ i])
  then show ?case using Suc.hyps(1) [OF i(1) c(2) _ i(2)] Suc.prems(2) by simp
qed

lemma prefix_found:
  assumes "db_ok d" "torture_prefix n (db_map d)" "i \<le> n"
  shows "\<exists>c. verify_prefix (\<lambda>_. no_error) i d = Some (Inr (n, d\<lparr>cache := c\<rparr>)) \<and> db_ok (d\<lparr>cache := c\<rparr>)"
  using assms
proof (induction "n - i" arbitrary: i d)
  case 0
  then have "db_map d (torture_key i) = None" "i = n" by (auto simp: torture_prefix_def)
  then show ?case by (rule_tac ok_get [OF "0.prems"(1), of "torture_key i"]) (auto simp: verify_prefix.simps)
next
  case (Suc k)
  obtain c where c: "db_get no_error (torture_key i) d = Some (Inr (db_map d (torture_key i)), d\<lparr>cache := c\<rparr>)" "db_ok (d\<lparr>cache := c\<rparr>)"
    by (rule ok_get [OF Suc.prems(1)])
  have i: "k = n - Suc i" "Suc i \<le> n" using Suc.hyps(2) by auto
  then have "db_map d (torture_key i) = Some (torture_val (torture_key i))" using Suc.prems(2) by (simp add: torture_prefix_def)
  then have "verify_prefix (\<lambda>_. no_error) i d = verify_prefix (\<lambda>_. no_error) (Suc i) (d\<lparr>cache := c\<rparr>)" using c(1) by (simp add: verify_prefix.simps [of _ i])
  then show ?case using Suc.hyps(1) [OF i(1) c(2) _ i(2)] Suc.prems(2) by simp
qed

lemma no_holes:
  assumes "db_ok d" "torture_prefix n (db_map d)" "\<forall>i \<in> set is. n \<le> i"
  shows "\<exists>d'. verify_holes (\<lambda>_. no_error) p is d = Some (Inr d')"
  using assms
proof (induction "is" arbitrary: d)
  case (Cons i "is")
  have "db_map d (torture_key i) = None" using Cons.prems(2,3) by (simp add: torture_prefix_def)
  then show ?case using Cons.IH Cons.prems by (rule_tac ok_get [OF Cons.prems(1), of "torture_key i"]) auto
qed simp

lemma verify_recovered:
  assumes "db_ok d" "recoverable d dir" "torture_prefix n (db_map d)"
    and "no_fault (oio_wal io)" "no_fault (oio_manifest io)" "oio_open io = (\<lambda>_. (None, None, None))"
  shows "torture_verify io coins (\<lambda>_. no_error) dir = Some (Exit 0 (endl (decimal n)) [])"
proof -
  obtain d' where d': "db_open default_options io coins dir = Some (Inr d')" "db_ok d'" "db_runs d' = db_runs d"
    by (rule open_recoverable [OF assms(1,2,4-6)]) blast
  have m: "torture_prefix n (db_map d')" using assms(3) d'(3) by (simp add: db_map_def [abs_def])
  obtain c where c: "verify_prefix (\<lambda>_. no_error) 0 d' = Some (Inr (n, d'\<lparr>cache := c\<rparr>))" "db_ok (d'\<lparr>cache := c\<rparr>)" using prefix_found [OF d'(2) m, of 0] by auto
  obtain d'' where "verify_holes (\<lambda>_. no_error) n [n + 1..<n + 1000] (d'\<lparr>cache := c\<rparr>) = Some (Inr d'')"
    using no_holes [OF c(2), of n "[n + 1..<n + 1000]" n] m by auto
  with d'(1) c(1) show ?thesis by (simp add: torture_verify_def)
qed

text \<open>The turns of the endless loop, each with calls that do not fail and a write that fits.\<close>

fun puts_fit :: "(nat \<Rightarrow> cli_io) \<Rightarrow> nat \<Rightarrow> nat \<Rightarrow> db \<Rightarrow> bool" where
  "puts_fit ios i 0 d \<longleftrightarrow> True"
| "puts_fit ios i (Suc n) d \<longleftrightarrow> io_fine (ios i) \<and> write_fits (cio_writes (ios i)) (cio_coins (ios i)) (cio_flush (ios i)) Put (torture_key i) (torture_val (torture_key i)) d \<and>
     (case db_put (cio_writes (ios i)) (cio_sync (ios i)) (cio_coins (ios i)) (cio_flush (ios i)) (torture_key i) (torture_val (torture_key i)) d of
        (Inl e, _) \<Rightarrow> True
      | (Inr _, d') \<Rightarrow> puts_fit ios (Suc i) n d')"

lemma puts_done:
  assumes "settled d" "torture_prefix i (db_map d)" "puts_fit ios i (Suc n) d"
  shows "\<exists>d'. torture_puts ios i n d = Inr d' \<and> settled d' \<and> torture_prefix (i + n) (db_map d') \<and> puts_fit ios (i + n) 1 d'"
  using assms
proof (induction n arbitrary: i d)
  case 0
  then show ?case by (auto split: prod.splits sum.splits)
next
  case (Suc n)
  let ?k = "torture_key i" and ?io = "ios i"
  have f: "io_fine ?io" "write_fits (cio_writes ?io) (cio_coins ?io) (cio_flush ?io) Put ?k (torture_val ?k) d" using Suc.prems(3) by auto
  then have io: "EFail \<notin> set (cio_writes ?io)" "io_healthy (cio_flush ?io)" "cio_sync ?io" by (auto simp: io_fine_def)
  obtain d1 where d1: "write_alone (cio_writes ?io) True (cio_coins ?io) (cio_flush ?io) Put ?k (torture_val ?k) d = (Inr (), d1)" "settled d1"
      "db_map d1 = (db_map d)(?k \<mapsto> torture_val ?k)"
    by (rule fitting_write [OF Suc.prems(1) f(2) io(1,2)]) auto
  have "torture_prefix (Suc i) (db_map d1)" unfolding d1(3) by (rule torture_prefix_Suc [OF Suc.prems(2)])
  moreover have "puts_fit ios (Suc i) (Suc n) d1" using Suc.prems(3) d1(1) io(3) by (subst (asm) puts_fit.simps(2)) (simp add: db_put_def del: puts_fit.simps)
  moreover have "torture_puts ios i (Suc n) d = torture_puts ios (Suc i) n d1" using d1(1) io(3) by (simp add: db_put_def)
  ultimately show ?case using Suc.IH [OF d1(2), of "Suc i"] by (simp del: puts_fit.simps torture_puts.simps)
qed

section \<open>Properties\<close>

text \<open>
  C7. The crash test passes. Started on what a crash left of a database that holds the first \<open>n\<close> keys, the writer finds the end of the prefix
  and puts the keys after it. When it is killed after \<open>m\<close> puts have returned, at any point of the next one, with any part of what is not
  synced lost, then verifying reports neither a corruption nor a hole: it exits with 0 and prints \<open>n + m\<close>, the acknowledged puts, or one
  more.
\<close>

theorem torture_crash_test:
  assumes "db_ok d" "persisted d" "crash_dir d (dirs name)" "torture_prefix n (db_map d)"
    and "no_fault (oio_wal oio)" "no_fault (oio_manifest oio)" "oio_open oio = (\<lambda>_. (None, None, None))"
    and "no_fault (oio_wal vio)" "no_fault (oio_manifest vio)" "oio_open vio = (\<lambda>_. (None, None, None))" "\<forall>i. cio_get (ios i) = no_error" "\<forall>i. cio_get (vios i) = no_error"
    and "\<And>d0 d1. db_open torture_options oio coins (dirs name) = Some (Inr d0) \<Longrightarrow> torture_start (\<lambda>i. cio_get (ios i)) 0 d0 = Some (Inr (n, d1)) \<Longrightarrow> puts_fit ios n (Suc m) d1"
  shows "\<exists>d1. torture_main oio coins ios [prog, ''write'', name] dirs m = Some (Inr d1) \<and>
    (\<forall>ds dirs' l. put_stage (cio_writes (ios (n + m))) (cio_coins (ios (n + m))) (cio_flush (ios (n + m))) (torture_key (n + m)) (torture_val (torture_key (n + m))) d1 ds \<longrightarrow>
       crash_dir ds (dirs' name) \<longrightarrow>
       (\<exists>p \<in> {n + m, n + m + 1}. torture_main vio vcoins vios [prog, ''verify'', name] dirs' l = Some (Inl (Exit 0 (endl (decimal p)) []))))"
proof -
  have "opt_sync torture_options = EveryWrite" by (simp add: torture_options_def default_options_def)
  then obtain d0 where d0: "db_open torture_options oio coins (dirs name) = Some (Inr d0)" "settled d0" "db_map d0 = db_map d"
    by (rule settled_open [OF assms(1-3) _ assms(5-7)]) blast
  obtain c where c: "torture_start (\<lambda>i. cio_get (ios i)) 0 d0 = Some (Inr (n, d0\<lparr>cache := c\<rparr>))" "db_ok (d0\<lparr>cache := c\<rparr>)"
    using start_finds [of d0 n 0] d0(2,3) assms(4,11) by (auto simp: settled_def)
  obtain d1 where d1: "torture_puts ios n m (d0\<lparr>cache := c\<rparr>) = Inr d1" "settled d1" "torture_prefix (n + m) (db_map d1)" "puts_fit ios (n + m) 1 d1"
    using puts_done [OF settled_cache [OF d0(2) c(2)] _ assms(13) [OF d0(1) c(1)]] assms(4) d0(3) by auto
  let ?io = "ios (n + m)" and ?k = "torture_key (n + m)"
  have f: "write_fits (cio_writes ?io) (cio_coins ?io) (cio_flush ?io) Put ?k (torture_val ?k) d1" "EFail \<notin> set (cio_writes ?io)" "io_healthy (cio_flush ?io)"
    using d1(4) by (auto simp: io_fine_def)
  have "\<exists>p \<in> {n + m, n + m + 1}. torture_verify vio vcoins (\<lambda>_. no_error) dir' = Some (Exit 0 (endl (decimal p)) [])"
    if st: "put_stage (cio_writes ?io) (cio_coins ?io) (cio_flush ?io) ?k (torture_val ?k) d1 ds" "crash_dir ds dir'" for ds dir'
  proof -
    obtain dv where dv: "db_ok dv" "recoverable dv dir'" "db_map dv = db_map d1 \<or> db_map dv = (db_map d1)(?k \<mapsto> torture_val ?k)"
      by (rule put_crash [OF d1(2) f st])
    then have "\<exists>p \<in> {n + m, n + m + 1}. torture_prefix p (db_map dv)" using d1(3) torture_prefix_Suc [OF d1(3)] by auto
    then show ?thesis using verify_recovered [OF dv(1,2) _ assms(8-10)] by blast
  qed
  moreover have "torture_main oio coins ios [prog, ''write'', name] dirs m = Some (Inr d1)" using d0(1) c(1) d1(1) by (simp add: torture_main_def torture_write_def)
  moreover have "torture_main vio vcoins vios [prog, ''verify'', name] dirs' l = map_option Inl (torture_verify vio vcoins (\<lambda>_. no_error) (dirs' name))" for dirs' l
    using assms(12) by (simp add: torture_main_def)
  ultimately show ?thesis by fastforce
qed

lemma ex_torture_prefix: "torture_prefix 0 (db_map ex_stored)"
proof -
  have "db_runs ex_stored = db_runs ex_db" by (simp add: db_runs_def ex_stored_fields)
  moreover have "torture_key i \<notin> ekey ` set ex_entries" for i by (auto simp: torture_key_def str_def ex_entries_def)
  ultimately have "lookup_run (concat (db_runs ex_stored)) (torture_key i) UINT64_MAX \<noteq> Some e" for i e
    using lookup_run_SomeD [of "concat (db_runs ex_stored)" "torture_key i" UINT64_MAX e] by (simp add: ex_db_runs) (metis image_eqI)
  then show ?thesis using db_map_Some [of ex_stored] by (auto simp: torture_prefix_def not_Some_eq [symmetric])
qed

theorem torture_crash_test_witness:
  "\<exists>d1 ds. \<exists>p \<in> {0, 1}. torture_main ex_oio (\<lambda>_. [True]) (\<lambda>_. ex_cio) [''torture'', ''write'', ''db''] (\<lambda>_. ex_dir []) 0 = Some (Inr d1) \<and> db_wal ds \<noteq> db_wal d1 \<and>
     torture_main ex_oio (\<lambda>_. [True]) (\<lambda>_. ex_cio) [''torture'', ''verify'', ''db''] (\<lambda>_. dir_of ds) 0 = Some (Inl (Exit 0 (endl (decimal p)) []))"
proof -
  have dir: "crash_dir ex_stored (ex_dir [])" by (rule ex_crash_dir) (simp_all add: ex_stored_fields)
  have sync: "opt_sync torture_options = EveryWrite" by (simp add: torture_options_def default_options_def)
  obtain d0 where d0: "db_open torture_options ex_oio (\<lambda>_. [True]) (ex_dir []) = Some (Inr d0)" "settled d0" "db_map d0 = db_map ex_stored" "db_runs d0 = db_runs ex_stored"
      "0 < next_seq ex_stored \<Longrightarrow> next_seq d0 \<le> next_seq ex_stored"
    by (rule settled_open [OF ex_stored_ok ex_stored_persisted dir sync ex_oio_healthy]) blast
  have get: "cio_get ex_cio = no_error" by (simp add: ex_cio_def)
  obtain c where c: "torture_start (\<lambda>_. no_error) 0 d0 = Some (Inr (0, d0\<lparr>cache := c\<rparr>))" "db_ok (d0\<lparr>cache := c\<rparr>)"
    using start_finds [of d0 0 0] d0(2,3) ex_torture_prefix by (auto simp: settled_def)
  let ?d1 = "d0\<lparr>cache := c\<rparr>" and ?k = "torture_key 0"
  have s1: "settled ?d1" by (rule settled_cache [OF d0(2) c(2)])
  have len: "length ?k = 11" "length (torture_val ?k) = 15" by (simp_all add: torture_val_def torture_key_def str_def padded_def decimal.simps)
  have "unat (next_seq ?d1) \<le> 7" using d0(5) by (simp add: ex_stored_fields word_le_nat_alt)
  then have n: "unat (next_seq ?d1) + 1 < 2 ^ 64" by simp
  have "mt_versions (mtable d0) = mt_versions (mtable ex_stored)" using d0(4) by (simp add: db_runs_def)
  then have "mt_versions (mtable d0) = []" by (simp add: ex_stored_fields) (simp add: ex_db_def mt_versions_new kMemtableHeight_def)
  then have "approx_bytes (mtable ?d1) = 0" using d0(2) by (simp add: settled_def db_ok_def mem_sized_def)
  then have "write_fits rs cs fio Put ?k (torture_val ?k) ?d1" for rs cs fio
    by (intro small_write_fits [OF s1 n])
      (simp_all add: len write_bytes_def kNodeOverhead_def req_entry_def max_len_def db_open_keeps(1) [OF d0(1)], simp_all add: torture_options_def)
  then have "puts_fit (\<lambda>_. ex_cio) 0 (Suc 0) ?d1" by (simp add: ex_cio_fine split: prod.split sum.split)
  then have fit: "puts_fit (\<lambda>_. ex_cio) 0 (Suc 0) d'" if "db_open torture_options ex_oio (\<lambda>_. [True]) (ex_dir []) = Some (Inr d)"
      "torture_start (\<lambda>_. cio_get ex_cio) 0 d = Some (Inr (0, d'))" for d d'
    using that d0(1) c(1) get by simp
  have test: "\<exists>d1. torture_main ex_oio (\<lambda>_. [True]) (\<lambda>_. ex_cio) [''torture'', ''write'', ''db''] (\<lambda>_. ex_dir []) 0 = Some (Inr d1) \<and>
    (\<forall>ds dirs' l. put_stage (cio_writes ex_cio) (cio_coins ex_cio) (cio_flush ex_cio) (torture_key (0 + 0)) (torture_val (torture_key (0 + 0))) d1 ds \<longrightarrow>
       crash_dir ds (dirs' ''db'') \<longrightarrow>
       (\<exists>p \<in> {0 + 0, 0 + 0 + 1}. torture_main ex_oio (\<lambda>_. [True]) (\<lambda>_. ex_cio) [''torture'', ''verify'', ''db''] dirs' l = Some (Inl (Exit 0 (endl (decimal p)) []))))"
    by (rule torture_crash_test [OF ex_stored_ok ex_stored_persisted dir ex_torture_prefix ex_oio_healthy ex_oio_healthy]) (use get fit in auto)
  have d1: "torture_main ex_oio (\<lambda>_. [True]) (\<lambda>_. ex_cio) [''torture'', ''write'', ''db''] (\<lambda>_. ex_dir []) 0 = Some (Inr ?d1)"
    using d0(1) c(1) get by (simp add: torture_main_def torture_write_def)
  let ?w = "(db_wal ?d1)\<lparr>wlog := \<lparr>contents = contents (wlog (db_wal ?d1)) @ take 5 (wal_frame \<lparr>rtype = Put, rseq = next_seq ?d1, rkey = ?k, rval = torture_val ?k\<rparr>),
    durable = durable (wlog (db_wal ?d1))\<rparr>\<rparr>"
  let ?ds = "?d1\<lparr>next_seq := next_seq ?d1 + 1, db_wal := ?w\<rparr>"
  have "commit_batch [Xfer 5, EFail] True [(cio_coins ex_cio, write_req Put ?k (torture_val ?k) (next_seq ?d1))] (?d1\<lparr>next_seq := next_seq ?d1 + 1\<rparr>) = (Inl (WalError WriteFailed), ?ds)"
    using wal_frame_length [of "\<lparr>rtype = Put, rseq = next_seq d0, rkey = ?k, rval = torture_val ?k\<rparr>"]
    by (simp add: commit_batch_def append_batch_def wal_write_def file_write_def write_fully_torn wal_record_def)
  then have st: "put_stage (cio_writes ex_cio) (cio_coins ex_cio) (cio_flush ex_cio) ?k (torture_val ?k) ?d1 ?ds" by (rule put_stage.logging)
  have "crash_dir ?ds (dir_of ?ds)"
    by (rule dir_of_crash) (use db_open_keeps(3,4) [OF d0(1)] d0(2) in \<open>auto simp: settled_def persisted_def wal_persisted_def manifest_persisted_def on_disk_def\<close>)
  with test d1 st have "\<exists>p \<in> {0, 1}. torture_main ex_oio (\<lambda>_. [True]) (\<lambda>_. ex_cio) [''torture'', ''verify'', ''db''] (\<lambda>_. dir_of ?ds) 0 = Some (Inl (Exit 0 (endl (decimal p)) []))"
    by auto
  moreover have "contents (wlog (db_wal ?ds)) \<noteq> contents (wlog (db_wal ?d1))"
    using wal_frame_length [of "\<lparr>rtype = Put, rseq = next_seq d0, rkey = ?k, rval = torture_val ?k\<rparr>"] by auto
  then have "db_wal ?ds \<noteq> db_wal ?d1" by metis
  ultimately show ?thesis using d1 by blast
qed

end
