(* ===== verification/Spec2Isabelle.thy ===== *)
theory Spec2Isabelle
  imports Compact_Properties Db_Group History Torture
begin

text \<open>
  KeystoneDB is an embedded key-value store on a log-structured merge tree, written in C++. This development models its
  library (\<open>src/\<close>, \<open>include/keystone/\<close>), its shell (\<open>cmd/keystone/main.cpp\<close>) and its crash test (\<open>tools/torture.cpp\<close>), and
  proves what makes them correct: what a read returns, that acknowledged writes survive a crash, that flushes and
  compactions change no read, that concurrent writers are served, and where the code does not do what it means to.

  \<^bold>\<open>The parts and how they interact.\<close> A write is numbered, appended to the write-ahead log and put into the memtable,
  by the leader of a group of waiting writers. A full memtable is written to an SSTable at level 0, the new set of files is
  appended to the MANIFEST, and the log is emptied. A background thread merges files into deeper levels. A point read asks the
  memtable, then the files of level 0 from the newest on, then one file per deeper level; a range read merges all of them.
  Opening replays the log into a memtable and takes the files from the last snapshot in the MANIFEST.

  \<^bold>\<open>Common vocabulary.\<close>
  \<^item> \<open>Keystone_Prelude\<close>: byte strings, words, the versioned entry and its order (key ascending, sequence number descending).
  \<^item> \<open>Versions\<close>: sorted runs of versions and lookups in them, independent of any component.
  \<^item> \<open>Coding\<close> (\<open>src/coding.h\<close>): little-endian codecs, \<open>write_fully\<close>, \<open>read_fully\<close>, \<open>durable_sync\<close>. The kernel is an argument:
    a list of replies (\<open>Xfer n\<close>, \<open>EINTR\<close>, \<open>EFail\<close>), so every short, interrupted and failing call is covered. A file
    (\<open>afile\<close>) has contents and a durable prefix; a crash (\<open>crash_image\<close>) leaves any prefix of the contents not shorter than it.
  \<^item> \<open>Crc32\<close> (\<open>src/crc32.cpp\<close>): the table and the loop over it compute the bit-wise CRC-32, which detects bursts of up to four bytes.

  \<^bold>\<open>Logs.\<close> \<open>Framed_Log\<close> is the locale \<open>framed_log\<close> of files made of framed records; \<open>Wal\<close> (\<open>src/wal.cpp\<close>) and \<open>Manifest\<close>
  (\<open>src/manifest.cpp\<close>) interpret it. They hold the operations, the round trips, what a crash leaves of an append, which corruption is
  detected, and the defects of the readers (records over 64 MiB, interrupted reads, long keys, torn snapshots).

  \<^bold>\<open>Memtable.\<close> \<open>Memtable\<close> (\<open>src/memtable.cpp\<close>) is the skip list on an explicit heap of nodes with indices as pointers, coin flips as an
  argument, and every loop as a partial function, shown to end. \<open>Memtable_Spec\<close> has the locale \<open>version_map\<close>, a sorted
  run of versions with \<open>put\<close>, \<open>del\<close> and \<open>lookup\<close>, and the interpretation of the skip list in it.

  \<^bold>\<open>Tables.\<close> \<open>Bloom\<close> (\<open>src/bloom.cpp\<close>), \<open>Block_Cache\<close> (\<open>src/block_cache.cpp\<close>, with any interleaving of readers) and \<open>Sstable\<close>
  (\<open>src/sstable.cpp\<close>: writer, reader, iterators). \<open>Sstable_Image\<close> says which bytes the writer produces, \<open>Sstable_Read\<close> what the
  reader makes of them, \<open>Sstable_Spec\<close> has the properties. \<open>Merge_Iterator\<close> (\<open>src/merge_iterator.cpp\<close>) has the locale
  \<open>merge_feed\<close> of the sources of a merge and its interpretation by the three kinds of source.

  \<^bold>\<open>Database.\<close>
  \<^item> \<open>Db_Version\<close>, \<open>Db\<close>, \<open>Db_Inv\<close>, \<open>Db_Reads\<close>: versions, the record \<open>db\<close> of the fields of \<open>class DB\<close>, \<open>get\<close>, \<open>scan\<close> and
    snapshots; the invariant \<open>db_ok\<close> (runs of versions, newest first) and what readers return under it.
  \<^item> \<open>Db_Write\<close>, \<open>Db_Flush\<close>, \<open>Db_Commit\<close>, \<open>Db_Group\<close>: \<open>flush\<close>, the pieces of \<open>DB::write\<close> between its lock operations, and group commit as
    the step relation \<open>wstep\<close> over any number of threads; every operation keeps the invariant, and what returned writes are promised
    in every interleaving.
  \<^item> \<open>Db_Compact\<close>, \<open>Compact_Runs\<close>, \<open>Compact_Merge\<close>, \<open>Compact_Pick\<close>, \<open>Compact_Commit\<close>, \<open>Compact_Spec\<close>, \<open>Compact_Properties\<close>:
    \<open>compaction_loop\<close> and \<open>compact\<close> of \<open>src/db.cpp\<close>; why dropping versions is right, that the chosen inputs allow it also when writes and
    flushes come in between, and when \<open>compact\<close> ends.
  \<^item> \<open>File_Names\<close>, \<open>Db_Open\<close>: \<open>DB::open\<close> on a directory given as names and contents.
  \<^item> \<open>Recovery\<close>, \<open>Durability\<close>, \<open>Crash_Points\<close>, \<open>Compact_Crash\<close>, \<open>Recovery_Spec\<close>: the state of a database is on disk (\<open>persisted\<close>), which
    directories a crash leaves of it (\<open>crash_dir\<close>), what recovery finds in them (\<open>recoverable\<close>); which operations keep the state on disk;
    and the points inside a batch, a flush and the commit of a compaction (\<open>commit_batch\<close> with failing calls, \<open>flush_stages\<close>,
    \<open>commit_stage\<close>), at each of which a crash loses nothing that was acknowledged.

  \<^bold>\<open>Programs.\<close> \<open>Session\<close> abstracts a database to the map \<open>db_map\<close> and gives each call as an operation on it. \<open>Cli\<close> shows that the
  shell, also after a crash, behaves like one over a map in memory; \<open>Torture\<close> that the crash test passes wherever it is killed.
  \<open>Background\<close> runs the compaction thread as steps (\<open>bg_step\<close>: nothing to do, a job chosen, merged, committed) between the calls of a client, and
  \<open>History\<close> has every sequence of calls and steps (\<open>history\<close>): the database is the map that the writes make, also after a crash at any
  point (\<open>crash_point\<close>), and a snapshot reads the map of the moment it was taken until it is released.

  \<^bold>\<open>Bounds, fuel and hypotheses.\<close> No definition has fuel. Loops that are not structural are \<open>function\<close>s with a termination proof or
  partial functions to \<open>option\<close>, where \<open>None\<close> is a loop without end or an access out of range; the properties state that they return
  a value. Sequence numbers, offsets and sizes in files are words of the width they have in the code, so that hypotheses such as
  \<open>unat (next_seq d) + 1 < 2 ^ 64\<close> exclude a wrap-around. \<open>fits\<close> and \<open>table_fit\<close> ask that keys and values are shorter than
  \<open>2 ^ 32\<close>, a table is shorter than \<open>2 ^ 63\<close> bytes, and that no key has versions in two blocks (\<open>no_straddle\<close>); the last is needed because
  of a defect, \<open>sst_get_stale\<close>. \<open>rec_ok\<close> and \<open>snapshot_ok\<close> are the limits that the readers of the two logs impose on what the
  writers write. \<open>top_ok\<close> is what the standard promises of the top of a priority queue. \<open>opens\<close>, \<open>table_healthy\<close>, \<open>io_healthy\<close>, \<open>no_fault\<close> and \<open>io_fine\<close> say
  which system calls of an operation do not fail; short and interrupted calls remain allowed.

  \<^bold>\<open>Not modelled.\<close> Locks and condition variables appear as the atomic steps they delimit; the stop flag and the joining of the
  compaction thread, the destructors and accessors that only read a field are left out. \<open>open\<close>, \<open>close\<close>, \<open>unlink\<close>, \<open>mkdir\<close> and the truncation of the log
  in \<open>flush\<close> do not fail; a directory entry is durable with the rename, as the code syncs the directory after it. Input files
  of a compaction are unlinked at its commit, although the code waits for the last reader. The shell and the crash test run with the
  compaction thread idle; \<open>History\<close> shows that its steps change no read. A history has one client, whose calls and the steps of the thread do not
  fail and do not overlap; several writers at once are in \<open>Db_Group\<close>, failing calls in the properties of the single operations. The hash of the block cache's map, the random
  generator behind the coin flips, and the state of the C++ streams are parameters or of no influence. \<open>bench/\<close> measures time with
  clocks, floating point and SQLite, \<open>tools/torture.py\<close> starts and kills a process, and \<open>tests/\<close> are unit tests of the parts above.
\<close>

end
